(* ===== verification/HPrelude.thy ===== *)
theory HPrelude
  imports "HOL-Library.Word" "HOL-Library.Multiset"
begin

unbundle bit_operations_syntax

text \<open>
  Shared vocabulary of the development: the C types the sources use, the GCC atomic builtins
  (each is one indivisible step on one memory word), runs of labelled step functions and the
  invariant rule for them, and generic facts about words, lists and function updates that the
  component theories use.
\<close>

section \<open>C types\<close>

type_synonym c_uint = "32 word"
  \<comment> \<open>\<open>int\<close> and \<open>unsigned int\<close>; an \<open>int\<close> is read with \<^const>\<open>sint\<close>\<close>
type_synonym c_size = "64 word"
  \<comment> \<open>\<open>size_t\<close>, \<open>unsigned long long\<close>, \<open>intptr_t\<close>; \<open>ssize_t\<close> is read with \<^const>\<open>sint\<close>\<close>

section \<open>GCC atomic builtins\<close>

text \<open>
  Each builtin maps the old contents of the word to its result and the new contents.
\<close>

definition sync_fetch_and_add :: "'w::len word \<Rightarrow> 'w word \<Rightarrow> 'w word \<times> 'w word" where
  "sync_fetch_and_add m d = (m, m + d)"

definition sync_add_and_fetch :: "'w::len word \<Rightarrow> 'w word \<Rightarrow> 'w word \<times> 'w word" where
  "sync_add_and_fetch m d = (m + d, m + d)"

definition sync_lock_test_and_set :: "'w::len word \<Rightarrow> 'w word \<Rightarrow> 'w word \<times> 'w word" where
  "sync_lock_test_and_set m v = (m, v)"

definition sync_lock_release :: "'w::len word \<Rightarrow> 'w word" where
  "sync_lock_release m = 0"

definition sync_bool_compare_and_swap :: "'v \<Rightarrow> 'v \<Rightarrow> 'v \<Rightarrow> bool \<times> 'v" where
  "sync_bool_compare_and_swap m old new = (if m = old then (True, new) else (False, m))"

named_theorems sync_defs \<open>the definitions of the atomic builtins\<close>

declare sync_fetch_and_add_def [sync_defs] sync_add_and_fetch_def [sync_defs]
  sync_lock_test_and_set_def [sync_defs] sync_lock_release_def [sync_defs]
  sync_bool_compare_and_swap_def [sync_defs]

lemma compare_and_swap_success [simp]:
  "fst (sync_bool_compare_and_swap m old new) \<longleftrightarrow> m = old"
  by (simp add: sync_defs)

lemma compare_and_swap_value:
  "snd (sync_bool_compare_and_swap m old new) = (if m = old then new else m)"
  by (simp add: sync_defs)

section \<open>Runs of labelled step functions\<close>

text \<open>
  A concurrent component is a total step function on labels; a label says which thread moves
  and what the environment chose.  A run is a list of labels, so every interleaving is one
  list, and a concrete interleaving can be evaluated.
\<close>

primrec run :: "('l \<Rightarrow> 's \<Rightarrow> 's) \<Rightarrow> 'l list \<Rightarrow> 's \<Rightarrow> 's" where
  "run step [] s = s"
| "run step (l # ls) s = run step ls (step l s)"

lemma run_append [simp]: "run step (ls @ ks) s = run step ks (run step ls s)"
  by (induction ls arbitrary: s) auto

lemma run_invariant:
  assumes step: "\<And>l s. I s \<Longrightarrow> I (step l s)" and init: "I s"
  shows "I (run step ls s)"
  using init by (induction ls arbitrary: s) (auto intro: step)

lemma run_invariant_on:
  assumes step: "\<And>l s. I s \<Longrightarrow> P l \<Longrightarrow> I (step l s)"
    and init: "I s" and labels: "list_all P ls"
  shows "I (run step ls s)"
  using init labels by (induction ls arbitrary: s) (auto intro: step)

section \<open>Program points of a family of threads\<close>

text \<open>Some thread is at one of the given program points.\<close>

definition some_at :: "('t \<Rightarrow> 'p) \<Rightarrow> 'p set \<Rightarrow> bool" where
  "some_at pcs S \<longleftrightarrow> (\<exists>t. pcs t \<in> S)"

lemma some_atI: "pcs t \<in> S \<Longrightarrow> some_at pcs S"
  by (auto simp: some_at_def)

lemma some_at_upd_in [simp]: "v \<in> S \<Longrightarrow> some_at (pcs(t := v)) S"
  by (auto simp: some_at_def)

lemma some_at_upd_out [simp]:
  "pcs t \<notin> S \<Longrightarrow> v \<notin> S \<Longrightarrow> some_at (pcs(t := v)) S \<longleftrightarrow> some_at pcs S"
  by (auto simp: some_at_def)

lemma some_at_updD: "some_at (pcs(t := v)) S \<Longrightarrow> (v \<in> S \<Longrightarrow> pcs t \<in> S) \<Longrightarrow> some_at pcs S"
  by (auto simp: some_at_def split: if_splits)

text \<open>A sum over threads after one of them moved.\<close>

lemma sum_fun_upd:
  fixes g :: "'p \<Rightarrow> int"
  assumes "t < (n :: nat)"
  shows "(\<Sum>u<n. g ((f(t := p)) u)) = (\<Sum>u<n. g (f u)) + g p - g (f t)"
proof -
  have "(\<Sum>u<n. g ((f(t := p)) u)) = g p + (\<Sum>u\<in>{..<n} - {t}. g (f u))"
    using assms by (subst sum.remove [of _ t]) auto
  moreover have "(\<Sum>u<n. g (f u)) = g (f t) + (\<Sum>u\<in>{..<n} - {t}. g (f u))"
    using assms by (subst sum.remove [of _ t]) auto
  ultimately show ?thesis by simp
qed

section \<open>Words\<close>

lemma unat_and_mask:
  assumes "unat m + 1 = 2 ^ k"
  shows "unat (w AND m) = unat (w :: 'a::len word) mod 2 ^ k"
proof -
  have "unat m = 2 ^ k - 1" using assms by simp
  then have "unat (w AND m) = unat w AND mask k"
    by (simp add: unsigned_and_eq mask_eq_exp_minus_1)
  then show ?thesis by (simp add: take_bit_eq_mask [symmetric] take_bit_eq_mod)
qed

lemma sint_add_in_range:
  fixes a b :: "'a::len word"
  assumes "- (2 ^ (LENGTH('a) - 1)) \<le> sint a + sint b" and "sint a + sint b < 2 ^ (LENGTH('a) - 1)"
  shows "sint (a + b) = sint a + sint b"
  unfolding sint_word_add using assms by (rule signed_take_bit_int_eq_self)

lemma sint_of_nat_in_range:
  "n < 2 ^ (LENGTH('a) - 1) \<Longrightarrow> sint (of_nat n :: 'a::len word) = int n"
  by (simp add: signed_of_nat signed_take_bit_int_eq_self order_trans [OF _ of_nat_0_le_iff])

lemma unat_of_nat_small: "n < 2 ^ LENGTH('a) \<Longrightarrow> unat (of_nat n :: 'a::len word) = n"
  by (simp add: unat_of_nat)

lemma eq_of_nat_unat: "unat w = n \<Longrightarrow> w = of_nat n"
  by auto

section \<open>Lists\<close>

lemma mset_remove1_less: "x \<in> set xs \<Longrightarrow> length (remove1 x xs) < length xs"
  by (metis One_nat_def Suc_pred diff_less length_pos_if_in_set length_remove1 lessI)

end
