(* ===== verification/HSpin.thy ===== *)
theory HSpin
  imports HPrelude
begin

text \<open>
  The test-and-set locks of \<open>inc/htypes.hpp\<close>: the inline-assembly spin lock
  (\<open>hspin_lock\<close>, \<open>hspin_trylock\<close>, \<open>hspin_unlock\<close>), and the interface every
  lock word of the library shares (\<open>hspin_t\<close>, the \<open>c\<close> field of a mutex, the
  \<open>jump_lock\<close> of a virtual thread), with mutual exclusion proved once for the interface.
\<close>

section \<open>The interface of a lock word\<close>

text \<open>
  Clients of one lock word: an attempt by a client runs the acquiring instruction once; a
  release is done by a client that holds the lock.  The second component lists the clients
  that are between a successful attempt and their release.
\<close>

datatype 'c lock_event = Attempt 'c | Release 'c

fun lock_event_step ::
  "('w::len word \<Rightarrow> bool \<times> 'w word) \<Rightarrow> ('w word \<Rightarrow> 'w word) \<Rightarrow> 'c lock_event
    \<Rightarrow> 'w word \<times> 'c list \<Rightarrow> 'w word \<times> 'c list" where
  "lock_event_step acq rel (Attempt c) (m, held) =
     (case acq m of (ok, m') \<Rightarrow> (m', if ok then c # held else held))"
| "lock_event_step acq rel (Release c) (m, held) =
     (if c \<in> set held then (rel m, remove1 c held) else (m, held))"

definition exclusive :: "'w::len word \<times> 'c list \<Rightarrow> bool" where
  "exclusive s = (case s of (m, held) \<Rightarrow> (m = 0 \<and> held = []) \<or> (m = 1 \<and> length held = 1))"

locale test_and_set_lock =
  fixes attempt :: "'w::len word \<Rightarrow> bool \<times> 'w word"
    and release :: "'w word \<Rightarrow> 'w word"
  assumes attempt_free: "attempt 0 = (True, 1)"
    and attempt_taken: "attempt 1 = (False, 1)"
    and release_frees: "release m = 0"
begin

lemma event_exclusive:
  "exclusive s \<Longrightarrow> exclusive (lock_event_step attempt release e s)"
  by (cases e; cases s)
    (auto simp: exclusive_def attempt_free attempt_taken release_frees length_Suc_conv)

lemma run_exclusive:
  "exclusive s \<Longrightarrow> exclusive (run (lock_event_step attempt release) es s)"
  by (rule run_invariant [of exclusive]) (auto intro: event_exclusive)

lemma at_most_one_holder:
  assumes "run (lock_event_step attempt release) es (0, []) = (m, held)"
    and "c \<in> set held" and "d \<in> set held"
  shows "c = d"
proof -
  have "exclusive (run (lock_event_step attempt release) es (0, []))"
    by (rule run_exclusive) (simp add: exclusive_def)
  with assms show ?thesis by (auto simp: exclusive_def length_Suc_conv)
qed

lemma free_iff_no_holder:
  assumes "run (lock_event_step attempt release) es (0, []) = (m, held)"
  shows "m = 0 \<longleftrightarrow> held = []"
proof -
  have "exclusive (run (lock_event_step attempt release) es (0, []))"
    by (rule run_exclusive) (simp add: exclusive_def)
  with assms show ?thesis by (auto simp: exclusive_def)
qed

lemma attempt_when_free:
  assumes "run (lock_event_step attempt release) es (0, []) = (m, [])"
  shows "run (lock_event_step attempt release) (es @ [Attempt c]) (0, []) = (1, [c])"
  using assms free_iff_no_holder [OF assms] by (simp add: attempt_free)

end

section \<open>The spin lock\<close>

type_synonym hspin_t = c_uint

text \<open>\<open>xchg reg, mem\<close>: the pair is the new register and the new memory word.\<close>

definition xchg :: "'w::len word \<Rightarrow> 'w word \<Rightarrow> 'w word \<times> 'w word" where
  "xchg reg mem = (mem, reg)"

text \<open>
  The instructions of \<open>hspin_lock\<close>: \<open>Sp_start\<close> is \<open>xor; inc\<close>, \<open>Sp_xchg1\<close> the first
  exchange with its test, \<open>Sp_pause n\<close> the run of \<open>pause\<close> instructions with \<open>n\<close> left,
  \<open>Sp_xchg2\<close> the exchange at the end of the loop with its test, \<open>Sp_end\<close> the label
  \<open>spinend\<close>.
\<close>

datatype spin_pc = Sp_start | Sp_xchg1 | Sp_pause nat | Sp_xchg2 | Sp_end

record spin_thread =
  sp_pc :: spin_pc
  r8d :: c_uint

definition SPIN_PAUSES :: nat where
  "SPIN_PAUSES = 249"

definition spin_call :: spin_thread where
  "spin_call = \<lparr>sp_pc = Sp_start, r8d = 0\<rparr>"

definition hspin_lock_step :: "hspin_t \<times> spin_thread \<Rightarrow> hspin_t \<times> spin_thread" where
  "hspin_lock_step s = (case s of (lock, th) \<Rightarrow>
     (case sp_pc th of
        Sp_start \<Rightarrow> (lock, th\<lparr>r8d := (r8d th XOR r8d th) + 1, sp_pc := Sp_xchg1\<rparr>)
      | Sp_xchg1 \<Rightarrow> (case xchg (r8d th) lock of (r, lock') \<Rightarrow>
          (lock', th\<lparr>r8d := r, sp_pc := (if r = 0 then Sp_end else Sp_pause SPIN_PAUSES)\<rparr>))
      | Sp_pause n \<Rightarrow> (lock, th\<lparr>sp_pc := (if n \<le> 1 then Sp_xchg2 else Sp_pause (n - 1))\<rparr>)
      | Sp_xchg2 \<Rightarrow> (case xchg (r8d th) lock of (r, lock') \<Rightarrow>
          (lock', th\<lparr>r8d := r, sp_pc := (if r \<noteq> 0 then Sp_pause SPIN_PAUSES else Sp_end)\<rparr>))
      | Sp_end \<Rightarrow> (lock, th)))"

text \<open>
  \<open>hspin_trylock\<close> clears \<open>eax\<close> before the exchange and returns the old value; the second
  \<open>return\<close> of the source is never reached.
\<close>

definition hspin_trylock :: "hspin_t \<Rightarrow> bool \<times> hspin_t" where
  "hspin_trylock lock = (case xchg (0 :: c_uint) lock of (old_val, lock') \<Rightarrow> (old_val \<noteq> 0, lock'))"

definition hspin_unlock :: "hspin_t \<Rightarrow> hspin_t" where
  "hspin_unlock lock = 0"

section \<open>Several threads on one spin lock\<close>

text \<open>
  \<open>SpinStep t\<close> runs one instruction of thread \<open>t\<close> inside \<open>hspin_lock\<close>; \<open>SpinUnlock t\<close>
  is a thread that has passed \<open>spinend\<close> calling \<open>hspin_unlock\<close> and entering
  \<open>hspin_lock\<close> again later.
\<close>

datatype spin_event = SpinStep nat | SpinUnlock nat

record spin_sys =
  lock_word :: hspin_t
  spinners :: "nat \<Rightarrow> spin_thread"

fun spin_sys_step :: "spin_event \<Rightarrow> spin_sys \<Rightarrow> spin_sys" where
  "spin_sys_step (SpinStep t) s =
     (case hspin_lock_step (lock_word s, spinners s t) of (lock, th) \<Rightarrow>
        s\<lparr>lock_word := lock, spinners := (spinners s)(t := th)\<rparr>)"
| "spin_sys_step (SpinUnlock t) s =
     (if sp_pc (spinners s t) = Sp_end
      then s\<lparr>lock_word := hspin_unlock (lock_word s), spinners := (spinners s)(t := spin_call)\<rparr>
      else s)"

definition spin_init :: spin_sys where
  "spin_init = \<lparr>lock_word = 0, spinners = (\<lambda>_. spin_call)\<rparr>"

text \<open>
  A thread about to exchange carries 1 in its register: the value it got from a taken lock
  is the 1 the holder stored.  The word is 1 exactly when some thread is past \<open>spinend\<close>.
\<close>

definition spin_inv :: "spin_sys \<Rightarrow> bool" where
  "spin_inv s \<longleftrightarrow>
     (\<forall>t. sp_pc (spinners s t) \<notin> {Sp_start, Sp_end} \<longrightarrow> r8d (spinners s t) = 1) \<and>
     (lock_word s = 0 \<or> lock_word s = 1) \<and>
     (\<forall>t. sp_pc (spinners s t) = Sp_end \<longrightarrow> lock_word s = 1) \<and>
     (lock_word s = 1 \<longrightarrow> (\<exists>t. sp_pc (spinners s t) = Sp_end)) \<and>
     (\<forall>t u. sp_pc (spinners s t) = Sp_end \<longrightarrow> sp_pc (spinners s u) = Sp_end \<longrightarrow> t = u)"

lemma spin_inv_init: "spin_inv spin_init"
  by (simp add: spin_inv_def spin_init_def spin_call_def)

lemma spin_inv_unlock: "spin_inv s \<Longrightarrow> spin_inv (spin_sys_step (SpinUnlock t) s)"
  by (auto simp: spin_inv_def hspin_unlock_def spin_call_def)

lemma spin_inv_lock_step: "spin_inv s \<Longrightarrow> spin_inv (spin_sys_step (SpinStep t) s)"
proof (cases "sp_pc (spinners s t)")
  case Sp_xchg1
  assume inv: "spin_inv s"
  then have "r8d (spinners s t) = 1" using Sp_xchg1 by (auto simp: spin_inv_def)
  with inv Sp_xchg1 show ?thesis
    by (auto simp: spin_inv_def hspin_lock_step_def xchg_def) (metis spin_pc.distinct)+
next
  case Sp_xchg2
  assume inv: "spin_inv s"
  then have "r8d (spinners s t) = 1" using Sp_xchg2 by (auto simp: spin_inv_def)
  with inv Sp_xchg2 show ?thesis
    by (auto simp: spin_inv_def hspin_lock_step_def xchg_def) (metis spin_pc.distinct)+
qed (auto simp: spin_inv_def hspin_lock_step_def, (metis spin_pc.distinct)+)

lemma spin_inv_run: "spin_inv (run spin_sys_step es spin_init)"
proof (rule run_invariant [of spin_inv])
  show "spin_inv (spin_sys_step e s)" if "spin_inv s" for e s
    using that spin_inv_lock_step spin_inv_unlock by (cases e) blast+
qed (rule spin_inv_init)

section \<open>Waiting time of a spinner\<close>

lemma hspin_lock_pauses:
  "sp_pc th = Sp_pause n \<Longrightarrow> 0 < n \<Longrightarrow>
    (hspin_lock_step ^^ n) (lock, th) = (lock, th\<lparr>sp_pc := Sp_xchg2\<rparr>)"
proof (induction n arbitrary: th)
  case (Suc n)
  show ?case
  proof (cases n)
    case 0
    with Suc.prems show ?thesis by (simp add: hspin_lock_step_def)
  next
    case (Suc m)
    let ?th = "th\<lparr>sp_pc := Sp_pause n\<rparr>"
    have "hspin_lock_step (lock, th) = (lock, ?th)"
      using Suc.prems Suc by (simp add: hspin_lock_step_def)
    moreover have "(hspin_lock_step ^^ n) (lock, ?th) = (lock, th\<lparr>sp_pc := Sp_xchg2\<rparr>)"
      using Suc.IH [of ?th] Suc by simp
    ultimately show ?thesis by (simp add: funpow_Suc_right del: funpow.simps)
  qed
qed simp

lemma hspin_lock_round:
  assumes "sp_pc th = Sp_pause n" and "0 < n" and "r8d th = 1"
  shows "(hspin_lock_step ^^ Suc n) (0, th) = (1, \<lparr>sp_pc = Sp_end, r8d = 0, \<dots> = spin_thread.more th\<rparr>)"
  using hspin_lock_pauses [OF assms(1,2), of 0] assms(3)
  by (simp add: hspin_lock_step_def xchg_def)

section \<open>Interpretation of the interface\<close>

text \<open>One attempt of \<open>hspin_lock\<close> with 1 in the register, and \<open>hspin_unlock\<close>.\<close>

definition hspin_attempt :: "hspin_t \<Rightarrow> bool \<times> hspin_t" where
  "hspin_attempt lock = (case xchg (1 :: c_uint) lock of (r, lock') \<Rightarrow> (r = 0, lock'))"

interpretation hspin: test_and_set_lock hspin_attempt hspin_unlock
  by unfold_locales (auto simp: hspin_attempt_def hspin_unlock_def xchg_def)

section \<open>Properties\<close>

text \<open>
  C26. Mutual exclusion of the spin lock: after any interleaving of the instructions of any
  number of threads, started on a free lock, at most one thread is past \<open>spinend\<close>, and the
  lock word is 1 exactly while one is.
\<close>

theorem hspin_mutual_exclusion:
  fixes es :: "spin_event list"
  defines "s \<equiv> run spin_sys_step es spin_init"
  shows "(lock_word s = 1 \<longleftrightarrow> (\<exists>t. sp_pc (spinners s t) = Sp_end)) \<and>
     (lock_word s = 0 \<longleftrightarrow> (\<nexists>t. sp_pc (spinners s t) = Sp_end)) \<and>
     (\<exists>\<^sub>\<le>\<^sub>1 t. sp_pc (spinners s t) = Sp_end)"
proof -
  have "spin_inv s" unfolding s_def by (rule spin_inv_run)
  then show ?thesis by (auto simp: spin_inv_def Uniq_def)
qed

text \<open>
  A spinner does not miss a release: from any point inside the pause loop, as soon as the
  lock is free and no other thread takes it, the thread holds the lock after the pauses that
  are left and one exchange, at most 250 instructions later.
\<close>

theorem hspin_lock_acquires:
  assumes "sp_pc th = Sp_pause n" and "0 < n" and "n \<le> SPIN_PAUSES" and "r8d th = 1"
  shows "\<exists>k \<le> 250. fst ((hspin_lock_step ^^ k) (0, th)) = 1 \<and>
     sp_pc (snd ((hspin_lock_step ^^ k) (0, th))) = Sp_end"
proof (intro exI conjI)
  show "Suc n \<le> 250" using assms(3) by (simp add: SPIN_PAUSES_def)
qed (simp_all only: hspin_lock_round [OF assms(1,2,4)] fst_conv snd_conv spin_thread.simps)

theorem hspin_lock_acquires_witness:
  "\<exists>k \<le> 250. fst ((hspin_lock_step ^^ k) (0, \<lparr>sp_pc = Sp_pause 249, r8d = 1\<rparr>)) = 1 \<and>
     sp_pc (snd ((hspin_lock_step ^^ k) (0, \<lparr>sp_pc = Sp_pause 249, r8d = 1\<rparr>))) = Sp_end"
  by (rule hspin_lock_acquires [where n = 249]) (simp_all add: SPIN_PAUSES_def)

text \<open>
  \<open>hspin_trylock\<close> never acquires: whatever the word was, it is free afterwards, and the
  call reports success exactly when the lock was taken by somebody else.
\<close>

theorem hspin_trylock_releases:
  "hspin_trylock lock = (lock \<noteq> 0, 0) \<and>
   (lock \<noteq> 0 \<longleftrightarrow> fst (hspin_trylock lock)) \<and>
   hspin_attempt (snd (hspin_trylock lock)) = (True, 1)"
  by (simp add: hspin_trylock_def hspin_attempt_def xchg_def)

end
