(* ===== verification/HFutex.thy ===== *)
theory HFutex
  imports HPrelude
begin

text \<open>
  Futex based synchronisation: the binary semaphore \<open>hthread_bin_sema_t\<close> of
  \<open>inc/htypes.hpp\<close> (kernel threads block on it in \<open>join\<close> and in the blocking mutex), the
  atomic assembly helpers \<open>h_add_and_fetch\<close> and \<open>h_fetch_and_add\<close> and the counting
  semaphore \<open>hsem_wait\<close>/\<open>hsem_post\<close> of \<open>inc/hutil.h\<close>.  The kernel side of a futex is its
  documented behaviour: \<open>FUTEX_WAIT\<close> compares and goes to sleep in one step, \<open>FUTEX_WAKE\<close>
  wakes one sleeper, chosen by the kernel.
\<close>

section \<open>Atomic helpers\<close>

text \<open>
  \<open>movl eax, ecx; lock xaddl eax, mem; addl ecx, eax\<close>: the result register and the word.
\<close>

definition h_add_and_fetch :: "c_uint \<Rightarrow> c_uint \<Rightarrow> c_uint \<times> c_uint" where
  "h_add_and_fetch mem op2 =
     (let eax = op2; ecx = eax;
          (eax, mem) = (mem, mem + eax);
          eax = eax + ecx
      in (eax, mem))"

definition h_fetch_and_add :: "c_uint \<Rightarrow> c_uint \<Rightarrow> c_uint \<times> c_uint" where
  "h_fetch_and_add mem op2 = (let eax = op2; (eax, mem) = (mem, mem + eax) in (eax, mem))"

lemma h_add_and_fetch_eq [simp]: "h_add_and_fetch mem op2 = (mem + op2, mem + op2)"
  by (simp add: h_add_and_fetch_def)

lemma h_fetch_and_add_eq [simp]: "h_fetch_and_add mem op2 = (mem, mem + op2)"
  by (simp add: h_fetch_and_add_def)

section \<open>Kernel wait queues\<close>

text \<open>\<open>FUTEX_WAKE\<close> with count 1: the kernel picks a sleeper, here by an index it chooses.\<close>

definition wake_one :: "nat \<Rightarrow> 'a list \<Rightarrow> 'a option \<times> 'a list" where
  "wake_one i xs =
     (if xs = [] then (None, [])
      else let x = xs ! (i mod length xs) in (Some x, remove1 x xs))"

lemma wake_one_Some:
  "wake_one i xs = (Some x, ys) \<Longrightarrow> x \<in> set xs \<and> ys = remove1 x xs"
  by (auto simp: wake_one_def Let_def split: if_splits)

lemma wake_one_None: "wake_one i xs = (None, ys) \<Longrightarrow> xs = [] \<and> ys = []"
  by (auto simp: wake_one_def Let_def split: if_splits)

section \<open>The binary semaphore\<close>

text \<open>
  Program points of \<open>wait\<close> (\<open>W_cas\<close> the compare-and-swap, \<open>W_futex\<close> the system call,
  \<open>W_sleep\<close> asleep in it) and of \<open>post\<close> (\<open>P_cas\<close>, \<open>P_wake\<close>).  \<open>passed\<close> and
  \<open>posted\<close> count returns from \<open>wait\<close> and effective posts; the code does not have them.
\<close>

datatype sema_pc = S_idle | W_cas | W_futex | W_sleep | P_cas | P_wake

record bin_sema =
  fut :: c_uint
  sleepers :: "nat list"
  sema_pcs :: "nat \<Rightarrow> sema_pc"
  exited :: bool
  passed :: nat
  posted :: nat

definition hthread_bin_sema_t :: "c_uint \<Rightarrow> bin_sema" where
  "hthread_bin_sema_t init_val =
     \<lparr>fut = init_val, sleepers = [], sema_pcs = (\<lambda>_. S_idle), exited = False,
      passed = 0, posted = 0\<rparr>"

abbreviation sema_goto :: "nat \<Rightarrow> sema_pc \<Rightarrow> bin_sema \<Rightarrow> bin_sema" where
  "sema_goto t pc s \<equiv> s\<lparr>sema_pcs := (sema_pcs s)(t := pc)\<rparr>"

definition sema_wait_step :: "nat \<Rightarrow> bin_sema \<Rightarrow> bin_sema" where
  "sema_wait_step t s =
     (case sema_pcs s t of
        W_cas \<Rightarrow> (case sync_bool_compare_and_swap (fut s) 1 0 of (ok, fut') \<Rightarrow>
          if ok then sema_goto t S_idle (s\<lparr>fut := fut', passed := Suc (passed s)\<rparr>)
          else sema_goto t W_futex s)
      | W_futex \<Rightarrow>
          if fut s = 0 then sema_goto t W_sleep (s\<lparr>sleepers := sleepers s @ [t]\<rparr>)
          else sema_goto t W_cas s
      | _ \<Rightarrow> s)"

definition sema_post_step :: "nat \<Rightarrow> nat \<Rightarrow> bin_sema \<Rightarrow> bin_sema" where
  "sema_post_step t i s =
     (case sema_pcs s t of
        P_cas \<Rightarrow> (case sync_bool_compare_and_swap (fut s) 0 1 of (ok, fut') \<Rightarrow>
          if ok then sema_goto t P_wake (s\<lparr>fut := fut', posted := Suc (posted s)\<rparr>)
          else sema_goto t S_idle s)
      | P_wake \<Rightarrow> (case wake_one i (sleepers s) of
            (None, _) \<Rightarrow> sema_goto t S_idle s
          | (Some u, rest) \<Rightarrow> sema_goto t S_idle (sema_goto u W_cas (s\<lparr>sleepers := rest\<rparr>)))
      | _ \<Rightarrow> s)"

text \<open>
  \<open>SemaFutexFails t\<close>: the system call of thread \<open>t\<close> returns -1 with an error other than
  \<open>EAGAIN\<close>, on which both operations call \<open>exit(EXIT_FAILURE)\<close>.
\<close>

datatype sema_event = SemaWait nat | SemaPost nat | SemaStep nat nat | SemaFutexFails nat

fun bin_sema_step :: "sema_event \<Rightarrow> bin_sema \<Rightarrow> bin_sema" where
  "bin_sema_step e s =
     (if exited s then s
      else case e of
        SemaWait t \<Rightarrow> if sema_pcs s t = S_idle then sema_goto t W_cas s else s
      | SemaPost t \<Rightarrow> if sema_pcs s t = S_idle then sema_goto t P_cas s else s
      | SemaStep t i \<Rightarrow>
          if sema_pcs s t \<in> {W_cas, W_futex, W_sleep} then sema_wait_step t s
          else sema_post_step t i s
      | SemaFutexFails t \<Rightarrow>
          if sema_pcs s t \<in> {W_futex, W_sleep, P_wake} then s\<lparr>exited := True\<rparr> else s)"

declare bin_sema_step.simps [simp del]

definition sema_inv :: "nat \<Rightarrow> bin_sema \<Rightarrow> bool" where
  "sema_inv n s \<longleftrightarrow>
     (fut s = 0 \<or> fut s = 1) \<and>
     distinct (sleepers s) \<and> (\<forall>t. t \<in> set (sleepers s) \<longleftrightarrow> sema_pcs s t = W_sleep) \<and>
     (fut s = 1 \<and> sleepers s \<noteq> [] \<longrightarrow> some_at (sema_pcs s) {W_cas, P_wake}) \<and>
     unat (fut s) + passed s = n + posted s"

lemma sema_inv_init:
  "v = 0 \<or> v = 1 \<Longrightarrow> sema_inv (unat v) (hthread_bin_sema_t v)"
  by (auto simp: sema_inv_def hthread_bin_sema_t_def)

lemma sema_inv_wait_step: "sema_inv n s \<Longrightarrow> sema_inv n (sema_wait_step t s)"
  by (cases "sema_pcs s t")
    (auto simp: sema_inv_def sema_wait_step_def sync_defs)

lemma sema_inv_post_step:
  assumes inv: "sema_inv n s" shows "sema_inv n (sema_post_step t i s)"
proof (cases "sema_pcs s t = P_wake")
  case True
  show ?thesis
  proof (cases "wake_one i (sleepers s)")
    case (Pair w rest)
    show ?thesis
    proof (cases w)
      case None
      with Pair have "sleepers s = []" using wake_one_None by metis
      with Pair None True inv show ?thesis by (auto simp: sema_inv_def sema_post_step_def)
    next
      case (Some u)
      with Pair have u: "u \<in> set (sleepers s)" "rest = remove1 u (sleepers s)"
        using wake_one_Some by metis+
      have "u \<noteq> t" using inv u(1) True by (auto simp: sema_inv_def)
      then have "some_at ((sema_pcs s)(u := W_cas, t := S_idle)) {W_cas, P_wake}"
        by (intro some_atI [of _ u]) simp
      with \<open>u \<noteq> t\<close> Pair Some True inv u show ?thesis
        by (auto simp: sema_inv_def sema_post_step_def)
    qed
  qed
next
  case False
  with inv show ?thesis
    by (cases "sema_pcs s t") (auto simp: sema_inv_def sema_post_step_def sync_defs)
qed

lemma sema_inv_step: "sema_inv n s \<Longrightarrow> sema_inv n (bin_sema_step e s)"
proof (cases e)
  case (SemaStep t i)
  then show "sema_inv n s \<Longrightarrow> ?thesis"
    using sema_inv_wait_step sema_inv_post_step by (simp add: bin_sema_step.simps)
next
  case (SemaWait t)
  then show "sema_inv n s \<Longrightarrow> ?thesis"
    by (auto simp: sema_inv_def bin_sema_step.simps)
next
  case (SemaPost t)
  then show "sema_inv n s \<Longrightarrow> ?thesis"
    by (auto simp: sema_inv_def bin_sema_step.simps)
next
  case (SemaFutexFails t)
  then show "sema_inv n s \<Longrightarrow> ?thesis"
    by (auto simp: sema_inv_def bin_sema_step.simps)
qed

lemma sema_inv_run:
  assumes "v = 0 \<or> v = 1"
  shows "sema_inv (unat v) (run bin_sema_step es (hthread_bin_sema_t v))"
  by (rule run_invariant [of "sema_inv (unat v)"]) (rule sema_inv_step, assumption, rule sema_inv_init [OF assms])

section \<open>The counting semaphore of \<open>hutil.h\<close>\<close>

text \<open>
  \<open>hsem_wait\<close>: \<open>H_dec\<close> the decrement, \<open>H_futex v\<close> the system call with expected value
  \<open>v\<close>, \<open>H_load\<close> the reload of \<open>*p\<close> after \<open>EAGAIN\<close>, \<open>H_sleep\<close> asleep.
  \<open>hsem_post\<close>: \<open>H_inc\<close>, \<open>H_wake\<close>; the code after its \<open>return\<close> is never reached.
\<close>

datatype hsem_pc = H_idle | H_dec | H_futex c_uint | H_load | H_sleep | H_inc | H_wake

record hsem =
  hval :: c_uint
  hsleepers :: "nat list"
  hsem_pcs :: "nat \<Rightarrow> hsem_pc"
  waits_begun :: nat
  waits_done :: nat
  posts_done :: nat

abbreviation hsem_goto :: "nat \<Rightarrow> hsem_pc \<Rightarrow> hsem \<Rightarrow> hsem" where
  "hsem_goto t pc s \<equiv> s\<lparr>hsem_pcs := (hsem_pcs s)(t := pc)\<rparr>"

definition hsem_wait_step :: "nat \<Rightarrow> hsem \<Rightarrow> hsem" where
  "hsem_wait_step t s =
     (case hsem_pcs s t of
        H_dec \<Rightarrow> (case h_add_and_fetch (hval s) (-1) of (new_val, v) \<Rightarrow>
          let s = s\<lparr>hval := v, waits_begun := Suc (waits_begun s)\<rparr> in
          if sint new_val < 0 then hsem_goto t (H_futex new_val) s
          else hsem_goto t H_idle (s\<lparr>waits_done := Suc (waits_done s)\<rparr>))
      | H_futex new_val \<Rightarrow>
          if hval s = new_val then hsem_goto t H_sleep (s\<lparr>hsleepers := hsleepers s @ [t]\<rparr>)
          else hsem_goto t H_load s
      | H_load \<Rightarrow> hsem_goto t (H_futex (hval s)) s
      | _ \<Rightarrow> s)"

definition hsem_post_step :: "nat \<Rightarrow> nat \<Rightarrow> hsem \<Rightarrow> hsem" where
  "hsem_post_step t i s =
     (case hsem_pcs s t of
        H_inc \<Rightarrow> (case h_fetch_and_add (hval s) 1 of (_, v) \<Rightarrow>
          hsem_goto t H_wake (s\<lparr>hval := v\<rparr>))
      | H_wake \<Rightarrow>
          let s = s\<lparr>posts_done := Suc (posts_done s)\<rparr> in
          (case wake_one i (hsleepers s) of
             (None, _) \<Rightarrow> hsem_goto t H_idle s
           | (Some u, rest) \<Rightarrow> hsem_goto t H_idle (hsem_goto u H_idle
               (s\<lparr>hsleepers := rest, waits_done := Suc (waits_done s)\<rparr>)))
      | _ \<Rightarrow> s)"

datatype hsem_event = HsemWait nat | HsemPost nat | HsemStep nat nat

fun hsem_step :: "hsem_event \<Rightarrow> hsem \<Rightarrow> hsem" where
  "hsem_step (HsemWait t) s = (if hsem_pcs s t = H_idle then hsem_goto t H_dec s else s)"
| "hsem_step (HsemPost t) s = (if hsem_pcs s t = H_idle then hsem_goto t H_inc s else s)"
| "hsem_step (HsemStep t i) s =
     (if hsem_pcs s t \<in> {H_inc, H_wake} then hsem_post_step t i s else hsem_wait_step t s)"

definition hsem_init :: "c_uint \<Rightarrow> hsem" where
  "hsem_init v = \<lparr>hval = v, hsleepers = [], hsem_pcs = (\<lambda>_. H_idle),
     waits_begun = 0, waits_done = 0, posts_done = 0\<rparr>"

section \<open>Properties\<close>

text \<open>
  The binary semaphore hands out no more than it got: whatever the interleaving of waits,
  posts and futex failures, its word is 0 or 1, and the returns from \<open>wait\<close> plus the word
  equal the initial value plus the effective posts.
\<close>

theorem bin_sema_conserves_tokens:
  assumes "v = 0 \<or> v = 1"
  shows "let s = run bin_sema_step es (hthread_bin_sema_t v) in
     unat (fut s) \<le> 1 \<and> unat (fut s) + passed s = unat v + posted s"
  using sema_inv_run [OF assms, of es] by (auto simp: sema_inv_def Let_def)

theorem bin_sema_conserves_tokens_witness:
  "let s = run bin_sema_step [SemaPost 0, SemaStep 0 0, SemaWait 1, SemaStep 1 0]
       (hthread_bin_sema_t 0) in
     unat (fut s) \<le> 1 \<and> unat (fut s) + passed s = unat (0 :: c_uint) + posted s"
  by (rule bin_sema_conserves_tokens) simp

text \<open>
  C28. No lost wake-up: while the word is 1 and a thread sleeps in \<open>wait\<close>, some thread is
  still to run the compare-and-swap of \<open>wait\<close> or the \<open>FUTEX_WAKE\<close> of \<open>post\<close>; so a token
  is never left behind with every thread asleep or gone.
\<close>

theorem bin_sema_no_lost_wakeup:
  assumes "v = 0 \<or> v = 1"
  shows "let s = run bin_sema_step es (hthread_bin_sema_t v) in
     fut s = 1 \<longrightarrow> (\<exists>t. sema_pcs s t = W_sleep) \<longrightarrow>
     (\<exists>t. sema_pcs s t = W_cas \<or> sema_pcs s t = P_wake)"
  using sema_inv_run [OF assms, of es] by (auto simp: sema_inv_def some_at_def Let_def)

theorem bin_sema_no_lost_wakeup_witness:
  "let s = run bin_sema_step
       [SemaWait 1, SemaStep 1 0, SemaStep 1 0, SemaPost 0, SemaStep 0 0] (hthread_bin_sema_t 0) in
     fut s = 1 \<and> sema_pcs s 1 = W_sleep \<and> (\<exists>t. sema_pcs s t = W_cas \<or> sema_pcs s t = P_wake)"
proof -
  let ?es = "[SemaWait 1, SemaStep 1 0, SemaStep 1 0, SemaPost 0, SemaStep 0 0]"
  let ?s = "run bin_sema_step ?es (hthread_bin_sema_t 0)"
  have state: "fut ?s = 1" "sema_pcs ?s 1 = W_sleep"
    by (simp_all add: bin_sema_step.simps sema_wait_step_def sema_post_step_def sync_defs
        hthread_bin_sema_t_def)
  then show ?thesis using bin_sema_no_lost_wakeup [of 0 ?es] by (auto simp: Let_def)
qed


end
