(* ===== verification/VNode.thy ===== *)
theory VNode
  imports HPrelude
begin

text \<open>
  The intrusive wait list \<open>typed_node<T>\<close> of \<open>inc/htypes.hpp\<close>.  A node is embedded in its
  virtual thread (\<open>thisnode\<close>), so a node is named by the number of its thread; the store maps
  a node to its \<open>next\<close> field, \<^const>\<open>None\<close> being the null pointer.  \<open>enqueue\<close> and
  \<open>dequeue\<close> run under a lock; \<open>safe_enqueue\<close> and \<open>safe_dequeue\<close> are compare-and-swap loops
  run by several threads at once.
\<close>

type_synonym node = nat
type_synonym next_store = "node \<Rightarrow> node option"

section \<open>Sequential operations\<close>

definition node_enqueue :: "node \<Rightarrow> next_store \<times> node option \<Rightarrow> next_store \<times> node option" where
  "node_enqueue pnew_node s = (case s of (nx, head) \<Rightarrow>
     (let prev_head = head; head = Some pnew_node; nx = nx(pnew_node := prev_head) in (nx, head)))"

definition node_dequeue :: "next_store \<times> node option \<Rightarrow> node option \<times> next_store \<times> node option" where
  "node_dequeue s = (case s of (nx, head) \<Rightarrow>
     (case head of
        None \<Rightarrow> (None, nx, head)
      | Some cur_head \<Rightarrow>
          (let head = nx cur_head; nx = nx(cur_head := None) in (Some cur_head, nx, head))))"

text \<open>The nodes reached from a pointer, in order.\<close>

fun chain :: "next_store \<Rightarrow> node option \<Rightarrow> node list \<Rightarrow> bool" where
  "chain nx p [] \<longleftrightarrow> p = None"
| "chain nx p (x # xs) \<longleftrightarrow> p = Some x \<and> chain nx (nx x) xs"

lemma chain_upd [simp]: "n \<notin> set xs \<Longrightarrow> chain (nx(n := p)) q xs \<longleftrightarrow> chain nx q xs"
  by (induction xs arbitrary: q) auto

lemma chain_unique: "chain nx p xs \<Longrightarrow> chain nx p ys \<Longrightarrow> xs = ys"
proof (induction xs arbitrary: p ys)
  case Nil
  then show ?case by (cases ys) auto
next
  case (Cons x xs)
  then show ?case by (cases ys) auto
qed

lemma chain_distinct: "chain nx p xs \<Longrightarrow> distinct xs"
proof (induction xs arbitrary: p)
  case (Cons x xs)
  have "x \<notin> set xs"
  proof
    assume "x \<in> set xs"
    then obtain as bs where xs: "xs = as @ x # bs" by (meson split_list)
    have split: "chain nx q (as @ x # bs) \<Longrightarrow> chain nx (Some x) (x # bs)" for q
      by (induction as arbitrary: q) auto
    from Cons.prems xs have "chain nx (Some x) (x # bs)" using split by auto
    moreover have "chain nx (Some x) (x # xs)" using Cons.prems by simp
    ultimately have "x # bs = x # xs" by (rule chain_unique)
    then have "length bs = length (as @ x # bs)" using xs by simp
    then show False by simp
  qed
  with Cons show ?case by auto
qed simp

lemma node_enqueue_chain:
  assumes "chain nx head xs" and "n \<notin> set xs"
  shows "case node_enqueue n (nx, head) of (nx', head') \<Rightarrow> chain nx' head' (n # xs)"
  using assms by (simp add: node_enqueue_def)

lemma node_dequeue_chain:
  assumes "chain nx head (x # xs)"
  shows "\<exists>nx' head'. node_dequeue (nx, head) = (Some x, nx', head') \<and> chain nx' head' xs \<and> nx' x = None"
  using assms chain_distinct [OF assms] by (auto simp: node_dequeue_def)

lemma node_dequeue_empty: "chain nx head [] \<Longrightarrow> node_dequeue (nx, head) = (None, nx, head)"
  by (simp add: node_dequeue_def)

section \<open>The interface of a wait list\<close>

text \<open>
  What \<open>join\<close> and the blocking mutex rely on: a node that is not in the list can be put at
  its front, and taking a node gives the front one.
\<close>

text \<open>Taking nodes until the list is empty, with at most \<open>k\<close> calls.\<close>

fun drain :: "('q \<Rightarrow> 'n option \<times> 'q) \<Rightarrow> nat \<Rightarrow> 'q \<Rightarrow> 'n list \<times> 'q" where
  "drain pop 0 q = ([], q)"
| "drain pop (Suc k) q =
     (case pop q of
        (None, q') \<Rightarrow> ([], q')
      | (Some x, q') \<Rightarrow> (case drain pop k q' of (xs, q'') \<Rightarrow> (x # xs, q'')))"

locale wait_list =
  fixes push :: "'n \<Rightarrow> 'q \<Rightarrow> 'q"
    and pop :: "'q \<Rightarrow> 'n option \<times> 'q"
    and contents :: "'q \<Rightarrow> 'n list \<Rightarrow> bool"
  assumes push_contents: "contents q xs \<Longrightarrow> n \<notin> set xs \<Longrightarrow> contents (push n q) (n # xs)"
    and pop_front: "contents q (x # xs) \<Longrightarrow> \<exists>q'. pop q = (Some x, q') \<and> contents q' xs"
    and pop_empty: "contents q [] \<Longrightarrow> fst (pop q) = None"
begin

lemma drain_contents:
  "contents q xs \<Longrightarrow> length xs < k \<Longrightarrow> fst (drain pop k q) = xs"
proof (induction xs arbitrary: q k)
  case Nil
  then show ?case using pop_empty [OF Nil.prems(1)] by (cases k) (auto split: prod.splits)
next
  case (Cons x xs)
  obtain q' where "pop q = (Some x, q')" "contents q' xs"
    using pop_front [OF Cons.prems(1)] by blast
  with Cons.prems Cons.IH [of q' "k - 1"] show ?case by (cases k) (auto split: prod.splits)
qed

end

interpretation vnode: wait_list node_enqueue node_dequeue "\<lambda>(nx, head). chain nx head"
proof unfold_locales
  fix q :: "next_store \<times> node option" and x and xs :: "node list"
  assume "(case q of (nx, head) \<Rightarrow> chain nx head) (x # xs)"
  then show "\<exists>q'. node_dequeue q = (Some x, q') \<and> (case q' of (nx, head) \<Rightarrow> chain nx head) xs"
    using node_dequeue_chain by (cases q) fastforce
qed (auto simp: node_enqueue_def node_dequeue_def split: prod.splits option.splits)

section \<open>Concurrent operations\<close>

text \<open>
  Program points of \<open>safe_enqueue\<close> (load the head, link the node, compare and swap) and of
  \<open>safe_dequeue\<close> (test the head, load it again, load its \<open>next\<close>, compare and swap, clear
  \<open>next\<close>); the argument of a point holds the local variables.  A thread enqueues its own
  node.  Reading \<open>next\<close> through a null pointer is \<open>N_fault\<close>.
\<close>

datatype node_pc =
    N_idle
  | E_load | E_link "node option" | E_cas "node option" | N_pushed
  | D_test | D_load | D_next "node option" | D_cas node "node option" | D_clear node
  | N_got "node option" | N_fault

record node_sys =
  nexts :: next_store
  phead :: "node option"
  node_pcs :: "nat \<Rightarrow> node_pc"

abbreviation node_goto :: "nat \<Rightarrow> node_pc \<Rightarrow> node_sys \<Rightarrow> node_sys" where
  "node_goto t pc s \<equiv> s\<lparr>node_pcs := (node_pcs s)(t := pc)\<rparr>"

definition safe_enqueue_step :: "nat \<Rightarrow> node_sys \<Rightarrow> node_sys" where
  "safe_enqueue_step t s =
     (case node_pcs s t of
        E_load \<Rightarrow> node_goto t (E_link (phead s)) s
      | E_link old_head \<Rightarrow> node_goto t (E_cas old_head) (s\<lparr>nexts := (nexts s)(t := old_head)\<rparr>)
      | E_cas old_head \<Rightarrow> (case sync_bool_compare_and_swap (phead s) old_head (Some t) of (ok, h) \<Rightarrow>
          node_goto t (if ok then N_pushed else E_load) (s\<lparr>phead := h\<rparr>))
      | _ \<Rightarrow> s)"

definition safe_dequeue_step :: "nat \<Rightarrow> node_sys \<Rightarrow> node_sys" where
  "safe_dequeue_step t s =
     (case node_pcs s t of
        D_test \<Rightarrow> node_goto t (if phead s = None then N_got None else D_load) s
      | D_load \<Rightarrow> node_goto t (D_next (phead s)) s
      | D_next None \<Rightarrow> node_goto t N_fault s
      | D_next (Some cur_head) \<Rightarrow> node_goto t (D_cas cur_head (nexts s cur_head)) s
      | D_cas cur_head new_head \<Rightarrow>
          (case sync_bool_compare_and_swap (phead s) (Some cur_head) new_head of (ok, h) \<Rightarrow>
             node_goto t (if ok then D_clear cur_head else D_test) (s\<lparr>phead := h\<rparr>))
      | D_clear cur_head \<Rightarrow>
          node_goto t (N_got (Some cur_head)) (s\<lparr>nexts := (nexts s)(cur_head := None)\<rparr>)
      | _ \<Rightarrow> s)"

text \<open>
  \<open>NPush t\<close> and \<open>NPop t\<close> call the operations, \<open>NStep t\<close> runs one step of the call, and
  \<open>NWake t\<close> lets the thread whose node \<open>t\<close> has taken out run again.
\<close>

datatype node_event = NPush nat | NPop nat | NStep nat | NWake nat

fun node_step :: "node_event \<Rightarrow> node_sys \<Rightarrow> node_sys" where
  "node_step (NPush t) s =
     (case node_pcs s t of N_idle \<Rightarrow> node_goto t E_load s | N_got _ \<Rightarrow> node_goto t E_load s | _ \<Rightarrow> s)"
| "node_step (NPop t) s =
     (case node_pcs s t of N_idle \<Rightarrow> node_goto t D_test s | N_got _ \<Rightarrow> node_goto t D_test s | _ \<Rightarrow> s)"
| "node_step (NStep t) s = safe_enqueue_step t (safe_dequeue_step t s)"
| "node_step (NWake t) s =
     (case node_pcs s t of N_got (Some u) \<Rightarrow> node_goto t N_idle (node_goto u N_idle s) | _ \<Rightarrow> s)"

definition node_sys_init :: node_sys where
  "node_sys_init = \<lparr>nexts = (\<lambda>_. None), phead = None, node_pcs = (\<lambda>_. N_idle)\<rparr>"

text \<open>While only enqueues run, the list holds exactly the nodes whose enqueue has finished.\<close>

fun is_pop :: "node_event \<Rightarrow> bool" where
  "is_pop (NPop _) = True"
| "is_pop (NWake _) = True"
| "is_pop _ = False"

definition enqueuing :: "node_pc \<Rightarrow> bool" where
  "enqueuing pc = (case pc of N_idle \<Rightarrow> True | E_load \<Rightarrow> True | E_link _ \<Rightarrow> True | E_cas _ \<Rightarrow> True
     | N_pushed \<Rightarrow> True | _ \<Rightarrow> False)"

definition push_inv :: "node_sys \<Rightarrow> bool" where
  "push_inv s \<longleftrightarrow>
     (\<forall>t. enqueuing (node_pcs s t)) \<and>
     (\<forall>t p. node_pcs s t = E_cas p \<longrightarrow> nexts s t = p) \<and>
     (\<exists>xs. chain (nexts s) (phead s) xs \<and> set xs = {t. node_pcs s t = N_pushed})"

lemma push_inv_init: "push_inv node_sys_init"
  by (auto simp: push_inv_def node_sys_init_def enqueuing_def intro: exI [of _ "[]"])

lemma push_inv_enqueue_step:
  assumes inv: "push_inv s" shows "push_inv (safe_enqueue_step t s)"
proof -
  obtain xs where xs: "chain (nexts s) (phead s) xs" "set xs = {t. node_pcs s t = N_pushed}"
    using inv by (auto simp: push_inv_def)
  show ?thesis
  proof (cases "node_pcs s t")
    case (E_cas p)
    show ?thesis
    proof (cases "phead s = p")
      case True
      then have "chain (nexts s) (Some t) (t # xs)"
        using inv E_cas xs by (auto simp: push_inv_def)
      moreover have "set (t # xs) = {u. node_pcs s u = N_pushed \<or> u = t}" using xs by auto
      ultimately show ?thesis
        using True E_cas inv xs
        by (auto simp: push_inv_def safe_enqueue_step_def sync_defs enqueuing_def
            intro!: exI [of _ "t # xs"])
    next
      case False
      with E_cas inv xs show ?thesis
        by (auto simp: push_inv_def safe_enqueue_step_def sync_defs enqueuing_def
            intro!: exI [of _ xs])
    qed
  qed (use inv xs in \<open>auto simp: push_inv_def safe_enqueue_step_def enqueuing_def
      intro!: exI [of _ xs]\<close>)
qed

lemma push_inv_step:
  assumes inv: "push_inv s" and "\<not> is_pop e" shows "push_inv (node_step e s)"
proof (cases e)
  case (NPush t)
  have "enqueuing (node_pcs s t)" using inv by (simp add: push_inv_def)
  with NPush inv show ?thesis
    by (auto simp: push_inv_def enqueuing_def split: node_pc.splits)
next
  case (NStep t)
  have "enqueuing (node_pcs s t)" using inv by (simp add: push_inv_def)
  then have "safe_dequeue_step t s = s"
    by (cases "node_pcs s t") (auto simp: enqueuing_def safe_dequeue_step_def)
  with NStep push_inv_enqueue_step [OF inv] show ?thesis by simp
qed (use assms in auto)

lemma chain_fold_enqueue:
  "chain nx head xs \<Longrightarrow> distinct (ns @ xs) \<Longrightarrow>
    case fold node_enqueue ns (nx, head) of (nx', head') \<Rightarrow> chain nx' head' (rev ns @ xs)"
proof (induction ns arbitrary: nx head xs)
  case (Cons n ns)
  obtain nx1 head1 where step: "node_enqueue n (nx, head) = (nx1, head1)" by fastforce
  have "chain nx1 head1 (n # xs)" using node_enqueue_chain [OF Cons.prems(1), of n] Cons.prems(2) step by auto
  from Cons.IH [OF this] Cons.prems(2) step show ?case by simp
qed simp

section \<open>Properties\<close>

text \<open>
  The wait list is a stack, as its comment says: distinct nodes enqueued on an empty list
  come back in reverse order, each exactly once, and then the list is empty.
\<close>

theorem wait_list_is_stack:
  assumes "distinct ns"
  shows "fst (drain node_dequeue (Suc (length ns)) (fold node_enqueue ns (nx, None))) = rev ns"
proof -
  have "case fold node_enqueue ns (nx, None) of (nx', head') \<Rightarrow> chain nx' head' (rev ns)"
    using chain_fold_enqueue [of nx None "[]" ns] assms by simp
  then have "(case fold node_enqueue ns (nx, None) of (nx', head') \<Rightarrow> chain nx' head') (rev ns)"
    by (simp add: case_prod_beta)
  then show ?thesis by (rule vnode.drain_contents) simp
qed

theorem wait_list_is_stack_witness:
  "fst (drain node_dequeue (Suc (length [3, 1, 2])) (fold node_enqueue [3, 1, 2] (\<lambda>_. None, None))) = [2, 1, 3]"
  using wait_list_is_stack [of "[3, 1, 2]" "\<lambda>_. None"] by simp

text \<open>
  C27. Concurrent \<open>safe_enqueue\<close> calls are linearizable: however the compare-and-swap loops of
  any number of threads interleave, the list is well formed and holds exactly the nodes whose
  call has returned, each once.
\<close>

theorem safe_enqueue_linearizable:
  assumes "list_all (\<lambda>e. \<not> is_pop e) es"
  shows "let s = run node_step es node_sys_init in
     \<exists>xs. chain (nexts s) (phead s) xs \<and> distinct xs \<and> set xs = {t. node_pcs s t = N_pushed}"
proof -
  have "push_inv (run node_step es node_sys_init)"
    by (rule run_invariant_on [where P = "\<lambda>e. \<not> is_pop e"])
      (auto intro: push_inv_step push_inv_init assms)
  then show ?thesis by (auto simp: push_inv_def Let_def dest: chain_distinct)
qed

theorem safe_enqueue_linearizable_witness:
  "let s = run node_step
       [NPush 1, NPush 2, NStep 1, NStep 2, NStep 1, NStep 2, NStep 1, NStep 2] node_sys_init in
     node_pcs s 1 = N_pushed \<and> node_pcs s 2 = E_load \<and>
     (\<exists>xs. chain (nexts s) (phead s) xs \<and> distinct xs \<and> set xs = {t. node_pcs s t = N_pushed})"
proof -
  let ?es = "[NPush 1, NPush 2, NStep 1, NStep 2, NStep 1, NStep 2, NStep 1, NStep 2]"
  have "list_all (\<lambda>e. \<not> is_pop e) ?es" by simp
  from safe_enqueue_linearizable [OF this] show ?thesis
    by (simp add: Let_def node_sys_init_def safe_enqueue_step_def safe_dequeue_step_def sync_defs)
qed


end
