(* ===== verification/ConcSet.thy ===== *)
theory ConcSet
  imports HPrelude
begin

unbundle bit_operations_syntax

text \<open>
  \<open>concurrent_set<vthread*>\<close> of \<open>inc/concurrent_set.hpp\<close>: a hash table of \<open>SIZE\<close> buckets,
  one spin lock per bucket.  \<open>insert\<close> and \<open>erase\<close> run under the lock of the one bucket they
  touch, so each is one atomic step; \<open>empty\<close> and \<open>get_all\<close> (marked unsafe in the source) visit
  the buckets one after the other, and other operations may run between two buckets.  A bucket
  (\<open>std::unordered_set\<close>) is a duplicate-free list in an order that nothing relies on.
\<close>

section \<open>The table\<close>

type_synonym vptr = c_size
  \<comment> \<open>an element: a \<open>vthread*\<close>\<close>

definition SIZE :: nat where
  "SIZE = 32"

type_synonym concurrent_set = "vptr list list"

definition concurrent_set_new :: concurrent_set where
  "concurrent_set_new = replicate SIZE []"

text \<open>The bytes of a pointer in memory order, as \<open>char\<close>s.\<close>

definition bytes_of :: "vptr \<Rightarrow> 8 word list" where
  "bytes_of v = map (\<lambda>i. ucast (drop_bit (8 * i) v)) [0..<8]"

text \<open>
  All arithmetic on \<open>sum\<close> is done in \<open>int\<close> and stored back into a signed \<open>char\<close>: the product
  wraps, the shift is arithmetic, and the final mask sees the sign-extended value.
\<close>

definition hash :: "vptr \<Rightarrow> nat" where
  "hash v =
     (let sum = fold (\<lambda>b sum. sum + b) (bytes_of v) (0 :: 8 word);
          sum = ucast (scast sum * (179425823 :: 32 word));
          sum = signed_drop_bit 3 (sum :: 8 word)
      in unat (scast sum AND (of_nat (SIZE - 1) :: 32 word)))"

definition cs_insert :: "vptr \<Rightarrow> concurrent_set \<Rightarrow> bool \<times> concurrent_set" where
  "cs_insert v cs =
     (let bucket_idx = hash v in
      if v \<in> set (cs ! bucket_idx) then (False, cs)
      else (True, cs[bucket_idx := v # (cs ! bucket_idx)]))"

definition cs_erase :: "vptr \<Rightarrow> concurrent_set \<Rightarrow> bool \<times> concurrent_set" where
  "cs_erase v cs =
     (let bucket_idx = hash v in
      if v \<notin> set (cs ! bucket_idx) then (False, cs)
      else (True, cs[bucket_idx := remove1 v (cs ! bucket_idx)]))"

definition cs_empty :: "concurrent_set \<Rightarrow> bool" where
  "cs_empty cs = list_all (\<lambda>i. cs ! i = []) [0..<SIZE]"

datatype 'v set_op = SetInsert 'v | SetErase 'v

type_synonym cs_op = "vptr set_op"

fun cs_op_step :: "cs_op \<Rightarrow> concurrent_set \<Rightarrow> concurrent_set" where
  "cs_op_step (SetInsert v) cs = snd (cs_insert v cs)"
| "cs_op_step (SetErase v) cs = snd (cs_erase v cs)"

text \<open>
  \<open>get_all\<close>: before bucket \<open>i\<close> is read, the operations \<open>env ! i\<close> of other threads run.
\<close>

fun get_all_from :: "nat \<Rightarrow> cs_op list list \<Rightarrow> concurrent_set \<Rightarrow> vptr list \<Rightarrow> vptr list \<times> concurrent_set" where
  "get_all_from i [] cs ret = (ret, cs)"
| "get_all_from i (ops # env) cs ret =
     (let cs = run cs_op_step ops cs;
          ret = (if cs ! i \<noteq> [] then ret @ cs ! i else ret)
      in get_all_from (Suc i) env cs ret)"

definition get_all :: "cs_op list list \<Rightarrow> concurrent_set \<Rightarrow> vptr list \<times> concurrent_set" where
  "get_all env cs = get_all_from 0 env cs []"

section \<open>Invariant and abstraction\<close>

definition cs_inv :: "concurrent_set \<Rightarrow> bool" where
  "cs_inv cs \<longleftrightarrow> length cs = SIZE \<and>
     (\<forall>i < SIZE. distinct (cs ! i) \<and> (\<forall>v \<in> set (cs ! i). hash v = i))"

definition cs_abs :: "concurrent_set \<Rightarrow> vptr set" where
  "cs_abs cs = {v. v \<in> set (cs ! hash v)}"

lemma hash_less [simp]: "hash v < SIZE"
proof -
  have "unat (x AND (31 :: 32 word)) \<le> unat (31 :: 32 word)" for x
    by (rule word_and_le1 [THEN word_le_nat_alt [THEN iffD1]])
  then have "unat (x AND (31 :: 32 word)) \<le> 31" for x by simp
  then show ?thesis unfolding hash_def SIZE_def Let_def
    by (simp add: less_Suc_eq_le [of _ 31, simplified])
qed

lemma cs_inv_new: "cs_inv concurrent_set_new"
  by (simp add: cs_inv_def concurrent_set_new_def)

lemma cs_abs_new [simp]: "cs_abs concurrent_set_new = {}"
  by (simp add: cs_abs_def concurrent_set_new_def)

lemma cs_inv_insert: "cs_inv cs \<Longrightarrow> cs_inv (snd (cs_insert v cs))"
  by (auto simp: cs_inv_def cs_insert_def nth_list_update Let_def)

lemma cs_inv_erase: "cs_inv cs \<Longrightarrow> cs_inv (snd (cs_erase v cs))"
  using notin_set_remove1 [of _ "cs ! hash v" v]
  by (auto simp: cs_inv_def cs_erase_def nth_list_update Let_def distinct_remove1)

lemma cs_abs_insert:
  "cs_inv cs \<Longrightarrow> fst (cs_insert v cs) \<longleftrightarrow> v \<notin> cs_abs cs"
  "cs_inv cs \<Longrightarrow> cs_abs (snd (cs_insert v cs)) = insert v (cs_abs cs)"
  by (auto simp: cs_inv_def cs_abs_def cs_insert_def nth_list_update Let_def)

lemma cs_abs_erase:
  "cs_inv cs \<Longrightarrow> fst (cs_erase v cs) \<longleftrightarrow> v \<in> cs_abs cs"
  "cs_inv cs \<Longrightarrow> cs_abs (snd (cs_erase v cs)) = cs_abs cs - {v}"
  by (auto simp: cs_inv_def cs_abs_def cs_erase_def nth_list_update Let_def split: if_splits)

lemma cs_inv_op: "cs_inv cs \<Longrightarrow> cs_inv (cs_op_step op cs)"
  by (cases op) (auto intro: cs_inv_insert cs_inv_erase)

lemma cs_inv_run: "cs_inv cs \<Longrightarrow> cs_inv (run cs_op_step ops cs)"
  by (rule run_invariant [of cs_inv]) (auto intro: cs_inv_op)

lemma bucket_abs: "cs_inv cs \<Longrightarrow> i < SIZE \<Longrightarrow> set (cs ! i) = {v \<in> cs_abs cs. hash v = i}"
  by (auto simp: cs_inv_def cs_abs_def)

lemma cs_abs_Union: "cs_inv cs \<Longrightarrow> cs_abs cs = (\<Union>i < SIZE. set (cs ! i))"
  using hash_less by (fastforce simp: cs_abs_def cs_inv_def)

lemma cs_empty_abs: "cs_inv cs \<Longrightarrow> cs_empty cs \<longleftrightarrow> cs_abs cs = {}"
  by (auto simp: cs_empty_def cs_abs_Union list_all_iff)

section \<open>The interface of a set object\<close>

text \<open>
  What a client of the set relies on: \<open>insert\<close> says whether the element was new, \<open>erase\<close>
  whether it was there.  The ledger of a run counts the successful calls for one element.
\<close>

fun ledger :: "('v \<Rightarrow> 's \<Rightarrow> bool \<times> 's) \<Rightarrow> ('v \<Rightarrow> 's \<Rightarrow> bool \<times> 's) \<Rightarrow> 'v \<Rightarrow> 'v set_op list \<Rightarrow> 's
    \<Rightarrow> nat \<times> nat \<times> 's" where
  "ledger ins del v [] s = (0, 0, s)"
| "ledger ins del v (SetInsert x # ops) s =
     (case ins x s of (ok, s') \<Rightarrow> case ledger ins del v ops s' of (i, e, s'') \<Rightarrow>
        (if ok \<and> x = v then Suc i else i, e, s''))"
| "ledger ins del v (SetErase x # ops) s =
     (case del x s of (ok, s') \<Rightarrow> case ledger ins del v ops s' of (i, e, s'') \<Rightarrow>
        (i, if ok \<and> x = v then Suc e else e, s''))"

locale set_object =
  fixes ins :: "'v \<Rightarrow> 's \<Rightarrow> bool \<times> 's"
    and del :: "'v \<Rightarrow> 's \<Rightarrow> bool \<times> 's"
    and inv :: "'s \<Rightarrow> bool"
    and abs :: "'s \<Rightarrow> 'v set"
  assumes inv_ins: "inv s \<Longrightarrow> inv (snd (ins v s))"
    and inv_del: "inv s \<Longrightarrow> inv (snd (del v s))"
    and ins_result: "inv s \<Longrightarrow> fst (ins v s) \<longleftrightarrow> v \<notin> abs s"
    and ins_abs: "inv s \<Longrightarrow> abs (snd (ins v s)) = insert v (abs s)"
    and del_result: "inv s \<Longrightarrow> fst (del v s) \<longleftrightarrow> v \<in> abs s"
    and del_abs: "inv s \<Longrightarrow> abs (snd (del v s)) = abs s - {v}"
begin

lemma ledger_balance:
  "inv s \<Longrightarrow> ledger ins del v ops s = (i, e, s') \<Longrightarrow>
    inv s' \<and> i + of_bool (v \<in> abs s) = e + of_bool (v \<in> abs s')"
proof (induction ops arbitrary: s i e)
  case (Cons op ops)
  show ?case
  proof (cases op)
    case (SetInsert x)
    obtain ok t where t: "ins x s = (ok, t)" by fastforce
    obtain j d where l: "ledger ins del v ops t = (j, d, s')" and "e = d"
      and i: "i = (if ok \<and> x = v then Suc j else j)"
      using Cons.prems(2) SetInsert t by (auto split: prod.splits)
    have "inv t" "ok \<longleftrightarrow> x \<notin> abs s" "abs t = insert x (abs s)"
      using Cons.prems(1) t inv_ins [of s x] ins_result [of s x] ins_abs [of s x] by auto
    with Cons.IH [OF _ l] i \<open>e = d\<close> show ?thesis by (cases "x = v") auto
  next
    case (SetErase x)
    obtain ok t where t: "del x s = (ok, t)" by fastforce
    obtain j d where l: "ledger ins del v ops t = (j, d, s')" and "i = j"
      and e: "e = (if ok \<and> x = v then Suc d else d)"
      using Cons.prems(2) SetErase t by (auto split: prod.splits)
    have "inv t" "ok \<longleftrightarrow> x \<in> abs s" "abs t = abs s - {x}"
      using Cons.prems(1) t inv_del [of s x] del_result [of s x] del_abs [of s x] by auto
    with Cons.IH [OF _ l] e \<open>i = j\<close> show ?thesis by (cases "x = v") auto
  qed
qed simp

end

interpretation cs: set_object cs_insert cs_erase cs_inv cs_abs
  by unfold_locales (auto simp: cs_inv_insert cs_inv_erase cs_abs_insert cs_abs_erase)

section \<open>Scanning while others modify\<close>

lemma get_all_from_members:
  assumes "cs_inv cs" and "i + length env = SIZE"
  shows "set (fst (get_all_from i env cs ret)) = set ret \<union>
     {v. i \<le> hash v \<and> v \<in> cs_abs (run cs_op_step (concat (take (Suc (hash v - i)) env)) cs)}"
  using assms
proof (induction i env cs ret rule: get_all_from.induct)
  case (1 i cs ret)
  then have "\<not> i \<le> hash v" for v using hash_less [of v] by (simp del: hash_less)
  then show ?case by simp
next
  case (2 i ops env cs ret)
  let ?cs = "run cs_op_step ops cs"
  let ?ret = "if ?cs ! i \<noteq> [] then ret @ ?cs ! i else ret"
  have inv: "cs_inv ?cs" by (rule cs_inv_run) (rule "2.prems"(1))
  have here: "set (?cs ! i) = {v \<in> cs_abs ?cs. hash v = i}"
    using "2.prems"(2) by (intro bucket_abs [OF inv]) simp
  have rest: "set (fst (get_all_from (Suc i) env ?cs ?ret)) = set ?ret \<union>
     {v. Suc i \<le> hash v \<and> v \<in> cs_abs (run cs_op_step (concat (take (Suc (hash v - Suc i)) env)) ?cs)}"
    by (rule "2.IH") (use inv "2.prems"(2) in simp_all)
  have step: "get_all_from i (ops # env) cs ret = get_all_from (Suc i) env ?cs ?ret"
    by (simp add: Let_def)
  have ret: "set ?ret = set ret \<union> {v \<in> cs_abs ?cs. hash v = i}" using here by auto
  show ?case
  proof (rule set_eqI)
    fix v
    consider "hash v < i" | "hash v = i" | k where "hash v = Suc i + k"
      by (metis le_Suc_ex less_Suc_eq not_less)
    then show "v \<in> set (fst (get_all_from i (ops # env) cs ret)) \<longleftrightarrow> v \<in> set ret \<union>
     {v. i \<le> hash v \<and> v \<in> cs_abs (run cs_op_step (concat (take (Suc (hash v - i)) (ops # env))) cs)}"
      by cases (auto simp only: step rest ret, auto)
  qed
qed

lemma get_all_from_state: "snd (get_all_from i env cs ret) = run cs_op_step (concat env) cs"
  by (induction i env cs ret rule: get_all_from.induct) (auto simp: Let_def)

lemma get_all_from_distinct:
  assumes "cs_inv cs" and "i + length env = SIZE" and "distinct ret" and "\<forall>v \<in> set ret. hash v < i"
  shows "distinct (fst (get_all_from i env cs ret))"
  using assms
proof (induction i env cs ret rule: get_all_from.induct)
  case (2 i ops env cs ret)
  let ?cs = "run cs_op_step ops cs"
  have inv: "cs_inv ?cs" by (rule cs_inv_run) (rule "2.prems"(1))
  then have "distinct (?cs ! i)" "\<forall>v \<in> set (?cs ! i). hash v = i"
    using "2.prems"(2) by (auto simp: cs_inv_def)
  moreover from this "2.prems"(4) have "set ret \<inter> set (?cs ! i) = {}" by auto
  ultimately have "distinct (if ?cs ! i \<noteq> [] then ret @ ?cs ! i else ret)"
    and "\<forall>v \<in> set (if ?cs ! i \<noteq> [] then ret @ ?cs ! i else ret). hash v < Suc i"
    using "2.prems"(3,4) by (auto simp: less_Suc_eq)
  with "2.IH" [OF refl refl inv] "2.prems"(2) show ?case by (simp add: Let_def)
qed simp

section \<open>Properties\<close>

text \<open>
  C23. The hash table is a set: every operation keeps the invariant, \<open>insert\<close> returns true
  exactly for an element that was not there and adds it alone, \<open>erase\<close> returns true exactly
  for an element that was there and removes it alone, and \<open>empty\<close> tells whether there is any.
\<close>

theorem concurrent_set_refines_set:
  assumes "cs_inv cs"
  shows "cs_inv (snd (cs_insert v cs)) \<and> cs_inv (snd (cs_erase v cs)) \<and>
     (fst (cs_insert v cs) \<longleftrightarrow> v \<notin> cs_abs cs) \<and>
     cs_abs (snd (cs_insert v cs)) = insert v (cs_abs cs) \<and>
     (fst (cs_erase v cs) \<longleftrightarrow> v \<in> cs_abs cs) \<and>
     cs_abs (snd (cs_erase v cs)) = cs_abs cs - {v} \<and>
     (cs_empty cs \<longleftrightarrow> cs_abs cs = {})"
  using assms cs.inv_ins cs.inv_del cs.ins_result cs.ins_abs cs.del_result cs.del_abs cs_empty_abs
  by simp

theorem concurrent_set_refines_set_witness:
  "cs_inv concurrent_set_new \<and> fst (cs_insert 4096 concurrent_set_new) \<and>
   cs_abs (snd (cs_insert 4096 concurrent_set_new)) = {4096}"
  using concurrent_set_refines_set [OF cs_inv_new, of 4096] cs_inv_new by simp

text \<open>
  The set works as a registry: in any interleaving of inserts and erases, for one element
  the successful inserts and the successful erases alternate, so that their difference is the
  change of its membership.
\<close>

theorem concurrent_set_ledger:
  assumes "ledger cs_insert cs_erase v ops concurrent_set_new = (i, e, cs)"
  shows "i = e + of_bool (v \<in> cs_abs cs)"
  using cs.ledger_balance [OF cs_inv_new assms] by simp

theorem concurrent_set_ledger_witness:
  "ledger cs_insert cs_erase 8 [SetInsert 8] concurrent_set_new =
     (1, 0, concurrent_set_new[hash 8 := [8]]) \<and>
   (1 :: nat) = 0 + of_bool (8 \<in> cs_abs (concurrent_set_new[hash 8 := [8]]))"
proof -
  have "concurrent_set_new ! hash 8 = []" by (simp add: concurrent_set_new_def)
  then have "ledger cs_insert cs_erase 8 [SetInsert 8] concurrent_set_new =
     (1, 0, concurrent_set_new[hash 8 := [8]])"
    by (simp add: cs_insert_def Let_def)
  from this concurrent_set_ledger [OF this] show ?thesis by simp
qed

text \<open>
  \<open>get_all\<close> against concurrent changes: whatever operations run between its visits to the
  buckets, it returns without duplicates exactly the elements that were in the set at the
  moment their bucket was read; alone, it returns the whole set.
\<close>

theorem get_all_snapshot:
  assumes "cs_inv cs" and "length env = SIZE"
  shows "distinct (fst (get_all env cs)) \<and>
     set (fst (get_all env cs)) =
       {v. v \<in> cs_abs (run cs_op_step (concat (take (Suc (hash v)) env)) cs)} \<and>
     set (fst (get_all (replicate SIZE []) cs)) = cs_abs cs"
proof -
  have members: "set (fst (get_all e cs)) =
      {v. v \<in> cs_abs (run cs_op_step (concat (take (Suc (hash v)) e)) cs)}" if "length e = SIZE" for e
    using get_all_from_members [OF assms(1), of 0 e "[]"] that by (simp add: get_all_def)
  have "concat (take k (replicate n [])) = ([] :: cs_op list)" for k n
    by simp
  then have "set (fst (get_all (replicate SIZE []) cs)) = cs_abs cs"
    using members [of "replicate SIZE []"] by simp
  moreover have "distinct (fst (get_all env cs))"
    unfolding get_all_def by (rule get_all_from_distinct) (use assms in simp_all)
  ultimately show ?thesis using members [OF assms(2)] by blast
qed

theorem get_all_snapshot_witness:
  "let env = [SetInsert 1] # replicate 31 [] in
   distinct (fst (get_all env concurrent_set_new)) \<and>
   set (fst (get_all env concurrent_set_new)) =
     {v. v \<in> cs_abs (run cs_op_step (concat (take (Suc (hash v)) env)) concurrent_set_new)}"
  using get_all_snapshot [OF cs_inv_new, of "[SetInsert 1] # replicate 31 []"]
  by (simp add: SIZE_def Let_def)

end
