(* ===== verification/FContext.thy ===== *)
theory FContext
  imports HSpin
begin

unbundle bit_operations_syntax

text \<open>
  The context switch of \<open>asm/*.S\<close>: \<open>make_fcontext\<close>, \<open>safe_jump_fcontext\<close> and
  \<open>try_jump_fcontext\<close>, instruction by instruction, on the general registers they use and a
  memory of aligned quadwords.  The jumps take the \<open>jump_lock\<close> of the virtual thread with an
  exchange before they touch the stacks and release it before the indirect jump.
\<close>

section \<open>Machine state\<close>

record cpu =
  rax :: c_size
  rbx :: c_size
  rcx :: c_size
  rdx :: c_size
  rsi :: c_size
  rdi :: c_size
  rbp :: c_size
  rsp :: c_size
  r8 :: c_size
  r9 :: c_size
  r12 :: c_size
  r13 :: c_size
  r14 :: c_size
  r15 :: c_size
  rip :: c_size
  mxcsr :: "32 word"
  x87_cw :: "16 word"
  mem :: "c_size \<Rightarrow> c_size"

definition store :: "c_size \<Rightarrow> c_size \<Rightarrow> cpu \<Rightarrow> cpu" where
  "store a v c = c\<lparr>mem := (mem c)(a := v)\<rparr>"

definition pushq :: "(cpu \<Rightarrow> c_size) \<Rightarrow> cpu \<Rightarrow> cpu" where
  "pushq r c = (let c' = c\<lparr>rsp := rsp c - 8\<rparr> in store (rsp c') (r c) c')"

definition popq :: "((c_size \<Rightarrow> c_size) \<Rightarrow> cpu \<Rightarrow> cpu) \<Rightarrow> cpu \<Rightarrow> cpu" where
  "popq upd c = (let v = mem c (rsp c) in upd (\<lambda>_. v) (c\<lparr>rsp := rsp c + 8\<rparr>))"

text \<open>
  The quadword that keeps the floating point control words: \<open>stmxcsr (a)\<close> writes its low
  doubleword, \<open>fnstcw 4(a)\<close> the word above it.
\<close>

definition put_mxcsr :: "32 word \<Rightarrow> c_size \<Rightarrow> c_size" where
  "put_mxcsr m q = (q AND NOT (mask 32)) OR ucast m"

definition put_cw :: "16 word \<Rightarrow> c_size \<Rightarrow> c_size" where
  "put_cw w q = (q AND NOT (push_bit 32 (mask 16))) OR push_bit 32 (ucast w)"

definition get_mxcsr :: "c_size \<Rightarrow> 32 word" where
  "get_mxcsr q = ucast q"

definition get_cw :: "c_size \<Rightarrow> 16 word" where
  "get_cw q = ucast (drop_bit 32 q)"

definition save_fpu :: "c_size \<Rightarrow> cpu \<Rightarrow> cpu" where
  "save_fpu a c =
     (let c = store a (put_mxcsr (mxcsr c) (mem c a)) c
      in store a (put_cw (x87_cw c) (mem c a)) c)"

definition restore_fpu :: "c_size \<Rightarrow> cpu \<Rightarrow> cpu" where
  "restore_fpu a c = c\<lparr>mxcsr := get_mxcsr (mem c a), x87_cw := get_cw (mem c a)\<rparr>"

text \<open>Straight-line code: its instructions one after the other.\<close>

primrec exec :: "(cpu \<Rightarrow> cpu) list \<Rightarrow> cpu \<Rightarrow> cpu" where
  "exec [] c = c"
| "exec (i # is) c = exec is (i c)"

section \<open>\<open>make_fcontext\<close>\<close>

text \<open>Arguments in \<open>rdi\<close> (top of the stack), \<open>rsi\<close> (size), \<open>rdx\<close> (context function).\<close>

definition make_fcontext :: "c_size \<Rightarrow> cpu \<Rightarrow> cpu" where
  "make_fcontext finish = exec [
     \<lambda>c. c\<lparr>rax := rdi c\<rparr>,
     \<lambda>c. c\<lparr>rax := rax c AND -16\<rparr>,
     \<lambda>c. c\<lparr>rax := rax c - 0x48\<rparr>,
     \<lambda>c. store (rax c + 0x38) (rdx c) c,
     \<lambda>c. save_fpu (rax c) c,
     \<lambda>c. c\<lparr>rcx := finish\<rparr>,
     \<lambda>c. store (rax c + 0x40) (rcx c) c]"

section \<open>The jumps\<close>

text \<open>
  The part both jumps share, from \<open>pushq rbp\<close> to \<open>jmp *r9\<close>: first the frame of the
  current context is stored and its stack pointer written through \<open>rdi\<close>, then the stack in
  \<open>rsi\<close> is taken over.
\<close>

definition jump_save :: "cpu \<Rightarrow> cpu" where
  "jump_save = exec [
     pushq rbp, pushq rbx, pushq r15, pushq r14, pushq r13, pushq r12,
     \<lambda>c. c\<lparr>rsp := rsp c - 8\<rparr>,
     \<lambda>c. if rcx c = 0 then c else save_fpu (rsp c) c,
     \<lambda>c. store (rdi c) (rsp c) c]"

definition jump_restore :: "cpu \<Rightarrow> cpu" where
  "jump_restore = exec [
     \<lambda>c. c\<lparr>rsp := rsi c\<rparr>,
     \<lambda>c. if rcx c = 0 then c else restore_fpu (rsp c) c,
     \<lambda>c. c\<lparr>rsp := rsp c + 8\<rparr>,
     popq r12_update, popq r13_update, popq r14_update, popq r15_update,
     popq rbx_update, popq rbp_update, popq r9_update,
     \<lambda>c. c\<lparr>rax := rdx c\<rparr>,
     \<lambda>c. c\<lparr>rdi := rdx c\<rparr>,
     \<lambda>c. store (r8 c) (mem c (r8 c) AND 0) c,
     \<lambda>c. c\<lparr>rip := r9 c\<rparr>]"

datatype jump_outcome = Jumped cpu | Spinning cpu | Returned cpu

text \<open>One round of \<open>enter_safe\<close>; a taken lock sends the thread round again.\<close>

definition safe_jump_enter :: "cpu \<Rightarrow> bool \<times> cpu" where
  "safe_jump_enter c = (case xchg (r9 c) (mem c (r8 c)) of (r, m) \<Rightarrow>
     (r \<noteq> 1, store (r8 c) m (c\<lparr>r9 := r\<rparr>)))"

definition safe_jump_round :: "cpu \<Rightarrow> jump_outcome" where
  "safe_jump_round c = (case safe_jump_enter c of (ok, c') \<Rightarrow>
     if ok then Jumped (jump_restore (jump_save c')) else Spinning c')"

definition safe_jump_fcontext :: "cpu \<Rightarrow> jump_outcome" where
  "safe_jump_fcontext c = safe_jump_round (c\<lparr>r9 := (r9 c XOR r9 c) + 1\<rparr>)"

text \<open>
  \<open>try_jump_fcontext\<close> gives up on a taken lock: 23 in \<open>rax\<close> and \<open>ret\<close>.
\<close>

definition try_jump_fcontext :: "cpu \<Rightarrow> jump_outcome" where
  "try_jump_fcontext c =
     (let c = c\<lparr>r9 := (r9 c XOR r9 c) + 1\<rparr> in
      case xchg (r9 c) (mem c (r8 c)) of (r, m) \<Rightarrow>
        let c = store (r8 c) m (c\<lparr>r9 := r\<rparr>) in
        if r = 0 then Jumped (jump_restore (jump_save c))
        else Returned (popq rip_update (c\<lparr>rax := 23\<rparr>)))"

section \<open>Facts about one jump\<close>

lemma get_put_mxcsr [simp]: "get_mxcsr (put_mxcsr m q) = m"
  by (rule bit_word_eqI) (auto simp: get_mxcsr_def put_mxcsr_def bit_simps)

lemma get_cw_put [simp]: "get_cw (put_cw w q) = w"
  by (rule bit_word_eqI) (auto simp: get_cw_def put_cw_def bit_simps)

lemma get_mxcsr_put_cw [simp]: "get_mxcsr (put_cw w q) = get_mxcsr q"
  by (rule bit_word_eqI) (auto simp: get_mxcsr_def put_cw_def bit_simps)

lemma pushq_eq: "pushq r c = c\<lparr>rsp := rsp c - 8, mem := (mem c)(rsp c - 8 := r c)\<rparr>"
  by (simp add: pushq_def store_def)

lemma popq_eq: "popq upd c = upd (\<lambda>_. mem c (rsp c)) (c\<lparr>rsp := rsp c + 8\<rparr>)"
  by (simp add: popq_def)

lemma save_fpu_eq:
  "save_fpu a c = c\<lparr>mem := (mem c)(a := put_cw (x87_cw c) (put_mxcsr (mxcsr c) (mem c a)))\<rparr>"
  by (simp add: save_fpu_def store_def Let_def)

lemmas cpu_defs = pushq_eq popq_eq save_fpu_eq restore_fpu_def store_def

text \<open>The saved frame: what is at which distance below the stack pointer of the caller.\<close>

definition saved_frame :: "(c_size \<Rightarrow> c_size) \<Rightarrow> cpu \<Rightarrow> bool" where
  "saved_frame m c \<longleftrightarrow>
     m (rsp c) = mem c (rsp c) \<and>
     m (rsp c - 8) = rbp c \<and> m (rsp c - 16) = rbx c \<and> m (rsp c - 24) = r15 c \<and>
     m (rsp c - 32) = r14 c \<and> m (rsp c - 40) = r13 c \<and> m (rsp c - 48) = r12 c \<and>
     (rcx c \<noteq> 0 \<longrightarrow> get_mxcsr (m (rsp c - 56)) = mxcsr c \<and> get_cw (m (rsp c - 56)) = x87_cw c)"

definition frame_cells :: "cpu \<Rightarrow> c_size set" where
  "frame_cells c = {rsp c, rsp c - 8, rsp c - 16, rsp c - 24, rsp c - 32, rsp c - 40,
     rsp c - 48, rsp c - 56}"

lemma jump_save_eq:
  "jump_save c = c\<lparr>rsp := rsp c - 56, mem := (mem c)
     (rsp c - 8 := rbp c, rsp c - 16 := rbx c, rsp c - 24 := r15 c, rsp c - 32 := r14 c,
      rsp c - 40 := r13 c, rsp c - 48 := r12 c,
      rsp c - 56 := (if rcx c = 0 then mem c (rsp c - 56)
        else put_cw (x87_cw c) (put_mxcsr (mxcsr c) (mem c (rsp c - 56)))),
      rdi c := rsp c - 56)\<rparr>"
  by (cases "rcx c = 0") (simp_all add: jump_save_def cpu_defs fun_upd_idem)

lemma frame_cells_neq:
  "a \<notin> frame_cells c \<Longrightarrow> rsp c \<noteq> a \<and> rsp c - 8 \<noteq> a \<and> rsp c - 16 \<noteq> a \<and> rsp c - 24 \<noteq> a \<and>
     rsp c - 32 \<noteq> a \<and> rsp c - 40 \<noteq> a \<and> rsp c - 48 \<noteq> a \<and> rsp c - 56 \<noteq> a"
  by (auto simp: frame_cells_def)

lemma jump_save_frame:
  assumes "rdi c \<notin> frame_cells c"
  shows "saved_frame (mem (jump_save c)) c" and "mem (jump_save c) (rdi c) = rsp c - 56"
  using frame_cells_neq [OF assms] by (simp_all add: jump_save_eq saved_frame_def frame_cells_def)

lemma jump_save_regs:
  "rsp (jump_save c) = rsp c - 56" "rsi (jump_save c) = rsi c" "rdx (jump_save c) = rdx c"
  "rcx (jump_save c) = rcx c" "r8 (jump_save c) = r8 c" "rdi (jump_save c) = rdi c"
  by (simp_all add: jump_save_eq)

lemma jump_save_mem_outside:
  "a \<notin> frame_cells c \<Longrightarrow> a \<noteq> rdi c \<Longrightarrow> mem (jump_save c) a = mem c a"
  by (simp add: jump_save_eq frame_cells_def)

lemma jump_restore_frame:
  assumes "saved_frame (mem c) a" and "rsi c = rsp a - 56"
  shows "rip (jump_restore c) = mem a (rsp a) \<and> rsp (jump_restore c) = rsp a + 8 \<and>
     rbx (jump_restore c) = rbx a \<and> rbp (jump_restore c) = rbp a \<and>
     r12 (jump_restore c) = r12 a \<and> r13 (jump_restore c) = r13 a \<and>
     r14 (jump_restore c) = r14 a \<and> r15 (jump_restore c) = r15 a \<and>
     rax (jump_restore c) = rdx c \<and> rdi (jump_restore c) = rdx c \<and>
     mem (jump_restore c) (r8 c) = 0 \<and>
     (rcx c \<noteq> 0 \<longrightarrow> rcx a \<noteq> 0 \<longrightarrow>
        mxcsr (jump_restore c) = mxcsr a \<and> x87_cw (jump_restore c) = x87_cw a)"
  using assms by (simp add: jump_restore_def cpu_defs saved_frame_def)

lemma jump_restore_rsp: "rsp (jump_restore c) = rsi c + 0x40"
  by (simp add: jump_restore_def cpu_defs)

lemma jump_restore_mem: "a \<noteq> r8 c \<Longrightarrow> mem (jump_restore c) a = mem c a"
  by (simp add: jump_restore_def cpu_defs)

lemma saved_frame_cong:
  "(\<And>a. a \<in> frame_cells c \<Longrightarrow> m a = m' a) \<Longrightarrow> saved_frame m c \<Longrightarrow> saved_frame m' c"
  by (simp add: saved_frame_def frame_cells_def)

lemma and_minus_16: "(x AND -16) AND 15 = (0 :: c_size)"
  by (simp add: and.assoc)

lemma and_15_diff_16: "(y - 16) AND 15 = y AND (15 :: c_size)"
proof -
  have mask: "unat (x AND 15) = unat x mod 16" for x :: c_size
    using unat_and_mask [of "15 :: c_size" 4 x] by simp
  have "unat y = (unat (y - 16) + 16) mod 2 ^ 64"
    using unat_word_ariths(1) [of "y - 16" 16] by simp
  then have "unat y mod 16 = (unat (y - 16) + 16) mod 16"
    using mod_mod_cancel [of 16 "2 ^ 64 :: nat" "unat (y - 16) + 16"] by simp
  then show ?thesis by (simp add: word_unat_eq_iff mask)
qed

section \<open>The lock of a virtual thread\<close>

text \<open>
  Only one context switch of a virtual thread is under way at a time: both jumps use the
  \<open>jump_lock\<close> word as a test-and-set lock.
\<close>

definition safe_jump_attempt :: "c_size \<Rightarrow> bool \<times> c_size" where
  "safe_jump_attempt m = (case xchg 1 m of (r, m') \<Rightarrow> (r \<noteq> 1, m'))"

definition try_jump_attempt :: "c_size \<Rightarrow> bool \<times> c_size" where
  "try_jump_attempt m = (case xchg 1 m of (r, m') \<Rightarrow> (r = 0, m'))"

definition jump_unlock :: "c_size \<Rightarrow> c_size" where
  "jump_unlock m = m AND 0"

interpretation safe_jump: test_and_set_lock safe_jump_attempt jump_unlock
  by unfold_locales (auto simp: safe_jump_attempt_def jump_unlock_def xchg_def)

interpretation try_jump: test_and_set_lock try_jump_attempt jump_unlock
  by unfold_locales (auto simp: try_jump_attempt_def jump_unlock_def xchg_def)

lemma safe_jump_fcontext_lock:
  "safe_jump_fcontext c =
     (let c' = c\<lparr>r9 := mem c (r8 c), mem := (mem c)(r8 c := snd (safe_jump_attempt (mem c (r8 c))))\<rparr>
      in if fst (safe_jump_attempt (mem c (r8 c))) then Jumped (jump_restore (jump_save c'))
         else Spinning c')"
  by (simp add: safe_jump_fcontext_def safe_jump_round_def safe_jump_enter_def safe_jump_attempt_def
      xchg_def store_def Let_def)

lemma try_jump_fcontext_lock:
  "try_jump_fcontext c =
     (let c' = c\<lparr>r9 := mem c (r8 c), mem := (mem c)(r8 c := snd (try_jump_attempt (mem c (r8 c))))\<rparr>
      in if fst (try_jump_attempt (mem c (r8 c))) then Jumped (jump_restore (jump_save c'))
         else Returned (popq rip_update (c'\<lparr>rax := 23\<rparr>)))"
  by (simp add: try_jump_fcontext_def try_jump_attempt_def xchg_def store_def Let_def)

section \<open>A jump away and back\<close>

text \<open>
  Two jumps in sequence.  The first always puts the address of its frame into the cell it is
  given and frees the lock; when the frame survives, a second jump to that address takes the
  first caller up where it left.
\<close>

lemma safe_jump_free:
  "mem c (r8 c) = 0 \<Longrightarrow> \<exists>c'. safe_jump_fcontext c = Jumped c'"
  by (simp add: safe_jump_fcontext_lock safe_jump_attempt_def xchg_def)

lemma safe_jump_eq:
  "safe_jump_fcontext a = Jumped a' \<Longrightarrow> a' = jump_restore (jump_save
     (a\<lparr>r9 := mem a (r8 a), mem := (mem a)(r8 a := snd (safe_jump_attempt (mem a (r8 a))))\<rparr>))"
  by (auto simp: safe_jump_fcontext_lock Let_def split: if_splits)

lemma safe_jump_cells:
  assumes "safe_jump_fcontext a = Jumped a'"
    and "rdi a \<notin> frame_cells a" "r8 a \<notin> frame_cells a" "rdi a \<noteq> r8 a"
  shows "mem a' (rdi a) = rsp a - 56" and "mem a' (r8 a) = 0"
    and "x \<notin> frame_cells a \<Longrightarrow> x \<noteq> rdi a \<Longrightarrow> x \<noteq> r8 a \<Longrightarrow> mem a' x = mem a x"
proof -
  note a' = safe_jump_eq [OF assms(1)]
  show "mem a' (rdi a) = rsp a - 56"
    unfolding a' using assms by (simp add: jump_restore_mem jump_save_regs) (simp add: jump_save_eq)
  show "mem a' (r8 a) = 0"
    unfolding a' by (simp add: jump_restore_def cpu_defs jump_save_regs)
  show "mem a' x = mem a x" if "x \<notin> frame_cells a" "x \<noteq> rdi a" "x \<noteq> r8 a"
    unfolding a' using that
    by (simp add: jump_restore_mem jump_save_regs jump_save_mem_outside frame_cells_def)
qed

lemma safe_jump_pair:
  fixes a b :: cpu
  assumes first: "safe_jump_fcontext a = Jumped a'"
    and second: "safe_jump_fcontext b = Jumped b'"
    and target: "rsi b = mem a' (rdi a)"
    and kept: "\<And>x. x \<in> frame_cells a \<Longrightarrow> mem b x = mem a' x"
    and apart: "frame_cells a \<inter> (frame_cells b \<union> {rdi b, r8 b, rdi a, r8 a}) = {}" "rdi a \<noteq> r8 a"
  shows "rip b' = mem a (rsp a) \<and> rsp b' = rsp a + 8 \<and> rax b' = rdx b \<and>
     rbx b' = rbx a \<and> rbp b' = rbp a \<and> r12 b' = r12 a \<and> r13 b' = r13 a \<and>
     r14 b' = r14 a \<and> r15 b' = r15 a \<and> mem b' (r8 b) = 0 \<and>
     (rcx a \<noteq> 0 \<longrightarrow> rcx b \<noteq> 0 \<longrightarrow> mxcsr b' = mxcsr a \<and> x87_cw b' = x87_cw a)"
proof -
  define a1 where "a1 = a\<lparr>r9 := mem a (r8 a), mem := (mem a)(r8 a := snd (safe_jump_attempt (mem a (r8 a))))\<rparr>"
  define b1 where "b1 = b\<lparr>r9 := mem b (r8 b), mem := (mem b)(r8 b := snd (safe_jump_attempt (mem b (r8 b))))\<rparr>"
  have a': "a' = jump_restore (jump_save a1)" and b': "b' = jump_restore (jump_save b1)"
    using first second by (auto simp: safe_jump_fcontext_lock a1_def b1_def Let_def split: if_splits)
  have cells: "frame_cells a1 = frame_cells a" "frame_cells b1 = frame_cells b"
    by (simp_all add: frame_cells_def a1_def b1_def)
  have out: "r8 a \<notin> frame_cells a" "rdi a \<notin> frame_cells a" using apart by auto
  have saved: "saved_frame (mem (jump_save a1)) a1" "mem (jump_save a1) (rdi a) = rsp a - 56"
    using jump_save_frame [of a1] out cells by (simp_all add: a1_def)
  have "mem (jump_save b1) x = mem (jump_save a1) x" if x: "x \<in> frame_cells a" for x
  proof -
    have "x \<notin> frame_cells b" "x \<noteq> rdi b" "x \<noteq> r8 b" "x \<noteq> r8 a" using x apart by auto
    then have "mem (jump_save b1) x = mem b x"
      using cells by (simp add: jump_save_mem_outside b1_def frame_cells_def)
    also have "\<dots> = mem (jump_save a1) x"
      using kept [OF x] \<open>x \<noteq> r8 a\<close> by (simp add: a' jump_restore_mem jump_save_regs a1_def)
    finally show ?thesis .
  qed
  then have frame: "saved_frame (mem (jump_save b1)) a1"
    using saved(1) saved_frame_cong [of a1] cells by metis
  have "rsi (jump_save b1) = rsp a1 - 56"
    using target saved(2) apart(2)
    by (simp add: jump_save_regs a' jump_restore_mem b1_def) (simp add: a1_def jump_save_regs jump_restore_mem)
  from jump_restore_frame [OF frame this] b' frame_cells_neq [OF out(1)] show ?thesis
    by (simp add: jump_save_regs) (simp add: a1_def b1_def)
qed

section \<open>Properties\<close>

text \<open>
  A context switch and the switch back are a round trip: the caller that jumps away from a
  context and is later jumped back to continues at its return address with its stack pointer,
  its callee-saved registers and its floating point control words unchanged and the value
  passed by the second jump as the result, and the jump lock is free again; provided the
  second jump is given the stored stack pointer, the frame of the first was not overwritten in
  between, and the pointer cells, the lock and the second frame lie outside it.
\<close>

theorem context_switch_round_trip:
  fixes a b :: cpu
  assumes first: "safe_jump_fcontext a = Jumped a'"
    and second: "safe_jump_fcontext b = Jumped b'"
    and target: "rsi b = mem a' (rdi a)"
    and kept: "\<And>x. x \<in> frame_cells a \<Longrightarrow> mem b x = mem a' x"
    and apart: "frame_cells a \<inter> (frame_cells b \<union> {rdi b, r8 b, rdi a, r8 a}) = {}" "rdi a \<noteq> r8 a"
    and fpu: "rcx a \<noteq> 0" "rcx b \<noteq> 0"
  shows "rip b' = mem a (rsp a) \<and> rsp b' = rsp a + 8 \<and> rax b' = rdx b \<and>
     rbx b' = rbx a \<and> rbp b' = rbp a \<and> r12 b' = r12 a \<and> r13 b' = r13 a \<and>
     r14 b' = r14 a \<and> r15 b' = r15 a \<and> mxcsr b' = mxcsr a \<and> x87_cw b' = x87_cw a \<and>
     mem b' (r8 b) = 0"
  using safe_jump_pair [OF first second target kept apart] fpu by simp

definition example_caller :: cpu where
  "example_caller = \<lparr>rax = 0, rbx = 11, rcx = 1, rdx = 5, rsi = 0x2000, rdi = 0x5000, rbp = 12,
     rsp = 0x1000, r8 = 0x6000, r9 = 0, r12 = 13, r13 = 14, r14 = 15, r15 = 16, rip = 0,
     mxcsr = 0x1F80, x87_cw = 0x37F, mem = (\<lambda>_. 0)(0x1000 := 0x400)\<rparr>"

theorem context_switch_round_trip_witness:
  "\<exists>a' b b'. safe_jump_fcontext example_caller = Jumped a' \<and>
     rsi b = mem a' (rdi example_caller) \<and> safe_jump_fcontext b = Jumped b' \<and>
     rip b' = 0x400 \<and> rsp b' = 0x1008 \<and> rbx b' = 11 \<and> r15 b' = 16 \<and> rax b' = 7 \<and> mxcsr b' = 0x1F80"
proof -
  let ?a = example_caller
  let ?a1 = "?a\<lparr>r9 := mem ?a (r8 ?a), mem := (mem ?a)(r8 ?a := 1)\<rparr>"
  let ?a' = "jump_restore (jump_save ?a1)"
  let ?b = "?a'\<lparr>rsp := 0x3000, rsi := mem ?a' (rdi ?a), rdi := 0x5008, rdx := 7, rcx := 1, r8 := 0x6000\<rparr>"
  let ?b' = "jump_restore (jump_save (?b\<lparr>r9 := mem ?b (r8 ?b), mem := (mem ?b)(r8 ?b := 1)\<rparr>))"
  have free: "mem ?a (r8 ?a) = 0" by (simp add: example_caller_def)
  have lock: "mem ?b 0x6000 = 0"
    by (simp add: jump_restore_def store_def) (simp add: cpu_defs jump_save_eq example_caller_def)
  have j1: "safe_jump_fcontext ?a = Jumped ?a'"
    using free by (simp add: safe_jump_fcontext_lock safe_jump_attempt_def xchg_def)
  have j2: "safe_jump_fcontext ?b = Jumped ?b'"
    using lock by (simp add: safe_jump_fcontext_lock safe_jump_attempt_def xchg_def)
  have "rip ?b' = mem ?a (rsp ?a) \<and> rsp ?b' = rsp ?a + 8 \<and> rax ?b' = rdx ?b \<and>
     rbx ?b' = rbx ?a \<and> rbp ?b' = rbp ?a \<and> r12 ?b' = r12 ?a \<and> r13 ?b' = r13 ?a \<and>
     r14 ?b' = r14 ?a \<and> r15 ?b' = r15 ?a \<and> mxcsr ?b' = mxcsr ?a \<and> x87_cw ?b' = x87_cw ?a \<and>
     mem ?b' (r8 ?b) = 0"
    by (rule context_switch_round_trip [OF j1 j2]) (simp_all add: frame_cells_def example_caller_def)
  with j1 j2 show ?thesis
    by (intro exI [of _ ?a'] exI [of _ ?b] exI [of _ ?b']) (simp add: example_caller_def)
qed

text \<open>
  Starting a context: a jump to a context made by \<open>make_fcontext\<close> on a stack enters the
  context function with the passed value as its first argument, with the stack aligned the way
  the calling convention asks, above a return address that leads to \<open>finish\<close>, and with the
  floating point control words of the creator.
\<close>

theorem make_fcontext_entry:
  fixes c j :: cpu and finish :: c_size
  defines "ctx \<equiv> make_fcontext finish c"
  assumes target: "rsi j = rax ctx"
    and kept: "\<forall>d \<in> {0, 0x38, 0x40}. mem j (rax ctx + d) = mem ctx (rax ctx + d)"
    and lock: "r8 j \<noteq> rax ctx + 0x40"
  shows "rip (jump_restore j) = rdx c \<and> rdi (jump_restore j) = rdx j \<and>
     (rsp (jump_restore j) - 8) AND 15 = 0 \<and>
     mem (jump_restore j) (rsp (jump_restore j)) = finish \<and>
     (rcx j \<noteq> 0 \<longrightarrow> mxcsr (jump_restore j) = mxcsr c \<and> x87_cw (jump_restore j) = x87_cw c)"
proof -
  have ctx: "rax ctx = (rdi c AND -16) - 0x48"
    "mem ctx (rax ctx + 0x38) = rdx c" "mem ctx (rax ctx + 0x40) = finish"
    "get_mxcsr (mem ctx (rax ctx)) = mxcsr c" "get_cw (mem ctx (rax ctx)) = x87_cw c"
    by (simp_all add: ctx_def make_fcontext_def cpu_defs)
  have "(rdi c AND -16) - 16 AND 15 = 0"
    using and_15_diff_16 [of "rdi c AND -16"] and_minus_16 [of "rdi c"] by simp
  moreover have "rsp (jump_restore j) = rax ctx + 0x40"
    using target by (simp add: jump_restore_def cpu_defs)
  ultimately show ?thesis
    using target kept lock ctx by (simp add: jump_restore_def cpu_defs)
qed

theorem make_fcontext_entry_witness:
  "let ctx = make_fcontext 0x900 (example_caller\<lparr>rdi := 0x2FFD, rdx := 0x700\<rparr>);
       j = ctx\<lparr>rsi := rax ctx, rdx := 42, rcx := 1\<rparr>
   in rip (jump_restore j) = 0x700 \<and> rdi (jump_restore j) = 42 \<and>
      (rsp (jump_restore j) - 8) AND 15 = 0 \<and>
      mem (jump_restore j) (rsp (jump_restore j)) = 0x900"
proof -
  let ?c = "example_caller\<lparr>rdi := 0x2FFD, rdx := 0x700\<rparr>"
  let ?ctx = "make_fcontext 0x900 ?c"
  let ?j = "?ctx\<lparr>rsi := rax ?ctx, rdx := 42, rcx := 1\<rparr>"
  have ax: "rax ?ctx = 0x2FA8" and lk: "r8 ?ctx = 0x6000"
    by (simp_all add: make_fcontext_def cpu_defs example_caller_def)
  show ?thesis
    using make_fcontext_entry [where j = ?j and finish = "0x900" and c = ?c] ax lk by (simp add: Let_def)
qed

text \<open>
  \<open>try_jump_fcontext\<close>, which the signal handler uses, never disturbs a switch under way:
  on a taken lock it returns 23 to its caller with the memory, the lock and the callee-saved
  registers as they were; on a free lock it does exactly what \<open>safe_jump_fcontext\<close> does.
\<close>

theorem try_jump_backs_off:
  "(mem c (r8 c) = 1 \<longrightarrow> (\<exists>c'. try_jump_fcontext c = Returned c' \<and> rax c' = 23 \<and>
      rip c' = mem c (rsp c) \<and> rsp c' = rsp c + 8 \<and> mem c' = mem c \<and> rbx c' = rbx c \<and>
      rbp c' = rbp c \<and> r12 c' = r12 c \<and> r13 c' = r13 c \<and> r14 c' = r14 c \<and> r15 c' = r15 c)) \<and>
   (mem c (r8 c) = 0 \<longrightarrow> try_jump_fcontext c = safe_jump_fcontext c) \<and>
   (mem c (r8 c) = 1 \<longrightarrow> (\<exists>c'. safe_jump_fcontext c = Spinning c' \<and> mem c' = mem c))"
  by (auto simp: try_jump_fcontext_lock safe_jump_fcontext_lock try_jump_attempt_def
      safe_jump_attempt_def xchg_def popq_eq Let_def fun_upd_idem)

theorem try_jump_backs_off_witness:
  "\<exists>c'. try_jump_fcontext (store 0x6000 1 example_caller) = Returned c' \<and> rax c' = 23 \<and>
     rip c' = 0x400 \<and> mem c' = mem (store 0x6000 1 example_caller)"
  using try_jump_backs_off [of "store 0x6000 1 example_caller"]
  by (auto simp: store_def example_caller_def)

end
