(* ===== verification/VTypes.thy ===== *)
theory VTypes
  imports HPrelude
begin

text \<open>
  Types every pthread operation of the library shares: the value a virtual thread yields to
  its worker (\<open>hcoroutine_ret_t\<close> of \<open>inc/vthread.hpp\<close>, which also carries the address of a
  mutex the worker is to release), error numbers, and the outcome of one atomic step of an
  operation.
\<close>

definition MAX_VTHREADS :: nat where
  "MAX_VTHREADS = 660"

text \<open>
  A mutex is one of the program or the \<open>join_mutex\<close> of a virtual thread.
\<close>

datatype mutex_id = UserMutex nat | JoinMutex nat

datatype hcoroutine_ret =
    STATUS_FINISHED | STATUS_SUSPENDED | STATUS_BLOCKED | STATUS_LOCKFAIL
  | RELEASE_MUTEX mutex_id

definition EBUSY :: c_uint where
  "EBUSY = 16"

definition PTHREAD_BARRIER_SERIAL_THREAD :: c_uint where
  "PTHREAD_BARRIER_SERIAL_THREAD = -1"

text \<open>
  One step of an operation goes on to another program point, yields to the worker (and goes on
  there when it is resumed), or returns.
\<close>

datatype 'pc action = Go 'pc | Yield hcoroutine_ret 'pc | Return c_uint

text \<open>
  Where a thread is after a step of its operation; \<^const>\<open>None\<close> is the code of the program.
  A yield is a point where others may run, which any point is here.
\<close>

fun continue_at :: "'pc action \<Rightarrow> 'pc option" where
  "continue_at (Go pc) = Some pc"
| "continue_at (Yield _ pc) = Some pc"
| "continue_at (Return _) = None"

fun returns :: "'pc action \<Rightarrow> bool" where
  "returns (Return _) = True"
| "returns _ = False"

text \<open>
  What a step of an operation does to the scheduler: assignments to the fields
  \<open>cur_status\<close> and \<open>runnable\<close> of a virtual thread, and \<open>vs->vs_queue.enqueue\<close>.
\<close>

datatype effect = Set_status nat hcoroutine_ret | Set_runnable nat bool | Enqueue nat

lemma EBUSY_neq_0 [simp]: "EBUSY \<noteq> 0" "0 \<noteq> EBUSY"
  by (simp_all add: EBUSY_def)

text \<open>
  The number of virtual threads at the given program points; virtual threads are numbered
  below \<^const>\<open>MAX_VTHREADS\<close>.
\<close>

definition count_at :: "(nat \<Rightarrow> 'p) \<Rightarrow> 'p set \<Rightarrow> nat" where
  "count_at pcs S = card {t. t < MAX_VTHREADS \<and> pcs t \<in> S}"

lemma count_at_le: "count_at pcs S \<le> MAX_VTHREADS"
proof -
  have "{t. t < MAX_VTHREADS \<and> pcs t \<in> S} \<subseteq> {..<MAX_VTHREADS}" by auto
  from card_mono [OF _ this] show ?thesis by (simp add: count_at_def)
qed

lemma count_at_upd:
  assumes "t < MAX_VTHREADS"
  shows "count_at (pcs(t := p)) S + of_bool (pcs t \<in> S) = count_at pcs S + of_bool (p \<in> S)"
proof -
  let ?A = "{u. u < MAX_VTHREADS \<and> u \<noteq> t \<and> pcs u \<in> S}"
  have fin: "finite ?A" by simp
  have "{u. u < MAX_VTHREADS \<and> pcs u \<in> S} = (if pcs t \<in> S then insert t ?A else ?A)"
    using assms by auto
  moreover have "{u. u < MAX_VTHREADS \<and> (pcs(t := p)) u \<in> S} = (if p \<in> S then insert t ?A else ?A)"
    using assms by auto
  ultimately show ?thesis using fin by (simp add: count_at_def)
qed

lemma count_at_pos: "t < MAX_VTHREADS \<Longrightarrow> pcs t \<in> S \<Longrightarrow> 0 < count_at pcs S"
  by (auto simp: count_at_def card_gt_0_iff)

lemma count_at_0: "count_at pcs S = 0 \<Longrightarrow> t < MAX_VTHREADS \<Longrightarrow> pcs t \<notin> S"
  using count_at_pos [of t pcs S] by auto

text \<open>
  A lock word and the threads past its acquisition: it is 0 and there are none, or it is 1 and
  there is exactly one.
\<close>

definition sole :: "('p \<Rightarrow> bool) \<Rightarrow> (nat \<Rightarrow> 'p) \<Rightarrow> c_uint \<Rightarrow> bool" where
  "sole P pcs w \<longleftrightarrow> (w = 0 \<and> (\<forall>t. \<not> P (pcs t))) \<or> (w = 1 \<and> (\<exists>t. P (pcs t) \<and> (\<forall>u. P (pcs u) \<longrightarrow> u = t)))"

lemma sole_keep: "sole P pcs w \<Longrightarrow> P p = P (pcs t) \<Longrightarrow> sole P (pcs(t := p)) w"
  unfolding sole_def by (auto split: if_splits)

lemma sole_take: "sole P pcs 0 \<Longrightarrow> P p \<Longrightarrow> sole P (pcs(t := p)) 1"
  unfolding sole_def by auto

lemma sole_drop: "sole P pcs w \<Longrightarrow> P (pcs t) \<Longrightarrow> \<not> P p \<Longrightarrow> sole P (pcs(t := p)) 0"
  unfolding sole_def by auto

lemma sole_other: "sole P pcs w \<Longrightarrow> P (pcs t) \<Longrightarrow> u \<noteq> t \<Longrightarrow> \<not> P (pcs u)"
  unfolding sole_def by auto

end
