(* ===== verification/HMutex.thy ===== *)
theory HMutex
  imports VTypes HSpin
begin

text \<open>
  The mutex of \<open>inc/strategy.h\<close> as it is built (\<open>SPIN_LOCK_STYLE\<close>): one test-and-set word,
  the field \<open>c\<close> of \<open>hthread_mutex_t\<close>.  A thread that does not get it yields to its worker and
  tries again when it is resumed.
\<close>

section \<open>Operations\<close>

datatype mutex_pc = ML_test_and_set

definition pthread_mutex_lock_step :: "c_uint \<Rightarrow> mutex_pc action \<times> c_uint" where
  "pthread_mutex_lock_step c = (case sync_lock_test_and_set c 1 of (old, c') \<Rightarrow>
     (if old \<noteq> 0 then Yield STATUS_LOCKFAIL ML_test_and_set else Return 0, c'))"

definition pthread_mutex_trylock :: "c_uint \<Rightarrow> c_uint \<times> c_uint" where
  "pthread_mutex_trylock c = (case sync_lock_test_and_set c 1 of (old, c') \<Rightarrow>
     (if 0 = old then 0 else EBUSY, c'))"

definition pthread_mutex_unlock :: "c_uint \<Rightarrow> c_uint \<times> c_uint" where
  "pthread_mutex_unlock c = (0, sync_lock_release c)"

section \<open>Several threads on one mutex\<close>

text \<open>
  \<open>holders\<close> records the threads between a successful call and their unlock; \<open>waiting\<close> those
  inside \<open>pthread_mutex_lock\<close>.  A thread unlocks only a mutex it holds.
\<close>

record mutex_sys =
  mutex_c :: c_uint
  holders :: "nat list"
  waiting :: "nat set"

datatype mutex_event = MLock nat | MTry nat | MUnlock nat

fun mutex_step :: "mutex_event \<Rightarrow> mutex_sys \<Rightarrow> mutex_sys" where
  "mutex_step (MLock t) s = (case pthread_mutex_lock_step (mutex_c s) of (act, c) \<Rightarrow>
     if returns act then s\<lparr>mutex_c := c, holders := t # holders s, waiting := waiting s - {t}\<rparr>
     else s\<lparr>mutex_c := c, waiting := insert t (waiting s)\<rparr>)"
| "mutex_step (MTry t) s =
     (if t \<in> waiting s then s
      else case pthread_mutex_trylock (mutex_c s) of (r, c) \<Rightarrow>
        s\<lparr>mutex_c := c, holders := (if r = 0 then t # holders s else holders s)\<rparr>)"
| "mutex_step (MUnlock t) s =
     (if t \<in> set (holders s)
      then s\<lparr>mutex_c := snd (pthread_mutex_unlock (mutex_c s)), holders := remove1 t (holders s)\<rparr>
      else s)"

definition mutex_init :: mutex_sys where
  "mutex_init = \<lparr>mutex_c = 0, holders = [], waiting = {}\<rparr>"

section \<open>The mutex as a lock word\<close>

definition mutex_attempt :: "c_uint \<Rightarrow> bool \<times> c_uint" where
  "mutex_attempt c = (case pthread_mutex_trylock c of (r, c') \<Rightarrow> (r = 0, c'))"

definition mutex_release :: "c_uint \<Rightarrow> c_uint" where
  "mutex_release c = snd (pthread_mutex_unlock c)"

interpretation mutex: test_and_set_lock mutex_attempt mutex_release
  by unfold_locales
    (auto simp: mutex_attempt_def mutex_release_def pthread_mutex_trylock_def
      pthread_mutex_unlock_def sync_defs)

text \<open>A step of \<open>pthread_mutex_lock\<close> is an attempt like \<open>pthread_mutex_trylock\<close>.\<close>

lemma lock_step_attempt:
  "pthread_mutex_lock_step c =
     (if fst (mutex_attempt c) then Return 0 else Yield STATUS_LOCKFAIL ML_test_and_set,
      snd (mutex_attempt c))"
  by (simp add: pthread_mutex_lock_step_def mutex_attempt_def pthread_mutex_trylock_def sync_defs)

fun lock_events :: "mutex_event \<Rightarrow> mutex_sys \<Rightarrow> nat lock_event list" where
  "lock_events (MLock t) s = [Attempt t]"
| "lock_events (MTry t) s = (if t \<in> waiting s then [] else [Attempt t])"
| "lock_events (MUnlock t) s = [Release t]"

lemma mutex_step_refines:
  "run (lock_event_step mutex_attempt mutex_release) (lock_events e s) (mutex_c s, holders s) =
     (mutex_c (mutex_step e s), holders (mutex_step e s))"
  by (cases e)
    (auto simp: lock_step_attempt mutex_attempt_def mutex_release_def split: prod.splits)

lemma mutex_run_exclusive:
  "exclusive (mutex_c (run mutex_step es mutex_init), holders (run mutex_step es mutex_init))"
proof (rule run_invariant [of "\<lambda>s. exclusive (mutex_c s, holders s)"])
  fix e and s :: mutex_sys assume "exclusive (mutex_c s, holders s)"
  then show "exclusive (mutex_c (mutex_step e s), holders (mutex_step e s))"
    unfolding mutex_step_refines [symmetric] by (rule mutex.run_exclusive)
qed (simp add: exclusive_def mutex_init_def)

section \<open>Properties\<close>

text \<open>
  C8. Mutual exclusion of \<open>pthread_mutex_lock\<close>, \<open>pthread_mutex_trylock\<close> and
  \<open>pthread_mutex_unlock\<close>: in every interleaving at most one thread holds the mutex, and the
  word is 0 exactly when nobody does.
\<close>

theorem mutex_mutual_exclusion:
  fixes es :: "mutex_event list"
  defines "s \<equiv> run mutex_step es mutex_init"
  shows "length (holders s) \<le> 1 \<and> (mutex_c s = 0 \<longleftrightarrow> holders s = []) \<and>
     (mutex_c s = 1 \<longleftrightarrow> holders s \<noteq> [])"
  using mutex_run_exclusive [of es] by (auto simp: exclusive_def s_def)

text \<open>
  A waiter is never shut out by a stale word: once the mutex has been unlocked, the next
  attempt of any thread, waiting or new, returns 0 with the mutex taken, while an attempt on a
  taken mutex leaves it taken and makes the thread yield (or return \<open>EBUSY\<close>).
\<close>

theorem mutex_attempt_outcome:
  "pthread_mutex_lock_step (snd (pthread_mutex_unlock c)) = (Return 0, 1) \<and>
   pthread_mutex_trylock (snd (pthread_mutex_unlock c)) = (0, 1) \<and>
   pthread_mutex_lock_step 1 = (Yield STATUS_LOCKFAIL ML_test_and_set, 1) \<and>
   pthread_mutex_trylock 1 = (EBUSY, 1)"
  by (simp add: pthread_mutex_lock_step_def pthread_mutex_unlock_def pthread_mutex_trylock_def sync_defs)

end
