(* ===== verification/HSem.thy ===== *)
theory HSem
  imports VTypes
begin

text \<open>
  The semaphore of \<open>inc/strategy.h\<close>: \<open>sem_trywait\<close>, \<open>sem_wait\<close> and \<open>sem_post\<close> on the
  counter of \<open>hthread_sem_t\<close>.  A thread first looks at the counter, then decrements it, and
  puts the unit back if somebody was faster.
\<close>

section \<open>Operations\<close>

datatype sem_pc = Sem_check | Sem_take | Sem_give_back

text \<open>
  One step of \<open>sem_trywait\<close>; \<open>sem_wait\<close> runs it in a loop and yields to its worker after
  each failure.
\<close>

definition sem_trywait_step :: "sem_pc \<Rightarrow> c_uint \<Rightarrow> sem_pc action \<times> c_uint" where
  "sem_trywait_step pc c =
     (case pc of
        Sem_check \<Rightarrow> (if sint c \<le> 0 then Return EBUSY else Go Sem_take, c)
      | Sem_take \<Rightarrow> (case sync_fetch_and_add c (-1) of (old, c') \<Rightarrow>
          (if sint old \<le> 0 then Go Sem_give_back else Return 0, c'))
      | Sem_give_back \<Rightarrow> (Return EBUSY, snd (sync_fetch_and_add c 1)))"

definition sem_wait_step :: "sem_pc \<Rightarrow> c_uint \<Rightarrow> sem_pc action \<times> c_uint" where
  "sem_wait_step pc c = (case sem_trywait_step pc c of (act, c') \<Rightarrow>
     (case act of
        Return r \<Rightarrow> if r \<noteq> 0 then Yield STATUS_LOCKFAIL Sem_check else Return 0
      | Go pc' \<Rightarrow> Go pc'
      | Yield r pc' \<Rightarrow> Yield r pc', c'))"

definition sem_post :: "c_uint \<Rightarrow> c_uint \<times> c_uint" where
  "sem_post c = (0, snd (sync_fetch_and_add c 1))"

section \<open>Several threads on one semaphore\<close>

text \<open>
  A thread is outside, or at a program point of \<open>sem_wait\<close> (\<open>True\<close>) or \<open>sem_trywait\<close>
  (\<open>False\<close>).  \<open>taken\<close> counts the calls that returned 0, \<open>posts\<close> the calls of \<open>sem_post\<close>.
\<close>

record sem_sys =
  sem_c :: c_uint
  sem_pcs :: "nat \<Rightarrow> (bool \<times> sem_pc) option"
  taken :: nat
  posts :: nat

datatype sem_event = SemWait nat | SemTryWait nat | SemStep nat | SemPost

fun sem_step :: "sem_event \<Rightarrow> sem_sys \<Rightarrow> sem_sys" where
  "sem_step (SemWait t) s =
     (if t < MAX_VTHREADS \<and> sem_pcs s t = None
      then s\<lparr>sem_pcs := (sem_pcs s)(t := Some (True, Sem_check))\<rparr> else s)"
| "sem_step (SemTryWait t) s =
     (if t < MAX_VTHREADS \<and> sem_pcs s t = None
      then s\<lparr>sem_pcs := (sem_pcs s)(t := Some (False, Sem_check))\<rparr> else s)"
| "sem_step (SemStep t) s =
     (case sem_pcs s t of
        None \<Rightarrow> s
      | Some (blocking, pc) \<Rightarrow>
          if t < MAX_VTHREADS then
            (case (if blocking then sem_wait_step else sem_trywait_step) pc (sem_c s) of (act, c) \<Rightarrow>
               s\<lparr>sem_c := c,
                 sem_pcs := (sem_pcs s)(t := map_option (Pair blocking) (continue_at act)),
                 taken := (if act = Return 0 then Suc (taken s) else taken s)\<rparr>)
          else s)"
| "sem_step SemPost s = s\<lparr>sem_c := snd (sem_post (sem_c s)), posts := Suc (posts s)\<rparr>"

definition sem_init :: "nat \<Rightarrow> sem_sys" where
  "sem_init n = \<lparr>sem_c = of_nat n, sem_pcs = (\<lambda>_. None), taken = 0, posts = 0\<rparr>"

text \<open>Threads that have decremented the counter and are about to put the unit back.\<close>

abbreviation giving_back :: "sem_sys \<Rightarrow> nat" where
  "giving_back s \<equiv> count_at (sem_pcs s) {Some (True, Sem_give_back), Some (False, Sem_give_back)}"

text \<open>The counter, as long as initial value and posts stay below \<open>2\<^sup>3\<^sup>1\<close>.\<close>

definition sem_inv :: "nat \<Rightarrow> sem_sys \<Rightarrow> bool" where
  "sem_inv n s \<longleftrightarrow>
     (n + posts s < 2 ^ 31 \<longrightarrow>
        taken s \<le> n + posts s \<and>
        sint (sem_c s) = int n + int (posts s) - int (taken s) - int (giving_back s))"

lemma sem_inv_init: "n < 2 ^ 31 \<Longrightarrow> sem_inv n (sem_init n)"
  by (simp add: sem_inv_def sem_init_def count_at_def sint_of_nat_in_range)

lemma sint_post: "sint (c :: c_uint) < 2 ^ 31 - 1 \<Longrightarrow> sint (c + 1) = sint c + 1"
  using sint_greater_eq [of c] by (subst sint_add_in_range) auto

lemma sint_take: "- (2 ^ 31) < sint (c :: c_uint) \<Longrightarrow> sint (c - 1) = sint c - 1"
  using sint_lt [of c] sint_add_in_range [of c "-1"] by auto

text \<open>One step of either operation, with the program point as the system records it.\<close>

lemma sem_either_step:
  "(if b then sem_wait_step else sem_trywait_step) pc c =
     (case pc of
        Sem_check \<Rightarrow> (if sint c \<le> 0 then (if b then Yield STATUS_LOCKFAIL Sem_check else Return EBUSY)
          else Go Sem_take, c)
      | Sem_take \<Rightarrow> (if sint c \<le> 0 then Go Sem_give_back else Return 0, c - 1)
      | Sem_give_back \<Rightarrow> (if b then Yield STATUS_LOCKFAIL Sem_check else Return EBUSY, c + 1))"
  by (cases pc) (auto simp: sem_wait_step_def sem_trywait_step_def sync_defs)

lemma sem_inv_thread_step:
  assumes inv: "sem_inv n s" shows "sem_inv n (sem_step (SemStep t) s)"
proof (cases "n + posts s < 2 ^ 31 \<and> t < MAX_VTHREADS \<and> sem_pcs s t \<noteq> None")
  case False
  with inv show ?thesis
    by (auto simp: sem_inv_def split: option.splits prod.splits)
next
  case True
  then obtain b pc where pc: "sem_pcs s t = Some (b, pc)" and t: "t < MAX_VTHREADS" by fastforce
  let ?S = "{Some (True, Sem_give_back), Some (False, Sem_give_back)}"
  have val: "sint (sem_c s) = int n + int (posts s) - int (taken s) - int (giving_back s)"
    and le: "taken s \<le> n + posts s"
    using inv True by (auto simp: sem_inv_def)
  have few: "giving_back s \<le> 660" using count_at_le [of "sem_pcs s" ?S] by (simp add: MAX_VTHREADS_def)
  note upd = count_at_upd [OF t, of "sem_pcs s" _ ?S]
  show ?thesis
  proof (cases pc)
    case Sem_check
    have "count_at ((sem_pcs s)(t := q)) ?S = giving_back s" if "q \<notin> ?S" for q
      using upd [of q] pc Sem_check that by auto
    then show ?thesis
      using inv pc t Sem_check by (auto simp: sem_inv_def sem_either_step)
  next
    case Sem_take
    have "- (2 ^ 31) < sint (sem_c s)" using val few le by simp
    then have dec: "sint (sem_c s - 1) = sint (sem_c s) - 1" by (rule sint_take)
    show ?thesis
      using upd [of None] upd [of "Some (b, Sem_give_back)"] pc t Sem_take dec val le True
      by (cases b) (auto simp: sem_inv_def sem_either_step)
  next
    case Sem_give_back
    have "0 < giving_back s" using count_at_pos [OF t, of "sem_pcs s" ?S] pc Sem_give_back by (cases b) auto
    then have "sint (sem_c s) < 2 ^ 31 - 1" using val True by simp
    then have inc: "sint (sem_c s + 1) = sint (sem_c s) + 1" by (rule sint_post)
    show ?thesis
      using upd [of None] upd [of "Some (b, Sem_check)"] pc t Sem_give_back inc val le True
      by (cases b) (auto simp: sem_inv_def sem_either_step)
  qed
qed

lemma sem_inv_step: "sem_inv n s \<Longrightarrow> sem_inv n (sem_step e s)"
proof (cases e)
  case (SemStep t)
  then show "sem_inv n s \<Longrightarrow> ?thesis" using sem_inv_thread_step by blast
next
  case SemPost
  assume inv: "sem_inv n s"
  show ?thesis
  proof (cases "n + Suc (posts s) < 2 ^ 31")
    case True
    then have "sint (sem_c s) < 2 ^ 31 - 1" using inv by (auto simp: sem_inv_def)
    from sint_post [OF this] True inv SemPost show ?thesis
      by (auto simp: sem_inv_def sem_post_def sync_defs)
  qed (use SemPost in \<open>auto simp: sem_inv_def\<close>)
next
  case (SemWait t)
  assume "sem_inv n s"
  then show ?thesis
    using SemWait count_at_upd [of t "sem_pcs s" "Some (True, Sem_check)"
        "{Some (True, Sem_give_back), Some (False, Sem_give_back)}"]
    by (auto simp: sem_inv_def)
next
  case (SemTryWait t)
  assume "sem_inv n s"
  then show ?thesis
    using SemTryWait count_at_upd [of t "sem_pcs s" "Some (False, Sem_check)"
        "{Some (True, Sem_give_back), Some (False, Sem_give_back)}"]
    by (auto simp: sem_inv_def)
qed

lemma sem_inv_run: "n < 2 ^ 31 \<Longrightarrow> sem_inv n (run sem_step es (sem_init n))"
  by (rule run_invariant [of "sem_inv n"]) (rule sem_inv_step, assumption, rule sem_inv_init)

section \<open>Properties\<close>

text \<open>
  C16. The semaphore never hands out more units than there are: for any interleaving of waiting,
  trying and posting threads in which the initial value and the posts stay below \<open>2\<^sup>3\<^sup>1\<close>,
  the successful waits are at most the initial value plus the posts, and the counter is what is
  left, less one for each thread that is about to put a unit back.
\<close>

theorem sem_conserves_units:
  fixes n es defines "s \<equiv> run sem_step es (sem_init n)"
  assumes "n + posts s < 2 ^ 31"
  shows "taken s \<le> n + posts s \<and>
     sint (sem_c s) = int (n + posts s - taken s) - int (giving_back s)"
proof -
  have "sem_inv n s" unfolding s_def by (rule sem_inv_run) (use assms in simp)
  with assms(2) show ?thesis by (auto simp: sem_inv_def)
qed

theorem sem_conserves_units_witness:
  "let s = run sem_step [SemWait 0, SemTryWait 1, SemStep 0, SemStep 1, SemStep 0, SemStep 1] (sem_init 1) in
     taken s = 1 \<and> giving_back s = 1 \<and> taken s \<le> 1 + posts s \<and> sint (sem_c s) = -1"
proof -
  let ?es = "[SemWait 0, SemTryWait 1, SemStep 0, SemStep 1, SemStep 0, SemStep 1]"
  let ?s = "run sem_step ?es (sem_init 1)"
  have s: "?s = \<lparr>sem_c = -1, sem_pcs = (\<lambda>_. None)(1 := Some (False, Sem_give_back)), taken = 1, posts = 0\<rparr>"
    by (simp add: sem_init_def sem_either_step MAX_VTHREADS_def fun_eq_iff)
  have "taken ?s \<le> 1 + posts ?s \<and> sint (sem_c ?s) = int (1 + posts ?s - taken ?s) - int (giving_back ?s)"
    by (rule sem_conserves_units) (simp only: s, simp)
  moreover have "giving_back ?s = 1"
    unfolding s using count_at_upd [of 1 "\<lambda>_. None" "Some (False, Sem_give_back)"
      "{Some (True, Sem_give_back), Some (False, Sem_give_back)}"]
    by (simp add: MAX_VTHREADS_def count_at_def)
  ultimately show ?thesis unfolding Let_def s by simp
qed

text \<open>
  No unit is lost: when no call is inside the operation, the counter is exactly the units
  that were put in and not taken, and it has not gone negative.
\<close>

theorem sem_quiescent_value:
  fixes n es defines "s \<equiv> run sem_step es (sem_init n)"
  assumes "n + posts s < 2 ^ 31" and "\<And>t. sem_pcs s t = None"
  shows "sint (sem_c s) = int (n + posts s) - int (taken s) \<and> 0 \<le> sint (sem_c s)"
proof -
  have "sem_inv n s" unfolding s_def by (rule sem_inv_run) (use assms in simp)
  moreover have "giving_back s = 0" using assms(3) by (simp add: count_at_def)
  ultimately show ?thesis using assms(2) by (auto simp: sem_inv_def)
qed

theorem sem_quiescent_value_witness:
  "let s = run sem_step [SemPost, SemWait 7, SemStep 7, SemStep 7] (sem_init 2) in
     sint (sem_c s) = 2 \<and> 0 \<le> sint (sem_c s)"
proof -
  let ?es = "[SemPost, SemWait 7, SemStep 7, SemStep 7]"
  have s: "run sem_step ?es (sem_init 2) = \<lparr>sem_c = 2, sem_pcs = (\<lambda>_. None), taken = 1, posts = 1\<rparr>"
    by (simp add: sem_init_def sem_either_step sem_post_def sync_defs MAX_VTHREADS_def fun_eq_iff)
  show ?thesis using sem_quiescent_value [of 2 ?es] unfolding s Let_def by simp
qed

end
