(* ===== verification/HRWLock.thy ===== *)
theory HRWLock
  imports VTypes
begin

text \<open>
  The read-write lock of \<open>src/hthread.cpp\<close>: a reader count \<open>r\<close> and the writer \<open>w\<close>
  (\<open>hthread_rwlock_t\<close> of \<open>inc/htypes.hpp\<close>).  Readers announce themselves and then look for a
  writer, writers announce themselves and then look for readers.  \<open>me\<close> is the current virtual
  thread, \<^const>\<open>None\<close> (the null pointer) for a call from a kernel thread of the program.
\<close>

section \<open>Operations\<close>

record hthread_rwlock =
  rw_r :: c_uint
  rw_w :: "nat option"

definition pthread_rwlock_init :: "hthread_rwlock \<Rightarrow> hthread_rwlock" where
  "pthread_rwlock_init hrw = hrw\<lparr>rw_r := 0, rw_w := None\<rparr>"

datatype rw_pc =
    RD_wait | RD_inc | RD_check | RD_undo
  | TR_test | TR_inc | TR_check | TR_undo
  | WR_readers | WR_writer | WR_cas | WR_check | WR_undo
  | TW_readers | TW_writer | TW_cas | TW_check | TW_undo
  | UN_test | UN_writer | UN_reader

definition pthread_rwlock_tryrdlock_step :: "rw_pc \<Rightarrow> hthread_rwlock \<Rightarrow> rw_pc action \<times> hthread_rwlock" where
  "pthread_rwlock_tryrdlock_step pc hrw =
     (case pc of
        TR_test \<Rightarrow> (if rw_w hrw \<noteq> None then Return EBUSY else Go TR_inc, hrw)
      | TR_inc \<Rightarrow> (Go TR_check, hrw\<lparr>rw_r := snd (sync_fetch_and_add (rw_r hrw) 1)\<rparr>)
      | TR_check \<Rightarrow> (if rw_w hrw = None then Return 0 else Go TR_undo, hrw)
      | TR_undo \<Rightarrow> (Return EBUSY, hrw\<lparr>rw_r := snd (sync_fetch_and_add (rw_r hrw) (-1))\<rparr>)
      | _ \<Rightarrow> (Go pc, hrw))"

definition pthread_rwlock_rdlock_step :: "rw_pc \<Rightarrow> hthread_rwlock \<Rightarrow> rw_pc action \<times> hthread_rwlock" where
  "pthread_rwlock_rdlock_step pc hrw =
     (case pc of
        RD_wait \<Rightarrow> (if rw_w hrw \<noteq> None then Yield STATUS_SUSPENDED RD_wait else Go RD_inc, hrw)
      | RD_inc \<Rightarrow> (Go RD_check, hrw\<lparr>rw_r := snd (sync_fetch_and_add (rw_r hrw) 1)\<rparr>)
      | RD_check \<Rightarrow> (if rw_w hrw = None then Return 0 else Go RD_undo, hrw)
      | RD_undo \<Rightarrow> (Go RD_wait, hrw\<lparr>rw_r := snd (sync_fetch_and_add (rw_r hrw) (-1))\<rparr>)
      | _ \<Rightarrow> (Go pc, hrw))"

definition pthread_rwlock_trywrlock_step ::
  "nat option \<Rightarrow> rw_pc \<Rightarrow> hthread_rwlock \<Rightarrow> rw_pc action \<times> hthread_rwlock" where
  "pthread_rwlock_trywrlock_step me pc hrw =
     (case pc of
        TW_readers \<Rightarrow> (if rw_r hrw \<noteq> 0 then Return EBUSY else Go TW_writer, hrw)
      | TW_writer \<Rightarrow> (if rw_w hrw \<noteq> None then Return EBUSY else Go TW_cas, hrw)
      | TW_cas \<Rightarrow> (case sync_bool_compare_and_swap (rw_w hrw) None me of (ok, w) \<Rightarrow>
          (if ok then Go TW_check else Return EBUSY, hrw\<lparr>rw_w := w\<rparr>))
      | TW_check \<Rightarrow> (if rw_r hrw = 0 then Return 0 else Go TW_undo, hrw)
      | TW_undo \<Rightarrow> (Return EBUSY, hrw\<lparr>rw_w := None\<rparr>)
      | _ \<Rightarrow> (Go pc, hrw))"

definition pthread_rwlock_wrlock_step ::
  "nat option \<Rightarrow> rw_pc \<Rightarrow> hthread_rwlock \<Rightarrow> rw_pc action \<times> hthread_rwlock" where
  "pthread_rwlock_wrlock_step me pc hrw =
     (case pc of
        WR_readers \<Rightarrow> (if rw_r hrw \<noteq> 0 then Yield STATUS_SUSPENDED WR_readers else Go WR_writer, hrw)
      | WR_writer \<Rightarrow> (if rw_w hrw \<noteq> None then Yield STATUS_SUSPENDED WR_readers else Go WR_cas, hrw)
      | WR_cas \<Rightarrow> (case sync_bool_compare_and_swap (rw_w hrw) None me of (ok, w) \<Rightarrow>
          (if ok then Go WR_check else Yield STATUS_SUSPENDED WR_readers, hrw\<lparr>rw_w := w\<rparr>))
      | WR_check \<Rightarrow> (if rw_r hrw = 0 then Return 0 else Go WR_undo, hrw)
      | WR_undo \<Rightarrow> (Go WR_readers, hrw\<lparr>rw_w := None\<rparr>)
      | _ \<Rightarrow> (Go pc, hrw))"

text \<open>\<open>pthread_rwlock_unlock\<close> has no \<open>return\<close> statement: its result is \<open>junk\<close>.\<close>

definition pthread_rwlock_unlock_step ::
  "c_uint \<Rightarrow> nat option \<Rightarrow> rw_pc \<Rightarrow> hthread_rwlock \<Rightarrow> rw_pc action \<times> hthread_rwlock" where
  "pthread_rwlock_unlock_step junk me pc hrw =
     (case pc of
        UN_test \<Rightarrow> (if rw_w hrw = me then Go UN_writer else Go UN_reader, hrw)
      | UN_writer \<Rightarrow> (Return junk, hrw\<lparr>rw_w := None\<rparr>)
      | UN_reader \<Rightarrow> (Return junk, hrw\<lparr>rw_r := snd (sync_fetch_and_add (rw_r hrw) (-1))\<rparr>)
      | _ \<Rightarrow> (Go pc, hrw))"

section \<open>Several threads on one lock\<close>

text \<open>
  Where a thread is with respect to the lock: outside, inside with read or write access, or at
  a program point of an operation that acquires it or gives the access back.
\<close>

datatype rw_where =
    Outside | Reading | Writing
  | AcqRead rw_pc | AcqWrite rw_pc | RelRead rw_pc | RelWrite rw_pc

datatype rw_call = RdLock | TryRdLock | WrLock | TryWrLock | Unlock

fun rw_enter :: "rw_call \<Rightarrow> rw_where \<Rightarrow> rw_where" where
  "rw_enter RdLock Outside = AcqRead RD_wait"
| "rw_enter TryRdLock Outside = AcqRead TR_test"
| "rw_enter WrLock Outside = AcqWrite WR_readers"
| "rw_enter TryWrLock Outside = AcqWrite TW_readers"
| "rw_enter Unlock Reading = RelRead UN_test"
| "rw_enter Unlock Writing = RelWrite UN_test"
| "rw_enter _ loc = loc"

definition rw_read_step :: "rw_pc \<Rightarrow> hthread_rwlock \<Rightarrow> rw_pc action \<times> hthread_rwlock" where
  "rw_read_step pc = (if pc \<in> {RD_wait, RD_inc, RD_check, RD_undo}
     then pthread_rwlock_rdlock_step pc else pthread_rwlock_tryrdlock_step pc)"

definition rw_write_step :: "nat option \<Rightarrow> rw_pc \<Rightarrow> hthread_rwlock \<Rightarrow> rw_pc action \<times> hthread_rwlock" where
  "rw_write_step me pc = (if pc \<in> {WR_readers, WR_writer, WR_cas, WR_check, WR_undo}
     then pthread_rwlock_wrlock_step me pc else pthread_rwlock_trywrlock_step me pc)"

fun rw_after :: "(rw_pc \<Rightarrow> rw_where) \<Rightarrow> rw_where \<Rightarrow> rw_pc action \<Rightarrow> rw_where" where
  "rw_after at got (Go pc) = at pc"
| "rw_after at got (Yield _ pc) = at pc"
| "rw_after at got (Return r) = (if r = 0 then got else Outside)"

fun rw_thread_step :: "nat option \<Rightarrow> rw_where \<Rightarrow> hthread_rwlock \<Rightarrow> rw_where \<times> hthread_rwlock" where
  "rw_thread_step me (AcqRead pc) hrw =
     (case rw_read_step pc hrw of (act, hrw') \<Rightarrow> (rw_after AcqRead Reading act, hrw'))"
| "rw_thread_step me (AcqWrite pc) hrw =
     (case rw_write_step me pc hrw of (act, hrw') \<Rightarrow> (rw_after AcqWrite Writing act, hrw'))"
| "rw_thread_step me (RelRead pc) hrw =
     (case pthread_rwlock_unlock_step 0 me pc hrw of (act, hrw') \<Rightarrow> (rw_after RelRead Outside act, hrw'))"
| "rw_thread_step me (RelWrite pc) hrw =
     (case pthread_rwlock_unlock_step 0 me pc hrw of (act, hrw') \<Rightarrow> (rw_after RelWrite Outside act, hrw'))"
| "rw_thread_step me loc hrw = (loc, hrw)"

record rw_sys =
  rwlock :: hthread_rwlock
  rw_locs :: "nat \<Rightarrow> rw_where"

text \<open>
  The threads are virtual threads: thread \<open>t\<close> runs with \<open>me = Some t\<close>.
\<close>

datatype rw_event = RwCall nat rw_call | RwStep nat

fun rw_step :: "(nat \<Rightarrow> nat option) \<Rightarrow> rw_event \<Rightarrow> rw_sys \<Rightarrow> rw_sys" where
  "rw_step me (RwCall t call) s =
     (if t < MAX_VTHREADS then s\<lparr>rw_locs := (rw_locs s)(t := rw_enter call (rw_locs s t))\<rparr> else s)"
| "rw_step me (RwStep t) s =
     (if t < MAX_VTHREADS then
        (case rw_thread_step (me t) (rw_locs s t) (rwlock s) of (loc, hrw) \<Rightarrow>
           s\<lparr>rwlock := hrw, rw_locs := (rw_locs s)(t := loc)\<rparr>)
      else s)"

definition rw_init :: rw_sys where
  "rw_init = \<lparr>rwlock = \<lparr>rw_r = 0, rw_w = None\<rparr>, rw_locs = (\<lambda>_. Outside)\<rparr>"

section \<open>Invariant\<close>

text \<open>The places at which a thread is counted in \<open>r\<close>, and at which \<open>w\<close> is the thread.\<close>

definition counted :: "rw_where set" where
  "counted = {Reading, AcqRead RD_check, AcqRead RD_undo, AcqRead TR_check, AcqRead TR_undo,
     RelRead UN_test, RelRead UN_reader}"

definition announced :: "rw_where set" where
  "announced = {Writing, AcqWrite WR_check, AcqWrite WR_undo, AcqWrite TW_check, AcqWrite TW_undo,
     RelWrite UN_test, RelWrite UN_writer}"

definition inside_read :: "rw_where set" where
  "inside_read = {Reading, RelRead UN_test, RelRead UN_reader}"

definition inside_write :: "rw_where set" where
  "inside_write = {Writing, RelWrite UN_test, RelWrite UN_writer}"

definition proper :: "rw_where set" where
  "proper = {Outside, Reading, Writing, RelRead UN_test, RelRead UN_reader, RelWrite UN_test,
     RelWrite UN_writer} \<union> AcqRead ` {RD_wait, RD_inc, RD_check, RD_undo, TR_test, TR_inc, TR_check, TR_undo}
     \<union> AcqWrite ` {WR_readers, WR_writer, WR_cas, WR_check, WR_undo,
         TW_readers, TW_writer, TW_cas, TW_check, TW_undo}"

lemmas rw_sets = counted_def announced_def inside_read_def inside_write_def proper_def

lemmas rw_op_defs = rw_read_step_def rw_write_step_def pthread_rwlock_rdlock_step_def
  pthread_rwlock_tryrdlock_step_def pthread_rwlock_wrlock_step_def pthread_rwlock_trywrlock_step_def
  pthread_rwlock_unlock_step_def

definition rw_inv :: "rw_sys \<Rightarrow> bool" where
  "rw_inv s \<longleftrightarrow>
     rw_r (rwlock s) = of_nat (count_at (rw_locs s) counted) \<and>
     (\<forall>t. rw_locs s t \<in> proper) \<and>
     (\<forall>t < MAX_VTHREADS. rw_w (rwlock s) = Some t \<longleftrightarrow> rw_locs s t \<in> announced) \<and>
     (\<forall>t \<ge> MAX_VTHREADS. rw_locs s t = Outside \<and> rw_w (rwlock s) \<noteq> Some t) \<and>
     \<not> (some_at (rw_locs s) inside_write \<and> some_at (rw_locs s) inside_read)"

lemma rw_inv_init: "rw_inv rw_init"
  by (auto simp: rw_inv_def rw_init_def rw_sets count_at_def some_at_def)

text \<open>
  What one step of one thread does, seen from outside: its change of the count is its move into
  or out of the counted places, its change of \<open>w\<close> its move into or out of the announced ones,
  it gets read access only when there is no writer and write access only when the count is 0.
\<close>

definition rw_effect :: "nat \<Rightarrow> rw_where \<Rightarrow> hthread_rwlock \<Rightarrow> rw_where \<Rightarrow> hthread_rwlock \<Rightarrow> bool" where
  "rw_effect t loc hrw loc' hrw' \<longleftrightarrow>
     loc' \<in> proper \<and>
     rw_r hrw' + of_bool (loc \<in> counted) = rw_r hrw + of_bool (loc' \<in> counted) \<and>
     (rw_w hrw' = Some t \<longleftrightarrow> loc' \<in> announced) \<and>
     (\<forall>u. u \<noteq> t \<longrightarrow> (rw_w hrw' = Some u \<longleftrightarrow> rw_w hrw = Some u)) \<and>
     (loc' \<in> inside_read \<longrightarrow> loc \<in> inside_read \<or> rw_w hrw = None) \<and>
     (loc' \<in> inside_write \<longrightarrow> loc \<in> inside_write \<or> (rw_r hrw = 0 \<and> rw_w hrw = Some t))"

lemma rw_thread_step_effect:
  assumes "loc \<in> proper" and "rw_w hrw = Some t \<longleftrightarrow> loc \<in> announced"
  shows "case rw_thread_step (Some t) loc hrw of (loc', hrw') \<Rightarrow> rw_effect t loc hrw loc' hrw'"
proof (cases loc)
  case (AcqRead pc)
  with assms show ?thesis
    by (cases pc; cases "rw_w hrw") (simp_all add: rw_effect_def rw_sets rw_op_defs sync_defs)
next
  case (AcqWrite pc)
  with assms show ?thesis
    by (cases pc; cases "rw_w hrw") (simp_all add: rw_effect_def rw_sets rw_op_defs sync_defs)
next
  case (RelRead pc)
  with assms show ?thesis
    by (cases pc) (simp_all add: rw_effect_def rw_sets rw_op_defs sync_defs)
next
  case (RelWrite pc)
  with assms show ?thesis
    by (cases pc) (auto simp: rw_effect_def rw_sets rw_op_defs sync_defs)
qed (use assms in \<open>simp_all add: rw_effect_def rw_sets\<close>)

lemma rw_enter_effect:
  assumes "loc \<in> proper"
  shows "rw_enter call loc \<in> proper" and "rw_enter call loc \<in> counted \<longleftrightarrow> loc \<in> counted"
    and "rw_enter call loc \<in> announced \<longleftrightarrow> loc \<in> announced"
    and "rw_enter call loc \<in> inside_read \<longleftrightarrow> loc \<in> inside_read"
    and "rw_enter call loc \<in> inside_write \<longleftrightarrow> loc \<in> inside_write"
  using assms by (cases call; cases loc; simp add: rw_sets)+

lemma rw_inv_call: "rw_inv s \<Longrightarrow> rw_inv (rw_step Some (RwCall t call) s)"
proof (cases "t < MAX_VTHREADS")
  case True
  assume inv: "rw_inv s"
  then have p: "rw_locs s t \<in> proper" by (simp add: rw_inv_def)
  have "count_at ((rw_locs s)(t := rw_enter call (rw_locs s t))) counted = count_at (rw_locs s) counted"
    using count_at_upd [OF True, of "rw_locs s" "rw_enter call (rw_locs s t)" counted]
      rw_enter_effect(2) [OF p] by simp
  with inv True show ?thesis
    using rw_enter_effect [OF p, of call] some_at_updD [of "rw_locs s" t "rw_enter call (rw_locs s t)"]
    unfolding rw_inv_def by auto
qed simp

lemma rw_inv_no_reader:
  assumes "rw_inv s" and "rw_r (rwlock s) = 0"
  shows "\<not> some_at (rw_locs s) counted"
proof -
  have le: "count_at (rw_locs s) counted \<le> 660"
    using count_at_le [of "rw_locs s" counted] by (simp add: MAX_VTHREADS_def)
  have "(of_nat (count_at (rw_locs s) counted) :: c_uint) = 0" using assms by (simp add: rw_inv_def)
  then have zero: "count_at (rw_locs s) counted = 0" using le
    by (simp add: word_of_nat_eq_0_iff) (use dvd_imp_le in fastforce)
  show ?thesis
  proof
    assume "some_at (rw_locs s) counted"
    then obtain u where u: "rw_locs s u \<in> counted" by (auto simp: some_at_def)
    then have "u < MAX_VTHREADS" using assms(1) by (auto simp: rw_inv_def counted_def not_less [symmetric])
    with u zero show False using count_at_0 by metis
  qed
qed

lemma rw_inv_no_writer:
  assumes "rw_inv s" and "rw_w (rwlock s) = None"
  shows "\<not> some_at (rw_locs s) announced"
proof
  assume "some_at (rw_locs s) announced"
  then obtain u where u: "rw_locs s u \<in> announced" by (auto simp: some_at_def)
  then have "u < MAX_VTHREADS" using assms(1) by (auto simp: rw_inv_def announced_def not_less [symmetric])
  with u assms show False by (simp add: rw_inv_def)
qed

lemma inside_subsets: "inside_read \<subseteq> counted" "inside_write \<subseteq> announced" "inside_read \<inter> inside_write = {}"
  by (auto simp: rw_sets)

lemma some_at_mono: "some_at pcs S \<Longrightarrow> S \<subseteq> T \<Longrightarrow> some_at pcs T"
  by (auto simp: some_at_def)

lemma rw_inv_exclusion_step:
  assumes inv: "rw_inv s" and eff: "rw_effect t (rw_locs s t) (rwlock s) loc hrw"
  shows "\<not> (some_at ((rw_locs s)(t := loc)) inside_write \<and> some_at ((rw_locs s)(t := loc)) inside_read)"
proof
  assume both: "some_at ((rw_locs s)(t := loc)) inside_write \<and> some_at ((rw_locs s)(t := loc)) inside_read"
  have old: "\<not> (some_at (rw_locs s) inside_write \<and> some_at (rw_locs s) inside_read)"
    using inv by (simp add: rw_inv_def)
  have r: "loc \<in> inside_read \<Longrightarrow> rw_locs s t \<in> inside_read \<or> rw_w (rwlock s) = None"
    and w: "loc \<in> inside_write \<Longrightarrow> rw_locs s t \<in> inside_write \<or> rw_r (rwlock s) = 0"
    using eff by (auto simp: rw_effect_def)
  note updW = some_at_updD [of "rw_locs s" t loc inside_write]
    and updR = some_at_updD [of "rw_locs s" t loc inside_read]
  have d: "loc \<in> inside_read \<Longrightarrow> loc \<notin> inside_write" using inside_subsets(3) by blast
  consider (reads) "loc \<in> inside_read" "rw_locs s t \<notin> inside_read" "rw_w (rwlock s) = None" "loc \<notin> inside_write"
    | (writes) "loc \<in> inside_write" "rw_locs s t \<notin> inside_write" "rw_r (rwlock s) = 0" "loc \<notin> inside_read"
    | (neither) "loc \<in> inside_read \<longrightarrow> rw_locs s t \<in> inside_read" "loc \<in> inside_write \<longrightarrow> rw_locs s t \<in> inside_write"
    using r w d by metis
  then show False
  proof cases
    case reads
    then have "some_at (rw_locs s) inside_write" using both updW by simp
    with rw_inv_no_writer [OF inv reads(3)] some_at_mono [OF _ inside_subsets(2)] show False by blast
  next
    case writes
    then have "some_at (rw_locs s) inside_read" using both updR by simp
    with rw_inv_no_reader [OF inv writes(3)] some_at_mono [OF _ inside_subsets(1)] show False by blast
  next
    case neither
    with both old show False using updW updR by simp
  qed
qed

lemma rw_inv_thread_step: "rw_inv s \<Longrightarrow> rw_inv (rw_step Some (RwStep t) s)"
proof (cases "t < MAX_VTHREADS")
  case True
  assume inv: "rw_inv s"
  obtain loc hrw where step: "rw_thread_step (Some t) (rw_locs s t) (rwlock s) = (loc, hrw)" by fastforce
  have eff: "rw_effect t (rw_locs s t) (rwlock s) loc hrw"
    using rw_thread_step_effect [of "rw_locs s t" "rwlock s" t] inv True step by (simp add: rw_inv_def)
  have "rw_r hrw = of_nat (count_at ((rw_locs s)(t := loc)) counted)"
  proof -
    have "rw_r hrw + of_bool (rw_locs s t \<in> counted) =
        of_nat (count_at (rw_locs s) counted + of_bool (loc \<in> counted))"
      using eff inv by (simp add: rw_effect_def rw_inv_def)
    also have "\<dots> = of_nat (count_at ((rw_locs s)(t := loc)) counted + of_bool (rw_locs s t \<in> counted))"
      by (simp only: count_at_upd [OF True, of "rw_locs s" loc counted])
    finally show ?thesis by simp
  qed
  with inv True step eff rw_inv_exclusion_step [OF inv eff] show ?thesis
    by (auto simp: rw_inv_def rw_effect_def)
qed simp

lemma rw_inv_run: "rw_inv (run (rw_step Some) es rw_init)"
proof (rule run_invariant [of rw_inv])
  show "rw_inv (rw_step Some e s)" if "rw_inv s" for e s
    using that rw_inv_call rw_inv_thread_step by (cases e) blast+
qed (rule rw_inv_init)

section \<open>Properties\<close>


text \<open>
  The lock comes back to its initial state: whenever no thread is inside an operation or
  holds access, the reader count is 0 and there is no writer, so the next reader and the next
  writer get in.
\<close>

theorem rwlock_released:
  fixes es defines "s \<equiv> run (rw_step Some) es rw_init"
  assumes "\<And>t. rw_locs s t = Outside"
  shows "rwlock s = \<lparr>rw_r = 0, rw_w = None\<rparr>"
proof -
  have inv: "rw_inv s" unfolding s_def by (rule rw_inv_run)
  have "count_at (rw_locs s) counted = 0" using assms(2) by (simp add: count_at_def counted_def)
  moreover have "rw_w (rwlock s) \<noteq> Some t" for t
    using inv assms(2) [of t] by (cases "t < MAX_VTHREADS") (auto simp: rw_inv_def announced_def)
  ultimately show ?thesis using inv by (cases "rwlock s") (auto simp: rw_inv_def)
qed

theorem rwlock_released_witness:
  "rwlock (run (rw_step Some)
     ([RwCall 3 WrLock, RwStep 3, RwStep 3, RwStep 3, RwStep 3] @ [RwCall 3 Unlock, RwStep 3, RwStep 3]) rw_init)
   = \<lparr>rw_r = 0, rw_w = None\<rparr>"
  by (rule rwlock_released)
    (simp add: rw_init_def MAX_VTHREADS_def rw_op_defs sync_defs)


end
