(* ===== verification/BoostQueue.thy ===== *)
theory BoostQueue
  imports VTypes
begin

text \<open>
  \<open>boost::lockfree::queue<vthread*>\<close> is third-party code: it is a parameter of the model, a
  record of its operations, and what the library relies on is the predicate
  \<open>boost_queue_laws\<close> (the documented behaviour: first in first out, \<open>push\<close> may fail and then
  changes nothing, \<open>pop\<close> fails exactly on an empty queue).  \<open>hlockfreequeue\<close> of
  \<open>inc/hlockfreequeue.hpp\<close> is the run queue built on it with \<open>HLOCKFREEQUEUE\<close>.
\<close>

record 'q boost_queue =
  bq_new :: "nat \<Rightarrow> 'q"
  bq_push :: "nat \<Rightarrow> 'q \<Rightarrow> bool \<times> 'q"
  bq_pop :: "'q \<Rightarrow> nat option \<times> 'q"

definition boost_queue_laws :: "'q boost_queue \<Rightarrow> ('q \<Rightarrow> nat list) \<Rightarrow> bool" where
  "boost_queue_laws bq contents \<longleftrightarrow>
     (\<forall>n. contents (bq_new bq n) = []) \<and>
     (\<forall>v q. case bq_push bq v q of
        (ok, q') \<Rightarrow> contents q' = (if ok then contents q @ [v] else contents q)) \<and>
     (\<forall>q. case bq_pop bq q of
        (None, q') \<Rightarrow> contents q = [] \<and> contents q' = []
      | (Some v, q') \<Rightarrow> contents q = v # contents q')"

lemma bq_new_contents: "boost_queue_laws bq contents \<Longrightarrow> contents (bq_new bq n) = []"
  by (simp add: boost_queue_laws_def)

lemma bq_push_contents:
  "boost_queue_laws bq contents \<Longrightarrow> bq_push bq v q = (ok, q') \<Longrightarrow>
     contents q' = (if ok then contents q @ [v] else contents q)"
  unfolding boost_queue_laws_def by (metis (mono_tags, lifting) case_prod_conv)

lemma bq_pop_Some:
  "boost_queue_laws bq contents \<Longrightarrow> bq_pop bq q = (Some v, q') \<Longrightarrow> contents q = v # contents q'"
  unfolding boost_queue_laws_def
  by (metis (mono_tags, lifting) case_prod_conv option.simps(5))

lemma bq_pop_None:
  "boost_queue_laws bq contents \<Longrightarrow> bq_pop bq q = (None, q') \<Longrightarrow> contents q = [] \<and> contents q' = []"
  unfolding boost_queue_laws_def
  by (metis (mono_tags, lifting) case_prod_conv option.simps(4))

lemmas bq_contents = bq_new_contents bq_push_contents bq_pop_Some bq_pop_None

text \<open>A concrete queue with the documented behaviour: a list of bounded capacity.\<close>

definition bounded_list_queue :: "(nat \<times> nat list) boost_queue" where
  "bounded_list_queue =
     \<lparr>bq_new = (\<lambda>n. (n, [])),
      bq_push = (\<lambda>v (n, xs). if length xs < n then (True, n, xs @ [v]) else (False, n, xs)),
      bq_pop = (\<lambda>(n, xs). case xs of [] \<Rightarrow> (None, n, xs) | x # ys \<Rightarrow> (Some x, n, ys))\<rparr>"

lemma bounded_list_queue_laws: "boost_queue_laws bounded_list_queue snd"
  by (auto simp: boost_queue_laws_def bounded_list_queue_def split: list.splits if_splits)

section \<open>\<open>hlockfreequeue\<close>\<close>

text \<open>
  A round of the loop of \<open>enqueue\<close> and of \<open>dequeue\<close>: the call ends, or the caller sleeps for
  the current time and goes round with the next one.  C's precedence makes the right-hand
  side of the assignment \<open>(t << 1) | (1 & 0x000000FF)\<close>.
\<close>

definition hlq_backoff :: "c_uint \<Rightarrow> c_uint" where
  "hlq_backoff t = push_bit 1 t OR (1 AND 0x000000FF)"

datatype 'r round = Done 'r | Usleep_then c_uint c_uint

definition hlq_try_dequeue :: "'q boost_queue \<Rightarrow> 'q \<Rightarrow> nat option \<times> 'q" where
  "hlq_try_dequeue bq q = bq_pop bq q"

definition hlq_try_enqueue :: "'q boost_queue \<Rightarrow> nat \<Rightarrow> 'q \<Rightarrow> bool \<times> 'q" where
  "hlq_try_enqueue bq item q = bq_push bq item q"

definition hlq_enqueue_round :: "'q boost_queue \<Rightarrow> nat \<Rightarrow> c_uint \<Rightarrow> 'q \<Rightarrow> unit round \<times> 'q" where
  "hlq_enqueue_round bq item t q = (case bq_push bq item q of
     (True, q') \<Rightarrow> (Done (), q')
   | (False, q') \<Rightarrow> (Usleep_then t (hlq_backoff t), q'))"

definition hlq_dequeue_round :: "'q boost_queue \<Rightarrow> c_uint \<Rightarrow> 'q \<Rightarrow> nat round \<times> 'q" where
  "hlq_dequeue_round bq t q = (case hlq_try_dequeue bq q of
     (Some v, q') \<Rightarrow> (Done v, q')
   | (None, q') \<Rightarrow> (Usleep_then t (hlq_backoff t), q'))"

text \<open>
  A call of \<open>dequeue\<close> while the rest of the program changes the queue: \<open>qs\<close> are the queue
  states the rounds of the loop find.  The result is the value taken, if the call ends within
  these rounds, and the times slept.
\<close>

fun hlq_dequeue :: "'q boost_queue \<Rightarrow> c_uint \<Rightarrow> 'q list \<Rightarrow> nat option \<times> c_uint list" where
  "hlq_dequeue bq t [] = (None, [])"
| "hlq_dequeue bq t (q # qs) = (case fst (hlq_dequeue_round bq t q) of
     Done v \<Rightarrow> (Some v, [])
   | Usleep_then us t' \<Rightarrow> (case hlq_dequeue bq t' qs of (r, sleeps) \<Rightarrow> (r, us # sleeps)))"

lemma hlq_backoff_eq: "hlq_backoff t = 2 * t + 1"
  by (simp add: hlq_backoff_def or_one_eq push_bit_eq_mult mult.commute)

lemma hlq_backoff_power: "(hlq_backoff ^^ k) 1 = 2 ^ Suc k - 1"
proof (induction k)
  case (Suc k)
  have "(hlq_backoff ^^ Suc k) 1 = 2 * (2 ^ Suc k - 1) + 1" 
    unfolding funpow.simps comp_apply Suc hlq_backoff_eq [of "2 ^ Suc k - 1"] ..
  then show ?case by simp
qed simp

lemma hlq_dequeue_sleeps:
  assumes laws: "boost_queue_laws bq contents" and empty: "\<forall>q \<in> set qs. contents q = []"
    and full: "contents q = v # vs"
  shows "hlq_dequeue bq t (qs @ q # rest) =
    (Some v, map (\<lambda>k. (hlq_backoff ^^ k) t) [0..<length qs])"
  using empty
proof (induction qs arbitrary: t)
  case Nil
  obtain q' where "bq_pop bq q = (Some v, q')"
    using bq_pop_Some [OF laws, of q] bq_pop_None [OF laws, of q] full
    by (metis list.distinct(1) list.inject not_None_eq old.prod.exhaust)
  then show ?case by (simp add: hlq_dequeue_round_def hlq_try_dequeue_def)
next
  case (Cons p qs)
  obtain p' where "bq_pop bq p = (None, p')"
    using bq_pop_Some [OF laws, of p] Cons.prems
    by (metis list.distinct(1) list.set_intros(1) not_None_eq old.prod.exhaust)
  moreover have "map (\<lambda>k. (hlq_backoff ^^ k) t) [0..<length (p # qs)] =
      t # map (\<lambda>k. (hlq_backoff ^^ k) (hlq_backoff t)) [0..<length qs]"
    by (simp add: upt_conv_Cons map_Suc_upt [symmetric] funpow_swap1 del: upt_Suc)
  ultimately show ?case using Cons
    by (simp add: hlq_dequeue_round_def hlq_try_dequeue_def)
qed

section \<open>Properties\<close>

text \<open>
  \<open>hlockfreequeue::dequeue\<close> returns the oldest element of the queue in the first round
  that finds one, and the \<open>k\<close>-th round that finds none sleeps \<open>2 ^ (k + 1) - 1\<close>
  microseconds modulo \<open>2 ^ 32\<close>: the mask \<open>0x000000FF\<close> binds to the constant 1 and does not
  bound the time, which passes 255 in the ninth round and reaches 71 minutes in the 32nd.
\<close>

theorem hlq_dequeue_backoff:
  assumes "boost_queue_laws bq contents" and "\<forall>q \<in> set qs. contents q = []"
    and "contents q = v # vs"
  shows "hlq_dequeue bq 1 (qs @ q # rest) = (Some v, map (\<lambda>k. 2 ^ Suc k - 1) [0..<length qs])"
  using hlq_dequeue_sleeps [OF assms] by (simp add: hlq_backoff_power)

theorem hlq_dequeue_backoff_witness:
  "boost_queue_laws bounded_list_queue snd \<and>
   hlq_dequeue bounded_list_queue 1 (replicate 9 (4, []) @ (4, [7, 8]) # []) =
     (Some 7, [1, 3, 7, 15, 31, 63, 127, 255, 511])"
  using hlq_dequeue_backoff [OF bounded_list_queue_laws,
      of "replicate 9 (4, [])" "(4, [7, 8])" 7 "[8]" "[]"]
  by (simp add: bounded_list_queue_laws upt_rec)

end
