(* ===== verification/HBarrier.thy ===== *)
theory HBarrier
  imports BoostQueue
begin

text \<open>
  The barrier of \<open>inc/strategy.h\<close> as it is built (\<open>BLOCKED_BARRIER\<close>): a thread that is not
  the last of its round puts itself into the queue of the round's parity and blocks; the last
  one starts the next round and hands the others back to the run queue.
\<close>

section \<open>Operations\<close>

record 'q hthread_barrier =
  waiters :: c_uint
  cur_waiters :: c_uint
  cur_round :: c_uint
  blocked_vths :: "'q list"

definition pthread_barrier_init :: "'q boost_queue \<Rightarrow> c_uint \<Rightarrow> c_uint \<times> 'q hthread_barrier" where
  "pthread_barrier_init bq cnt =
     (0, \<lparr>waiters = cnt, cur_waiters = 0, cur_round = 0,
          blocked_vths = [bq_new bq (unat (push_bit 1 cnt)), bq_new bq (unat (push_bit 1 cnt))]\<rparr>)"

definition pthread_barrier_destroy :: "'q boost_queue \<Rightarrow> 'q hthread_barrier \<Rightarrow> c_uint \<times> 'q hthread_barrier" where
  "pthread_barrier_destroy bq hb = pthread_barrier_init bq 0"

text \<open>
  Program points of \<open>pthread_barrier_wait\<close>, with the locals \<open>cur_round\<close>, \<open>cur_waiter\<close> and
  \<open>blocked_v\<close>: read the round, count in, then either clear \<open>runnable\<close>, push, block and return
  when resumed, or reset the count, start the next round and release the others.
\<close>

datatype barrier_pc =
    B_round | B_add c_uint
  | B_runnable c_uint | B_push c_uint | B_block c_uint | B_woken c_uint
  | B_cas c_uint c_uint | B_next c_uint c_uint
  | B_loop c_uint c_uint | B_pop c_uint c_uint | B_enqueue c_uint c_uint nat

fun pthread_barrier_wait_step ::
  "'q boost_queue \<Rightarrow> nat \<Rightarrow> barrier_pc \<Rightarrow> 'q hthread_barrier \<Rightarrow>
     barrier_pc action \<times> 'q hthread_barrier \<times> effect list" where
  "pthread_barrier_wait_step bq me B_round hb = (Go (B_add (cur_round hb)), hb, [])"
| "pthread_barrier_wait_step bq me (B_add r) hb =
     (case sync_add_and_fetch (cur_waiters hb) 1 of (cw, m) \<Rightarrow>
        (Go (if cw \<noteq> waiters hb then B_runnable r else B_cas r cw), hb\<lparr>cur_waiters := m\<rparr>, []))"
| "pthread_barrier_wait_step bq me (B_runnable r) hb = (Go (B_push r), hb, [Set_runnable me False])"
| "pthread_barrier_wait_step bq me (B_push r) hb =
     (case bq_push bq me (blocked_vths hb ! unat (1 AND r)) of (ok, q) \<Rightarrow>
        (Go (if ok then B_block r else B_push r),
         hb\<lparr>blocked_vths := (blocked_vths hb)[unat (1 AND r) := q]\<rparr>, []))"
| "pthread_barrier_wait_step bq me (B_block r) hb = (Yield STATUS_BLOCKED (B_woken r), hb, [])"
| "pthread_barrier_wait_step bq me (B_woken r) hb = (Return 0, hb, [])"
| "pthread_barrier_wait_step bq me (B_cas r cw) hb =
     (Go (B_next r cw),
      hb\<lparr>cur_waiters := snd (sync_bool_compare_and_swap (cur_waiters hb) cw 0)\<rparr>, [])"
| "pthread_barrier_wait_step bq me (B_next r cw) hb =
     (Go (B_loop r cw), hb\<lparr>cur_round := snd (sync_add_and_fetch (cur_round hb) 1)\<rparr>, [])"
| "pthread_barrier_wait_step bq me (B_loop r cw) hb =
     (if sint (cw - 1) > 0 then Go (B_pop r (cw - 1)) else Return PTHREAD_BARRIER_SERIAL_THREAD,
      hb, [])"
| "pthread_barrier_wait_step bq me (B_pop r cw) hb =
     (case bq_pop bq (blocked_vths hb ! unat (1 AND r)) of (v, q) \<Rightarrow>
        ((case v of Some blocked_v \<Rightarrow> Go (B_enqueue r cw blocked_v)
          | None \<Rightarrow> Yield STATUS_SUSPENDED (B_pop r cw)),
         hb\<lparr>blocked_vths := (blocked_vths hb)[unat (1 AND r) := q]\<rparr>, []))"
| "pthread_barrier_wait_step bq me (B_enqueue r cw v) hb = (Go (B_loop r cw), hb, [Enqueue v])"

section \<open>A barrier and its participants\<close>

text \<open>
  Virtual threads \<open>0, \<dots>, waiters - 1\<close> call \<open>pthread_barrier_wait\<close> over and over.  A thread
  that has blocked goes on only after it was put into the run queue (\<open>ready\<close>).  \<open>rounds\<close>,
  \<open>arrived\<close>, \<open>left_of\<close> and \<open>serials\<close> count started rounds, arrivals and returns of a thread,
  and returns of \<open>PTHREAD_BARRIER_SERIAL_THREAD\<close>; the code does not have them.
\<close>

record 'q barrier_sys =
  hb :: "'q hthread_barrier"
  b_pc :: "nat \<Rightarrow> barrier_pc option"
  ready :: "nat set"
  rounds :: nat
  arrived :: "nat \<Rightarrow> nat"
  left_of :: "nat \<Rightarrow> nat"
  serials :: nat

datatype barrier_event = BarrierWait nat | BarrierStep nat

fun enqueued :: "effect list \<Rightarrow> nat set" where
  "enqueued [] = {}"
| "enqueued (Enqueue v # es) = insert v (enqueued es)"
| "enqueued (_ # es) = enqueued es"

fun is_add :: "barrier_pc \<Rightarrow> bool" where
  "is_add (B_add _) = True" | "is_add _ = False"

fun is_next :: "barrier_pc \<Rightarrow> bool" where
  "is_next (B_next _ _) = True" | "is_next _ = False"

fun is_woken :: "barrier_pc \<Rightarrow> bool" where
  "is_woken (B_woken _) = True" | "is_woken _ = False"

definition barrier_do :: "'q boost_queue \<Rightarrow> nat \<Rightarrow> barrier_pc \<Rightarrow> 'q barrier_sys \<Rightarrow> 'q barrier_sys" where
  "barrier_do bq t pc s = (case pthread_barrier_wait_step bq t pc (hb s) of (act, hb', es) \<Rightarrow>
     s\<lparr>hb := hb',
       b_pc := (b_pc s)(t := continue_at act),
       ready := (if is_woken pc then ready s - {t} else ready s) \<union> enqueued es,
       rounds := rounds s + of_bool (is_next pc),
       arrived := (arrived s)(t := arrived s t + of_bool (is_add pc)),
       left_of := (left_of s)(t := left_of s t + of_bool (returns act)),
       serials := serials s + of_bool (act = Return PTHREAD_BARRIER_SERIAL_THREAD)\<rparr>)"

fun barrier_step :: "'q boost_queue \<Rightarrow> barrier_event \<Rightarrow> 'q barrier_sys \<Rightarrow> 'q barrier_sys" where
  "barrier_step bq (BarrierWait t) s =
     (if b_pc s t = None \<and> t < unat (waiters (hb s)) then s\<lparr>b_pc := (b_pc s)(t := Some B_round)\<rparr> else s)"
| "barrier_step bq (BarrierStep t) s =
     (case b_pc s t of
        None \<Rightarrow> s
      | Some pc \<Rightarrow> if is_woken pc \<and> t \<notin> ready s then s else barrier_do bq t pc s)"

definition barrier_start :: "'q boost_queue \<Rightarrow> c_uint \<Rightarrow> 'q barrier_sys" where
  "barrier_start bq cnt =
     \<lparr>hb = snd (pthread_barrier_init bq cnt), b_pc = (\<lambda>_. None), ready = {},
      rounds = 0, arrived = (\<lambda>_. 0), left_of = (\<lambda>_. 0), serials = 0\<rparr>"

section \<open>The barrier invariant\<close>

text \<open>Groups of program points and the locals the invariant speaks about.\<close>

fun past_add :: "barrier_pc \<Rightarrow> bool" where
  "past_add B_round = False" | "past_add (B_add _) = False" | "past_add _ = True"

fun queued :: "barrier_pc \<Rightarrow> bool" where
  "queued (B_block _) = True" | "queued (B_woken _) = True" | "queued _ = False"

fun blocking :: "barrier_pc \<Rightarrow> bool" where
  "blocking (B_runnable _) = True" | "blocking (B_push _) = True"
| "blocking (B_block _) = True" | "blocking (B_woken _) = True" | "blocking _ = False"

fun closing :: "barrier_pc \<Rightarrow> bool" where
  "closing (B_cas _ _) = True" | "closing (B_next _ _) = True" | "closing _ = False"

fun releasing :: "barrier_pc \<Rightarrow> bool" where
  "releasing (B_loop _ _) = True" | "releasing (B_pop _ _) = True"
| "releasing (B_enqueue _ _ _) = True" | "releasing _ = False"

fun local_round :: "barrier_pc \<Rightarrow> c_uint \<Rightarrow> bool" where
  "local_round B_round k \<longleftrightarrow> True"
| "local_round (B_add r) k \<longleftrightarrow> r = k" | "local_round (B_runnable r) k \<longleftrightarrow> r = k"
| "local_round (B_push r) k \<longleftrightarrow> r = k" | "local_round (B_block r) k \<longleftrightarrow> r = k"
| "local_round (B_woken r) k \<longleftrightarrow> r = k"
| "local_round (B_cas r cw) k \<longleftrightarrow> r = k" | "local_round (B_next r cw) k \<longleftrightarrow> r = k"
| "local_round (B_loop r cw) k \<longleftrightarrow> r = k" | "local_round (B_pop r cw) k \<longleftrightarrow> r = k"
| "local_round (B_enqueue r cw v) k \<longleftrightarrow> r = k"

text \<open>The releases a releasing thread still owes, and the thread it holds.\<close>

fun owed :: "barrier_pc \<Rightarrow> nat \<Rightarrow> bool" where
  "owed (B_loop r cw) n \<longleftrightarrow> unat cw = Suc n"
| "owed (B_pop r cw) n \<longleftrightarrow> unat cw = n \<and> 0 < n"
| "owed (B_enqueue r cw v) n \<longleftrightarrow> unat cw = n \<and> 0 < n"
| "owed _ n \<longleftrightarrow> True"

fun holds :: "barrier_pc \<Rightarrow> nat \<Rightarrow> bool" where
  "holds (B_enqueue r cw v) u \<longleftrightarrow> u = v"
| "holds _ u \<longleftrightarrow> False"

definition at :: "(barrier_pc \<Rightarrow> bool) \<Rightarrow> 'q barrier_sys \<Rightarrow> nat \<Rightarrow> bool" where
  "at P s t \<longleftrightarrow> (case b_pc s t of None \<Rightarrow> False | Some pc \<Rightarrow> P pc)"

text \<open>
  The threads counted into the current round, those of the previous round not yet handed
  back, and those that must be in the queue of either round.
\<close>

definition counted :: "nat \<Rightarrow> 'q barrier_sys \<Rightarrow> nat set" where
  "counted n s = {t. t < n \<and> arrived s t = Suc (rounds s)}"

definition unreleased :: "nat \<Rightarrow> 'q barrier_sys \<Rightarrow> nat set" where
  "unreleased n s = {t. t < n \<and> Suc (left_of s t) = rounds s \<and> at blocking s t \<and> t \<notin> ready s}"

definition queued_now :: "nat \<Rightarrow> 'q barrier_sys \<Rightarrow> nat set" where
  "queued_now n s = {t. t < n \<and> left_of s t = rounds s \<and> at queued s t}"

definition queued_before :: "nat \<Rightarrow> 'q barrier_sys \<Rightarrow> nat set" where
  "queued_before n s = {t. t < n \<and> Suc (left_of s t) = rounds s \<and> at queued s t \<and> t \<notin> ready s \<and>
     (\<forall>u. \<not> at (\<lambda>pc. holds pc t) s u)}"

abbreviation queue_of :: "('q \<Rightarrow> nat list) \<Rightarrow> nat \<Rightarrow> 'q barrier_sys \<Rightarrow> nat list" where
  "queue_of contents k s \<equiv> contents (blocked_vths (hb s) ! (k mod 2))"

text \<open>What holds of one thread.\<close>

definition thread_ok :: "'q barrier_sys \<Rightarrow> nat \<Rightarrow> bool" where
  "thread_ok s t \<longleftrightarrow>
     arrived s t = left_of s t + of_bool (at past_add s t) \<and>
     (\<forall>pc. b_pc s t = Some pc \<longrightarrow> local_round pc (of_nat (left_of s t))) \<and>
     (left_of s t = rounds s \<or> Suc (left_of s t) = rounds s) \<and>
     (\<not> at past_add s t \<or> at closing s t \<longrightarrow> left_of s t = rounds s) \<and>
     (at releasing s t \<longrightarrow> Suc (left_of s t) = rounds s) \<and>
     (t \<in> ready s \<longrightarrow> Suc (left_of s t) = rounds s \<and> at queued s t)"

text \<open>What holds of the thread that closes or releases a round.\<close>

definition leads :: "'q barrier_sys \<Rightarrow> nat \<Rightarrow> bool" where
  "leads s t \<longleftrightarrow> at closing s t \<or> at releasing s t"

definition one_leader :: "'q barrier_sys \<Rightarrow> bool" where
  "one_leader s \<longleftrightarrow> (\<forall>t u. leads s t \<longrightarrow> leads s u \<longrightarrow> t = u)"

definition closing_iff_full :: "nat \<Rightarrow> 'q barrier_sys \<Rightarrow> bool" where
  "closing_iff_full n s \<longleftrightarrow> ((\<exists>t. at closing s t) \<longleftrightarrow> counted n s = {..<n})"

definition debt_ok :: "nat \<Rightarrow> 'q barrier_sys \<Rightarrow> bool" where
  "debt_ok n s \<longleftrightarrow> (\<forall>t. at releasing s t \<longrightarrow> at (\<lambda>pc. owed pc (card (unreleased n s))) s t)"

definition no_debt :: "nat \<Rightarrow> 'q barrier_sys \<Rightarrow> bool" where
  "no_debt n s \<longleftrightarrow> (\<exists>t. at releasing s t) \<or> unreleased n s = {}"

definition held_ok :: "nat \<Rightarrow> 'q barrier_sys \<Rightarrow> bool" where
  "held_ok n s \<longleftrightarrow> (\<forall>t u. at (\<lambda>pc. holds pc u) s t \<longrightarrow> u \<in> unreleased n s \<and> at queued s u)"

definition local_count_ok :: "nat \<Rightarrow> 'q barrier_sys \<Rightarrow> bool" where
  "local_count_ok n s \<longleftrightarrow>
     (\<forall>t r cw. b_pc s t = Some (B_cas r cw) \<or> b_pc s t = Some (B_next r cw) \<longrightarrow> unat cw = n)"

definition count_ok :: "nat \<Rightarrow> 'q barrier_sys \<Rightarrow> bool" where
  "count_ok n s \<longleftrightarrow>
     cur_waiters (hb s) = (if \<exists>t. at is_next s t then 0 else of_nat (card (counted n s)))"

definition leader_ok :: "nat \<Rightarrow> 'q barrier_sys \<Rightarrow> bool" where
  "leader_ok n s \<longleftrightarrow> one_leader s \<and> closing_iff_full n s \<and> debt_ok n s \<and> no_debt n s \<and>
     held_ok n s \<and> local_count_ok n s \<and> count_ok n s"

definition queues_ok :: "('q \<Rightarrow> nat list) \<Rightarrow> nat \<Rightarrow> 'q barrier_sys \<Rightarrow> bool" where
  "queues_ok contents n s \<longleftrightarrow>
     distinct (queue_of contents (rounds s) s) \<and>
     set (queue_of contents (rounds s) s) = queued_now n s \<and>
     distinct (queue_of contents (Suc (rounds s)) s) \<and>
     set (queue_of contents (Suc (rounds s)) s) = queued_before n s"

definition serials_ok :: "'q barrier_sys \<Rightarrow> bool" where
  "serials_ok s \<longleftrightarrow> serials s + of_bool (\<exists>t. at releasing s t) = rounds s"

definition words_ok :: "nat \<Rightarrow> 'q barrier_sys \<Rightarrow> bool" where
  "words_ok n s \<longleftrightarrow>
     unat (waiters (hb s)) = n \<and> 0 < n \<and> n < 2 ^ 31 \<and> length (blocked_vths (hb s)) = 2 \<and>
     cur_round (hb s) = of_nat (rounds s) \<and> (\<forall>t. n \<le> t \<longrightarrow> b_pc s t = None)"

definition barrier_inv :: "('q \<Rightarrow> nat list) \<Rightarrow> nat \<Rightarrow> 'q barrier_sys \<Rightarrow> bool" where
  "barrier_inv contents n s \<longleftrightarrow>
     words_ok n s \<and> (\<forall>t<n. thread_ok s t) \<and> leader_ok n s \<and> queues_ok contents n s \<and> serials_ok s"

lemma at_upd:
  "b_pc s' = (b_pc s)(t := x) \<Longrightarrow>
     at P s' u = (if u = t then (case x of None \<Rightarrow> False | Some pc \<Rightarrow> P pc) else at P s u)"
  by (simp add: at_def)

lemma at_Some: "b_pc s t = Some pc \<Longrightarrow> at P s t = P pc"
  by (simp add: at_def)

lemma at_None: "b_pc s t = None \<Longrightarrow> \<not> at P s t"
  by (simp add: at_def)

lemma at_mono: "at P s t \<Longrightarrow> (\<And>pc. P pc \<Longrightarrow> Q pc) \<Longrightarrow> at Q s t"
  by (simp add: at_def split: option.splits)

lemma is_next_closing: "at is_next s t \<Longrightarrow> at closing s t"
  by (erule at_mono) (auto elim: is_next.elims)

lemma queued_blocking: "at queued s t \<Longrightarrow> at blocking s t"
  by (erule at_mono) (auto elim: queued.elims)

lemma holds_releasing: "at (\<lambda>pc. holds pc u) s t \<Longrightarrow> at releasing s t"
  by (erule at_mono) (auto elim: holds.elims)

text \<open>
  A step that keeps the thread in its group of program points and changes nothing the
  invariant reads.
\<close>

lemma barrier_inv_same_group:
  assumes inv: "barrier_inv contents n s"
    and pc: "b_pc s' = (b_pc s)(t := Some pc)" and t: "t < n"
    and group: "at past_add s t = past_add pc" "at queued s t = queued pc"
      "at blocking s t = blocking pc" "at closing s t = closing pc" "\<not> closing pc"
      "at releasing s t = releasing pc" "\<not> releasing pc"
    and round: "local_round pc (of_nat (left_of s t))"
    and rest: "hb s' = hb s" "ready s' = ready s" "rounds s' = rounds s" "arrived s' = arrived s"
      "left_of s' = left_of s" "serials s' = serials s"
  shows "barrier_inv contents n s'"
proof -
  have at': "at P s' u = (if u = t then P pc else at P s u)" for P u
    using pc by (simp add: at_upd)
  have groups: "at past_add s' = at past_add s" "at queued s' = at queued s"
      "at blocking s' = at blocking s" "at closing s' = at closing s"
      "at releasing s' = at releasing s"
    using group by (auto simp: at' fun_eq_iff)
  have old: "\<not> at (\<lambda>pc. holds pc u) s t" "\<not> at is_next s t" for u
    using group is_next_closing [of s t] holds_releasing [of u s t] by auto
  have new: "\<not> holds pc u" "\<not> is_next pc" for u
    using group by (cases pc; simp)+
  have fns: "at (\<lambda>pc. holds pc u) s' = at (\<lambda>pc. holds pc u) s" "at is_next s' = at is_next s" for u
    using old new by (auto simp: at' fun_eq_iff)
  have sets: "counted n s' = counted n s" "unreleased n s' = unreleased n s"
      "queued_now n s' = queued_now n s" "queued_before n s' = queued_before n s"
    by (simp_all add: counted_def unreleased_def queued_now_def queued_before_def rest groups fns)
  have owed: "at releasing s u \<Longrightarrow> at (\<lambda>pc. owed pc k) s' u = at (\<lambda>pc. owed pc k) s u" for u k
    using group by (auto simp: at')
  have cas: "b_pc s' u = Some (B_cas r cw) \<or> b_pc s' u = Some (B_next r cw) \<Longrightarrow>
      b_pc s u = Some (B_cas r cw) \<or> b_pc s u = Some (B_next r cw)" for u r cw
    using pc group by (auto split: if_splits)
  have lead: "leader_ok n s" and threads: "\<And>u. u < n \<Longrightarrow> thread_ok s u"
    using inv by (auto simp: barrier_inv_def)
  have "one_leader s'" using lead by (simp add: leader_ok_def one_leader_def leads_def groups)
  moreover have "closing_iff_full n s'"
    using lead by (simp add: leader_ok_def closing_iff_full_def groups sets)
  moreover have "debt_ok n s'" using lead by (simp add: leader_ok_def debt_ok_def groups sets owed)
  moreover have "no_debt n s'" using lead by (simp add: leader_ok_def no_debt_def groups sets)
  moreover have "held_ok n s'" using lead by (simp add: leader_ok_def held_ok_def groups sets fns)
  moreover have "local_count_ok n s'" using lead cas unfolding leader_ok_def local_count_ok_def by meson
  moreover have "count_ok n s'" using lead by (simp add: leader_ok_def count_ok_def fns sets rest)
  ultimately have "leader_ok n s'" by (simp add: leader_ok_def)
  moreover have "thread_ok s' u" if "u < n" for u
    using threads [OF that] round pc unfolding thread_ok_def groups rest
    by (cases "u = t") simp_all
  moreover have "words_ok n s'" using inv t pc by (auto simp: barrier_inv_def words_ok_def rest)
  moreover have "queues_ok contents n s'" using inv by (simp add: barrier_inv_def queues_ok_def sets rest)
  moreover have "serials_ok s'" using inv by (simp add: barrier_inv_def serials_ok_def groups rest)
  ultimately show ?thesis by (simp add: barrier_inv_def)
qed

lemma barrier_invD:
  assumes "barrier_inv contents n s"
  shows "words_ok n s" "t < n \<Longrightarrow> thread_ok s t" "one_leader s" "closing_iff_full n s" "debt_ok n s"
    "no_debt n s" "held_ok n s" "local_count_ok n s" "count_ok n s" "queues_ok contents n s" "serials_ok s"
  using assms by (simp_all add: barrier_inv_def leader_ok_def)

lemma barrier_invI:
  assumes "words_ok n s" "\<And>t. t < n \<Longrightarrow> thread_ok s t" "one_leader s" "closing_iff_full n s"
    "debt_ok n s" "no_debt n s" "held_ok n s" "local_count_ok n s" "count_ok n s"
    "queues_ok contents n s" "serials_ok s"
  shows "barrier_inv contents n s"
  using assms by (simp add: barrier_inv_def leader_ok_def)

lemma at_lt: "words_ok n s \<Longrightarrow> at P s t \<Longrightarrow> t < n"
  by (auto simp: words_ok_def at_def not_less [symmetric] split: option.splits)

lemma finite_sets [simp]: "finite (counted n s)" "finite (unreleased n s)"
  by (simp_all add: counted_def unreleased_def)

lemma counted_sub: "counted n s \<subseteq> {..<n}"
  by (auto simp: counted_def)

lemma barrier_inv_add:
  assumes inv: "barrier_inv contents n s" and pc: "b_pc s t = Some (B_add r)"
  shows "barrier_inv contents n (barrier_do bq t (B_add r) s)"
proof -
  note D = barrier_invD [OF inv]
  have t: "t < n" using at_lt [OF D(1), of "\<lambda>_. True" t] pc by (simp add: at_def)
  have tok: "arrived s t = rounds s" "left_of s t = rounds s" "r = of_nat (rounds s)" "t \<notin> ready s"
    using D(2) [OF t] pc by (auto simp: thread_ok_def at_Some [OF pc])
  define full where "full \<longleftrightarrow> counted n s = {..<n} - {t}"
  have notin: "t \<notin> counted n s" by (simp add: counted_def tok)
  have no_closing: "\<not> at closing s u" for u
    using D(4) notin t by (auto simp: closing_iff_full_def)
  have no_next: "\<not> at is_next s u" for u
    using no_closing [of u] is_next_closing by blast
  have cw: "cur_waiters (hb s) = of_nat (card (counted n s))"
    using D(9) no_next by (simp add: count_ok_def)
  have sub: "counted n s \<subseteq> {..<n} - {t}" using notin counted_sub by auto
  have cn: "card ({..<n} - {t}) = n - 1" using t by simp
  have card: "full \<longleftrightarrow> Suc (card (counted n s)) = n"
  proof
    assume full
    then have "card (counted n s) = n - 1" using cn by (simp only: full_def)
    then show "Suc (card (counted n s)) = n" using t by linarith
  next
    assume "Suc (card (counted n s)) = n"
    then have "card (counted n s) = card ({..<n} - {t})" using cn by linarith
    then show full unfolding full_def using card_subset_eq [OF _ sub] by simp
  qed
  have le: "Suc (card (counted n s)) \<le> n"
    using card_mono [OF finite_Diff [OF finite_lessThan] sub] cn t by linarith
  have n: "n < 2 ^ 31" "unat (waiters (hb s)) = n" using D(1) by (simp_all add: words_ok_def)
  have "unat (of_nat (Suc (card (counted n s))) :: c_uint) = Suc (card (counted n s))"
    using le n by (intro unat_of_nat_small) simp
  then have "unat (cur_waiters (hb s) + 1) = Suc (card (counted n s))"
    by (simp only: cw of_nat_Suc add.commute)
  then have last: "cur_waiters (hb s) + 1 = waiters (hb s) \<longleftrightarrow> full"
    using n card by (simp only: word_unat_eq_iff)
  define pc' where "pc' = (if full then B_cas r (cur_waiters (hb s) + 1) else B_runnable r)"
  define s' where "s' = barrier_do bq t (B_add r) s"
  have f: "hb s' = (hb s)\<lparr>cur_waiters := cur_waiters (hb s) + 1\<rparr>"
      "b_pc s' = (b_pc s)(t := Some pc')" "arrived s' = (arrived s)(t := Suc (rounds s))"
      "left_of s' = left_of s" "rounds s' = rounds s" "ready s' = ready s" "serials s' = serials s"
    by (simp_all add: s'_def barrier_do_def pc'_def sync_defs last tok(1))
  have at': "at P s' u = (if u = t then P pc' else at P s u)" for P u
    by (simp add: f at_def)
  have counted': "counted n s' = insert t (counted n s)"
    using t by (auto simp: counted_def f)
  have holds': "at (\<lambda>pc. holds pc x) s' u \<longleftrightarrow> at (\<lambda>pc. holds pc x) s u" for x u
    by (simp add: at' pc'_def at_Some [OF pc])
  have queued': "at queued s' u \<longleftrightarrow> at queued s u" for u
    by (simp add: at' pc'_def at_Some [OF pc])
  have same: "unreleased n s' = unreleased n s" "queued_now n s' = queued_now n s"
      "queued_before n s' = queued_before n s"
    using tok(2) by (auto simp: unreleased_def queued_now_def queued_before_def holds' queued' f at' pc'_def
        at_Some [OF pc] split: if_splits)
  have leads': "leads s' u \<longleftrightarrow> leads s u \<or> (u = t \<and> full)" for u
    by (auto simp: leads_def at' pc'_def at_Some [OF pc])
  have rel': "at releasing s' u \<longleftrightarrow> at releasing s u" for u
    by (auto simp: at' pc'_def at_Some [OF pc])
  have no_rel: "\<not> at releasing s u" if full for u
  proof
    assume rel: "at releasing s u"
    then have u: "u < n" by (rule at_lt [OF D(1)])
    with rel D(2) [OF u] have "arrived s u \<noteq> Suc (rounds s)" "u \<noteq> t"
      by (auto simp: thread_ok_def at_Some [OF pc])
    then show False using that u by (auto simp: full_def counted_def)
  qed
  then have no_leads: "\<not> leads s u" if full for u using no_closing that by (simp add: leads_def)
  have "barrier_inv contents n s'"
  proof (rule barrier_invI)
    show "words_ok n s'" using D(1) t by (auto simp: words_ok_def f)
    show "thread_ok s' u" if "u < n" for u
      using D(2) [OF that] tok by (auto simp: thread_ok_def at' f pc'_def at_Some [OF pc])
    show "one_leader s'"
      using D(3) no_leads by (auto simp: one_leader_def leads')
    show "closing_iff_full n s'"
    proof -
      have "(\<exists>u. at closing s' u) \<longleftrightarrow> full" using no_closing by (auto simp: at' pc'_def)
      moreover have "insert t (counted n s) = {..<n} \<longleftrightarrow> full"
        using notin t by (auto simp: full_def)
      ultimately show ?thesis by (simp add: closing_iff_full_def counted')
    qed
    show "debt_ok n s'"
      using D(5) by (auto simp: debt_ok_def rel' same at' pc'_def at_Some [OF pc])
    show "no_debt n s'" using D(6) by (simp add: no_debt_def rel' same)
    show "held_ok n s'"
      using D(7) by (simp add: held_ok_def same holds' queued')
    show "local_count_ok n s'"
    proof -
      have "unat (cur_waiters (hb s) + 1) = n" if full using last n that by simp
      then show ?thesis using D(8) by (auto simp: local_count_ok_def f pc'_def)
    qed
    show "count_ok n s'"
    proof -
      have "\<not> at is_next s' u" for u using no_next by (simp add: at' pc'_def)
      then show ?thesis by (simp add: count_ok_def counted' notin cw f)
    qed
    show "queues_ok contents n s'"
      using D(10) unfolding queues_ok_def same by (simp add: f)
    show "serials_ok s'" using D(11) by (simp add: serials_ok_def rel' f)
  qed
  then show ?thesis by (simp add: s'_def)
qed

text \<open>The parity of a round selects the queue.\<close>

lemma unat_1_and: "unat (1 AND of_nat k :: c_uint) = k mod 2"
proof -
  have "unat ((of_nat k :: c_uint) AND 1) = unat (of_nat k :: c_uint) mod 2 ^ 1"
    by (rule unat_and_mask) simp
  also have "\<dots> = k mod 2" by (simp add: unat_of_nat mod_mod_cancel)
  finally show ?thesis by (simp add: and.commute)
qed

lemma parity:
  fixes l r :: nat
  assumes "l = r \<or> Suc l = r"
  shows "r mod 2 = l mod 2 \<longleftrightarrow> l = r" and "Suc r mod 2 = l mod 2 \<longleftrightarrow> Suc l = r"
  using assms by (auto simp: mod2_eq_if)

lemma barrier_inv_push:
  assumes inv: "barrier_inv contents n s" and pc: "b_pc s t = Some (B_push r)"
    and laws: "boost_queue_laws bq contents"
  shows "barrier_inv contents n (barrier_do bq t (B_push r) s)"
proof -
  note D = barrier_invD [OF inv]
  have t: "t < n" using at_lt [OF D(1), of "\<lambda>_. True" t] pc by (simp add: at_def)
  have tok: "left_of s t = rounds s \<or> Suc (left_of s t) = rounds s" "r = of_nat (left_of s t)" "t \<notin> ready s"
    using D(2) [OF t] pc by (auto simp: thread_ok_def at_Some [OF pc])
  have free: "\<not> at (\<lambda>pc. holds pc t) s u" for u
    using D(7) at_Some [OF pc, of queued] by (auto simp: held_ok_def)
  let ?i = "left_of s t mod 2"
  obtain ok q where push: "bq_push bq t (blocked_vths (hb s) ! ?i) = (ok, q)" by fastforce
  have q: "contents q = contents (blocked_vths (hb s) ! ?i) @ (if ok then [t] else [])"
    using bq_push_contents [OF laws push] by simp
  define pc' where "pc' = (if ok then B_block r else B_push r)"
  define s' where "s' = barrier_do bq t (B_push r) s"
  have f: "hb s' = (hb s)\<lparr>blocked_vths := (blocked_vths (hb s))[?i := q]\<rparr>"
      "b_pc s' = (b_pc s)(t := Some pc')" "arrived s' = arrived s"
      "left_of s' = left_of s" "rounds s' = rounds s" "ready s' = ready s" "serials s' = serials s"
    using push by (simp_all add: s'_def barrier_do_def pc'_def tok(2) unat_1_and)
  have at': "at P s' u = (if u = t then P pc' else at P s u)" for P u
    by (simp add: f at_def)
  have groups: "at past_add s' u = at past_add s u" "at blocking s' u = at blocking s u"
      "at closing s' u = at closing s u" "at releasing s' u = at releasing s u"
      "at is_next s' u = at is_next s u" "at (\<lambda>pc. holds pc x) s' u = at (\<lambda>pc. holds pc x) s u"
      "at queued s' u \<longleftrightarrow> at queued s u \<or> (u = t \<and> ok)"
      "at (\<lambda>pc. owed pc k) s' u = at (\<lambda>pc. owed pc k) s u" for u x k
    by (auto simp: at' pc'_def at_Some [OF pc])
  have sets: "counted n s' = counted n s" "unreleased n s' = unreleased n s"
    by (simp_all add: counted_def unreleased_def f groups)
  have now: "queued_now n s' = queued_now n s \<union> (if ok \<and> left_of s t = rounds s then {t} else {})"
    using t by (auto simp: queued_now_def f groups)
  have before: "queued_before n s' =
      queued_before n s \<union> (if ok \<and> Suc (left_of s t) = rounds s then {t} else {})"
    using t tok free by (auto simp: queued_before_def f groups)
  have new: "t \<notin> queued_now n s" "t \<notin> queued_before n s"
    by (simp_all add: queued_now_def queued_before_def at_Some [OF pc])
  have "barrier_inv contents n s'"
  proof (rule barrier_invI)
    show "words_ok n s'" using D(1) t by (auto simp: words_ok_def f)
    show "thread_ok s' u" if "u < n" for u
      using D(2) [OF that] tok(2,3) pc by (auto simp: thread_ok_def groups f pc'_def)
    show "one_leader s'" using D(3) by (simp add: one_leader_def leads_def groups)
    show "closing_iff_full n s'" using D(4) by (simp add: closing_iff_full_def groups sets)
    show "debt_ok n s'" using D(5) by (simp add: debt_ok_def groups sets)
    show "no_debt n s'" using D(6) by (simp add: no_debt_def groups sets)
    show "held_ok n s'" using D(7) by (auto simp: held_ok_def groups sets)
    show "local_count_ok n s'" using D(8) by (auto simp: local_count_ok_def f pc'_def)
    show "count_ok n s'" using D(9) by (simp add: count_ok_def groups sets f)
    show "serials_ok s'" using D(11) by (simp add: serials_ok_def groups f)
    have len: "length (blocked_vths (hb s)) = 2" using D(1) by (simp add: words_ok_def)
    have at_i: "queue_of contents k s' =
        (if k mod 2 = ?i then queue_of contents k s @ (if ok then [t] else []) else queue_of contents k s)" for k
      using len q by (simp add: f)
    have par: "rounds s mod 2 = ?i \<longleftrightarrow> left_of s t = rounds s"
        "Suc (rounds s) mod 2 = ?i \<longleftrightarrow> Suc (left_of s t) = rounds s"
      by (rule parity [OF tok(1)])+
    show "queues_ok contents n s'"
      using D(10) new unfolding queues_ok_def now before at_i by (auto simp: f(5) par)
  qed
  then show ?thesis by (simp add: s'_def)
qed

lemma barrier_inv_woken:
  assumes inv: "barrier_inv contents n s" and pc: "b_pc s t = Some (B_woken r)" and rdy: "t \<in> ready s"
  shows "barrier_inv contents n (barrier_do bq t (B_woken r) s)"
proof -
  note D = barrier_invD [OF inv]
  have t: "t < n" using at_lt [OF D(1), of "\<lambda>_. True" t] pc by (simp add: at_def)
  have tok: "Suc (left_of s t) = rounds s" "arrived s t = Suc (left_of s t)"
    using D(2) [OF t] rdy by (auto simp: thread_ok_def at_Some [OF pc])
  define s' where "s' = barrier_do bq t (B_woken r) s"
  have f: "hb s' = hb s" "b_pc s' = (b_pc s)(t := None)" "arrived s' = arrived s"
      "left_of s' = (left_of s)(t := Suc (left_of s t))" "rounds s' = rounds s"
      "ready s' = ready s - {t}" "serials s' = serials s"
    by (simp_all add: s'_def barrier_do_def PTHREAD_BARRIER_SERIAL_THREAD_def)
  have at': "at P s' u = (u \<noteq> t \<and> at P s u)" for P u
    by (simp add: f at_def)
  have groups: "at closing s' u = at closing s u" "at releasing s' u = at releasing s u"
      "at is_next s' u = at is_next s u" "at (\<lambda>pc. holds pc x) s' u = at (\<lambda>pc. holds pc x) s u"
    for u x
    by (auto simp: at' at_Some [OF pc])
  have aq: "at queued s' u = (u \<noteq> t \<and> at queued s u)" "at blocking s' u = (u \<noteq> t \<and> at blocking s u)"
    for u by (simp_all add: at')
  have sets: "counted n s' = counted n s" "unreleased n s' = unreleased n s"
      "queued_now n s' = queued_now n s" "queued_before n s' = queued_before n s"
    using rdy tok by (auto simp: counted_def unreleased_def queued_now_def queued_before_def f aq groups)
  have "barrier_inv contents n s'"
  proof (rule barrier_invI)
    show "words_ok n s'" using D(1) t by (auto simp: words_ok_def f)
    show "thread_ok s' u" if "u < n" for u
      using D(2) [OF that] tok by (auto simp: thread_ok_def at' f)
    show "one_leader s'" using D(3) by (simp add: one_leader_def leads_def groups)
    show "closing_iff_full n s'" using D(4) by (simp add: closing_iff_full_def groups sets)
    show "debt_ok n s'" using D(5) by (auto simp: debt_ok_def at' sets)
    show "no_debt n s'" using D(6) by (simp add: no_debt_def groups sets)
    have "t \<notin> unreleased n s" using rdy by (simp add: unreleased_def)
    then show "held_ok n s'" using D(7) by (auto simp: held_ok_def groups sets aq)
    show "local_count_ok n s'" using D(8) by (auto simp: local_count_ok_def f)
    show "count_ok n s'" using D(9) by (simp add: count_ok_def groups sets f)
    show "serials_ok s'" using D(11) by (simp add: serials_ok_def groups f)
    show "queues_ok contents n s'" using D(10) by (simp add: queues_ok_def sets f)
  qed
  then show ?thesis by (simp add: s'_def)
qed

lemma barrier_inv_cas:
  assumes inv: "barrier_inv contents n s" and pc: "b_pc s t = Some (B_cas r cw)"
  shows "barrier_inv contents n (barrier_do bq t (B_cas r cw) s)"
proof -
  note D = barrier_invD [OF inv]
  have t: "t < n" using at_lt [OF D(1), of "\<lambda>_. True" t] pc by (simp add: at_def)
  have "at closing s t" by (simp add: at_Some [OF pc])
  then have full: "counted n s = {..<n}" using D(4) unfolding closing_iff_full_def by blast
  have lead: "leads s t" by (simp add: leads_def at_Some [OF pc])
  have no_next: "\<not> at is_next s u" for u
  proof
    assume "at is_next s u"
    then have "leads s u" by (simp add: leads_def is_next_closing)
    with D(3) lead have "u = t" by (simp add: one_leader_def)
    with \<open>at is_next s u\<close> show False by (simp add: at_Some [OF pc])
  qed
  have cw: "unat cw = n" using D(8) pc by (auto simp: local_count_ok_def)
  have eq: "cur_waiters (hb s) = cw"
  proof -
    have "cur_waiters (hb s) = of_nat n" using D(9) no_next full by (simp add: count_ok_def)
    moreover have "n < 2 ^ LENGTH(32)" using D(1) by (simp add: words_ok_def)
    ultimately show ?thesis using cw by (simp add: word_unat_eq_iff unat_of_nat_small)
  qed
  define s' where "s' = barrier_do bq t (B_cas r cw) s"
  have f: "hb s' = (hb s)\<lparr>cur_waiters := 0\<rparr>" "b_pc s' = (b_pc s)(t := Some (B_next r cw))"
      "arrived s' = arrived s" "left_of s' = left_of s" "rounds s' = rounds s"
      "ready s' = ready s" "serials s' = serials s"
    by (simp_all add: s'_def barrier_do_def eq sync_defs)
  have at': "at P s' u = (if u = t then P (B_next r cw) else at P s u)" for P u
    by (simp add: f at_def)
  have groups: "at past_add s' u = at past_add s u" "at blocking s' u = at blocking s u"
      "at closing s' u = at closing s u" "at releasing s' u = at releasing s u"
      "at queued s' u = at queued s u" "at (\<lambda>pc. holds pc x) s' u = at (\<lambda>pc. holds pc x) s u"
      "at (\<lambda>pc. owed pc k) s' u = at (\<lambda>pc. owed pc k) s u" for u x k
    by (auto simp: at' at_Some [OF pc])
  have sets: "counted n s' = counted n s" "unreleased n s' = unreleased n s"
      "queued_now n s' = queued_now n s" "queued_before n s' = queued_before n s"
    by (simp_all add: counted_def unreleased_def queued_now_def queued_before_def f groups)
  have "barrier_inv contents n s'"
  proof (rule barrier_invI)
    show "words_ok n s'" using D(1) t by (auto simp: words_ok_def f)
    show "thread_ok s' u" if "u < n" for u
      using D(2) [OF that] pc by (auto simp: thread_ok_def groups f)
    show "one_leader s'" using D(3) by (simp add: one_leader_def leads_def groups)
    show "closing_iff_full n s'" using D(4) by (simp add: closing_iff_full_def groups sets)
    show "debt_ok n s'" using D(5) by (simp add: debt_ok_def groups sets)
    show "no_debt n s'" using D(6) by (simp add: no_debt_def groups sets)
    show "held_ok n s'" using D(7) by (simp add: held_ok_def groups sets)
    show "local_count_ok n s'" using D(8) cw by (auto simp: local_count_ok_def f)
    show "count_ok n s'" by (auto simp: count_ok_def at' f)
    show "serials_ok s'" using D(11) by (simp add: serials_ok_def groups f)
    show "queues_ok contents n s'" using D(10) by (simp add: queues_ok_def sets f)
  qed
  then show ?thesis by (simp add: s'_def)
qed

lemma barrier_inv_next:
  assumes inv: "barrier_inv contents n s" and pc: "b_pc s t = Some (B_next r cw)"
  shows "barrier_inv contents n (barrier_do bq t (B_next r cw) s)"
proof -
  note D = barrier_invD [OF inv]
  have t: "t < n" using at_lt [OF D(1), of "\<lambda>_. True" t] pc by (simp add: at_def)
  have "at closing s t" by (simp add: at_Some [OF pc])
  then have full: "counted n s = {..<n}" using D(4) unfolding closing_iff_full_def by blast
  have lead: "leads s u \<longleftrightarrow> u = t" for u
    using D(3) \<open>at closing s t\<close> by (auto simp: one_leader_def leads_def)
  have "\<not> at releasing s t" by (simp add: at_Some [OF pc])
  then have only: "at closing s u \<longleftrightarrow> u = t" "\<not> at releasing s u" for u
    using lead [of u] \<open>at closing s t\<close> by (auto simp: leads_def)
  have arr: "arrived s u = Suc (rounds s)" if "u < n" for u
    using full that by (auto simp: counted_def)
  have all: "left_of s u = rounds s" "at past_add s u" "u \<notin> ready s" if "u < n" for u
  proof -
    have th: "arrived s u = left_of s u + of_bool (at past_add s u)"
        "left_of s u = rounds s \<or> Suc (left_of s u) = rounds s"
        "u \<in> ready s \<Longrightarrow> Suc (left_of s u) = rounds s"
      using D(2) [OF that] by (simp_all add: thread_ok_def)
    show 1: "left_of s u = rounds s"
      using th(1,2) arr [OF that] by (cases "at past_add s u") simp_all
    show "at past_add s u" using th(1) arr [OF that] 1 by (cases "at past_add s u") simp_all
    show "u \<notin> ready s" using th(3) 1 by auto
  qed
  have blocking: "at blocking s u" if "u < n" "u \<noteq> t" for u
    using all(2) [OF that(1)] only [of u] that
    by (auto simp: at_def split: option.splits elim!: past_add.elims)
  have cw: "unat cw = n" using D(8) pc by (auto simp: local_count_ok_def)
  have no_hold: "\<not> at (\<lambda>pc. holds pc x) s u" for x u
    using only(2) [of u] holds_releasing by blast
  define s' where "s' = barrier_do bq t (B_next r cw) s"
  have f: "hb s' = (hb s)\<lparr>cur_round := of_nat (Suc (rounds s))\<rparr>" "b_pc s' = (b_pc s)(t := Some (B_loop r cw))"
      "arrived s' = arrived s" "left_of s' = left_of s" "rounds s' = Suc (rounds s)"
      "ready s' = ready s" "serials s' = serials s"
    using D(1) by (simp_all add: s'_def barrier_do_def sync_defs words_ok_def)
  have at': "at P s' u = (if u = t then P (B_loop r cw) else at P s u)" for P u
    by (simp add: f at_def)
  have "\<not> at is_next s u" if "u \<noteq> t" for u using is_next_closing [of s u] only(1) [of u] that by blast
  then have groups: "\<not> at closing s' u" "at releasing s' u \<longleftrightarrow> u = t" "\<not> at is_next s' u"
      "\<not> at (\<lambda>pc. holds pc x) s' u" "at queued s' u = at queued s u" "at past_add s' u = at past_add s u" for u x
    using only no_hold by (simp_all add: at' at_Some [OF pc])
  have unrel: "unreleased n s' = {..<n} - {t}"
    using all blocking at_Some [OF pc, of blocking] by (auto simp: unreleased_def f at')
  have counted': "counted n s' = {}" using arr by (auto simp: counted_def f)
  have old: "unreleased n s = {}" using D(6) only by (simp add: no_debt_def)
  have "queued_before n s \<subseteq> unreleased n s"
    by (auto simp: queued_before_def unreleased_def intro: queued_blocking)
  then have before: "queued_before n s = {}" using old by simp
  have now': "queued_now n s' = {}" using all by (auto simp: queued_now_def f)
  have before': "queued_before n s' = queued_now n s"
    using all by (auto simp: queued_before_def queued_now_def f groups)
  have "barrier_inv contents n s'"
  proof (rule barrier_invI)
    show "words_ok n s'" using D(1) t by (auto simp: words_ok_def f)
    show "thread_ok s' u" if "u < n" for u
      using D(2) [OF that] all [OF that] pc by (auto simp: thread_ok_def groups f)
    show "one_leader s'" by (simp add: one_leader_def leads_def groups)
    show "closing_iff_full n s'" using t by (auto simp: closing_iff_full_def groups counted')
    show "debt_ok n s'" using cw t only(2) by (auto simp: debt_ok_def unrel at')
    show "no_debt n s'" by (simp add: no_debt_def groups)
    show "held_ok n s'" by (simp add: held_ok_def groups)
    show "local_count_ok n s'" using D(8) by (auto simp: local_count_ok_def f)
    have "cur_waiters (hb s) = 0"
      using D(9) at_Some [OF pc, of is_next] by (auto simp: count_ok_def split: if_splits)
    then show "count_ok n s'" by (simp add: count_ok_def groups counted' f)
    show "serials_ok s'" using D(11) only by (simp add: serials_ok_def groups f)
    show "queues_ok contents n s'"
      using D(10) by (simp add: queues_ok_def now' before' before f)
  qed
  then show ?thesis by (simp add: s'_def)
qed

text \<open>The facts about the thread that releases a round.\<close>

lemma releasing_facts:
  assumes inv: "barrier_inv contents n s" and rel: "at releasing s t"
  shows "t < n" "at releasing s u \<longleftrightarrow> u = t" "\<not> at closing s u" "counted n s \<noteq> {..<n}"
    "Suc (left_of s t) = rounds s" "at (\<lambda>pc. owed pc (card (unreleased n s))) s t"
    "t \<notin> ready s" "\<not> at blocking s t"
proof -
  note D = barrier_invD [OF inv]
  show t: "t < n" by (rule at_lt [OF D(1) rel])
  have one: "leads s v \<Longrightarrow> v = t" for v using D(3) rel by (auto simp: one_leader_def leads_def)
  show "at releasing s u \<longleftrightarrow> u = t" using one [of u] rel by (auto simp: leads_def)
  have notc: "\<not> at closing s t"
    using rel by (auto simp: at_def split: option.splits elim: closing.elims)
  then have nc: "\<not> at closing s v" for v using one [of v] by (auto simp: leads_def)
  show "\<not> at closing s u" by (rule nc)
  show "counted n s \<noteq> {..<n}" using D(4) nc by (auto simp: closing_iff_full_def)
  show "Suc (left_of s t) = rounds s" using D(2) [OF t] rel by (simp add: thread_ok_def)
  show "at (\<lambda>pc. owed pc (card (unreleased n s))) s t" using D(5) rel by (simp add: debt_ok_def)
  show "\<not> at blocking s t"
    using rel by (auto simp: at_def split: option.splits elim: blocking.elims)
  then show "t \<notin> ready s" using D(2) [OF t] queued_blocking [of s t] by (auto simp: thread_ok_def)
qed

lemma barrier_inv_loop:
  assumes inv: "barrier_inv contents n s" and pc: "b_pc s t = Some (B_loop r cw)"
  shows "barrier_inv contents n (barrier_do bq t (B_loop r cw) s)"
proof -
  note D = barrier_invD [OF inv]
  have "at releasing s t" by (simp add: at_Some [OF pc])
  note R = releasing_facts [OF inv this]
  have t: "t < n" by (rule R(1))
  define m where "m = card (unreleased n s)"
  have cw: "unat cw = Suc m" using R(6) by (simp add: at_Some [OF pc] m_def)
  have "unreleased n s \<subseteq> {..<n}" by (auto simp: unreleased_def)
  then have m: "m \<le> n" using card_mono [OF finite_lessThan] by (force simp: m_def)
  have n: "n < 2 ^ 31" using D(1) by (simp add: words_ok_def)
  have "cw = of_nat (Suc m)" by (rule eq_of_nat_unat [OF cw])
  then have cw1: "cw - 1 = of_nat m" by simp
  have unat: "unat (cw - 1) = m" unfolding cw1 using m n by (intro unat_of_nat_small) simp
  have sint: "sint (cw - 1) = int m" unfolding cw1 using m n by (intro sint_of_nat_in_range) simp
  have fin: "m = 0 \<longleftrightarrow> unreleased n s = {}" by (simp add: m_def)
  define x where "x = (if 0 < m then Some (B_pop r (cw - 1)) else None)"
  define s' where "s' = barrier_do bq t (B_loop r cw) s"
  have f: "hb s' = hb s" "b_pc s' = (b_pc s)(t := x)" "arrived s' = arrived s"
      "left_of s' = (left_of s)(t := left_of s t + of_bool (m = 0))" "rounds s' = rounds s"
      "ready s' = ready s" "serials s' = serials s + of_bool (m = 0)"
    by (simp_all add: s'_def barrier_do_def sint x_def)
  have at': "at P s' u = (if u = t then 0 < m \<and> P (B_pop r (cw - 1)) else at P s u)" for P u
    by (simp add: f at_def x_def)
  have no_next: "\<not> at is_next s u" for u using R(3) [of u] is_next_closing by blast
  have groups: "at closing s' u = at closing s u" "at releasing s' u \<longleftrightarrow> u = t \<and> 0 < m"
      "\<not> at is_next s' u" "at (\<lambda>pc. holds pc x) s' u = at (\<lambda>pc. holds pc x) s u"
      "at queued s' u = at queued s u" "at blocking s' u = at blocking s u" for u x
    using R(2) [of u] no_next [of u] by (auto simp: at' at_Some [OF pc])
  have off: "t \<notin> unreleased n s" "\<not> at queued s t" using R(8) queued_blocking by (auto simp: unreleased_def)
  have sets: "counted n s' = counted n s" "unreleased n s' = unreleased n s"
      "queued_now n s' = queued_now n s" "queued_before n s' = queued_before n s"
    using R(8) off by (auto simp: counted_def unreleased_def queued_now_def queued_before_def f groups)
  have "barrier_inv contents n s'"
  proof (rule barrier_invI)
    show "words_ok n s'" using D(1) t by (auto simp: words_ok_def f)
    show "thread_ok s' u" if "u < n" for u
      using D(2) [OF that] R(5,7) pc by (auto simp: thread_ok_def at' f x_def at_Some [OF pc])
    show "one_leader s'" using R(3) by (simp add: one_leader_def leads_def groups)
    show "closing_iff_full n s'" using D(4) by (simp add: closing_iff_full_def groups sets)
    show "debt_ok n s'" unfolding debt_ok_def groups sets m_def [symmetric] by (auto simp: at' unat)
    show "no_debt n s'" using fin by (auto simp: no_debt_def groups sets)
    show "held_ok n s'" using D(7) by (simp add: held_ok_def groups sets)
    show "local_count_ok n s'" using D(8) by (auto simp: local_count_ok_def f x_def)
    show "count_ok n s'" using D(9) no_next by (simp add: count_ok_def groups sets f)
    show "serials_ok s'" using D(11) R(2) by (auto simp: serials_ok_def groups f)
    show "queues_ok contents n s'" using D(10) by (simp add: queues_ok_def sets f)
  qed
  then show ?thesis by (simp add: s'_def)
qed

lemma barrier_inv_pop:
  assumes inv: "barrier_inv contents n s" and pc: "b_pc s t = Some (B_pop r cw)"
    and laws: "boost_queue_laws bq contents"
  shows "barrier_inv contents n (barrier_do bq t (B_pop r cw) s)"
proof -
  note D = barrier_invD [OF inv]
  have "at releasing s t" by (simp add: at_Some [OF pc])
  note R = releasing_facts [OF inv this]
  have t: "t < n" by (rule R(1))
  have r: "r = of_nat (left_of s t)" using D(2) [OF t] pc by (simp add: thread_ok_def)
  let ?i = "left_of s t mod 2"
  have par: "Suc (rounds s) mod 2 = ?i" "rounds s mod 2 \<noteq> ?i"
    using R(5) by (auto simp: parity [of "left_of s t" "rounds s"])
  obtain v q where pop: "bq_pop bq (blocked_vths (hb s) ! ?i) = (v, q)" by fastforce
  have q: "contents (blocked_vths (hb s) ! ?i) = (case v of None \<Rightarrow> [] | Some u \<Rightarrow> [u]) @ contents q"
    using pop bq_pop_Some [OF laws] bq_pop_None [OF laws] by (cases v) auto
  have before: "distinct (contents (blocked_vths (hb s) ! ?i))"
      "set (contents (blocked_vths (hb s) ! ?i)) = queued_before n s"
    using D(10) par by (simp_all add: queues_ok_def)
  have got: "u \<in> queued_before n s" if "v = Some u" for u using q that before(2) by auto
  define pc' where "pc' = (case v of None \<Rightarrow> B_pop r cw | Some u \<Rightarrow> B_enqueue r cw u)"
  define s' where "s' = barrier_do bq t (B_pop r cw) s"
  have f: "hb s' = (hb s)\<lparr>blocked_vths := (blocked_vths (hb s))[?i := q]\<rparr>"
      "b_pc s' = (b_pc s)(t := Some pc')" "arrived s' = arrived s"
      "left_of s' = left_of s" "rounds s' = rounds s" "ready s' = ready s" "serials s' = serials s"
    using pop by (simp_all add: s'_def barrier_do_def pc'_def r unat_1_and split: option.splits)
  have at': "at P s' u = (if u = t then P pc' else at P s u)" for P u
    by (simp add: f at_def)
  have groups: "at past_add s' u = at past_add s u" "at blocking s' u = at blocking s u"
      "at closing s' u = at closing s u" "at releasing s' u = at releasing s u"
      "at is_next s' u = at is_next s u" "at queued s' u = at queued s u"
      "at (\<lambda>pc. owed pc k) s' u = at (\<lambda>pc. owed pc k) s u"
      "at (\<lambda>pc. holds pc x) s' u \<longleftrightarrow> at (\<lambda>pc. holds pc x) s u \<or> (u = t \<and> v = Some x)" for u x k
    by (auto simp: at' pc'_def at_Some [OF pc] split: option.splits)
  have sets: "counted n s' = counted n s" "unreleased n s' = unreleased n s" "queued_now n s' = queued_now n s"
    by (simp_all add: counted_def unreleased_def queued_now_def f groups)
  have before': "queued_before n s' = queued_before n s - set_option v"
    by (auto simp: queued_before_def f groups)
  have sub: "u \<in> unreleased n s \<and> at queued s u" if "u \<in> queued_before n s" for u
    using that by (auto simp: queued_before_def unreleased_def intro: queued_blocking)
  have "barrier_inv contents n s'"
  proof (rule barrier_invI)
    show "words_ok n s'" using D(1) t by (auto simp: words_ok_def f)
    show "thread_ok s' u" if "u < n" for u
      using D(2) [OF that] r pc by (auto simp: thread_ok_def groups f pc'_def split: option.splits)
    show "one_leader s'" using D(3) by (simp add: one_leader_def leads_def groups)
    show "closing_iff_full n s'" using D(4) by (simp add: closing_iff_full_def groups sets)
    show "debt_ok n s'" using D(5) by (simp add: debt_ok_def groups sets)
    show "no_debt n s'" using D(6) by (simp add: no_debt_def groups sets)
    show "held_ok n s'" using D(7) sub got unfolding held_ok_def groups sets by blast
    show "local_count_ok n s'" using D(8) by (auto simp: local_count_ok_def f pc'_def split: option.splits)
    show "count_ok n s'" using D(9) by (simp add: count_ok_def groups sets f)
    show "serials_ok s'" using D(11) by (simp add: serials_ok_def groups f)
    have len: "length (blocked_vths (hb s)) = 2" using D(1) by (simp add: words_ok_def)
    have "queue_of contents (rounds s) s' = queue_of contents (rounds s) s"
        "queue_of contents (Suc (rounds s)) s' = contents q"
      using len par by (simp_all add: f)
    moreover have "distinct (contents q)" "set (contents q) = queued_before n s - set_option v"
      using q before by (auto split: option.splits)
    ultimately show "queues_ok contents n s'"
      using D(10) unfolding queues_ok_def sets before' f(5) by simp
  qed
  then show ?thesis by (simp add: s'_def)
qed

lemma barrier_inv_enqueue:
  assumes inv: "barrier_inv contents n s" and pc: "b_pc s t = Some (B_enqueue r cw v)"
  shows "barrier_inv contents n (barrier_do bq t (B_enqueue r cw v) s)"
proof -
  note D = barrier_invD [OF inv]
  have "at releasing s t" by (simp add: at_Some [OF pc])
  note R = releasing_facts [OF inv this]
  have t: "t < n" by (rule R(1))
  have "at (\<lambda>pc. holds pc v) s t" by (simp add: at_Some [OF pc])
  then have v: "v \<in> unreleased n s" "at queued s v" using D(7) by (auto simp: held_ok_def)
  then have v': "v < n" "Suc (left_of s v) = rounds s" "v \<notin> ready s" by (auto simp: unreleased_def)
  have vt: "v \<noteq> t" using v(2) R(8) queued_blocking by blast
  have cw: "unat cw = card (unreleased n s)" using R(6) by (simp add: at_Some [OF pc])
  define s' where "s' = barrier_do bq t (B_enqueue r cw v) s"
  have f: "hb s' = hb s" "b_pc s' = (b_pc s)(t := Some (B_loop r cw))" "arrived s' = arrived s"
      "left_of s' = left_of s" "rounds s' = rounds s" "ready s' = insert v (ready s)" "serials s' = serials s"
    by (simp_all add: s'_def barrier_do_def)
  have at': "at P s' u = (if u = t then P (B_loop r cw) else at P s u)" for P u
    by (simp add: f at_def)
  have only: "\<not> at (\<lambda>pc. holds pc x) s u" if "u \<noteq> t" for u x
    using R(2) [of u] holds_releasing that by blast
  have groups: "at past_add s' u = at past_add s u" "at blocking s' u = at blocking s u"
      "at closing s' u = at closing s u" "at releasing s' u = at releasing s u"
      "at is_next s' u = at is_next s u" "at queued s' u = at queued s u"
      "\<not> at (\<lambda>pc. holds pc x) s' u" for u x
    using only by (auto simp: at' at_Some [OF pc])
  have sets: "counted n s' = counted n s" "unreleased n s' = unreleased n s - {v}" "queued_now n s' = queued_now n s"
    by (auto simp: counted_def unreleased_def queued_now_def f groups)
  have "queued_before n s = {u. u < n \<and> Suc (left_of s u) = rounds s \<and> at queued s u \<and> u \<notin> ready s \<and> u \<noteq> v}"
  proof -
    have "(\<forall>u. \<not> at (\<lambda>pc. holds pc x) s u) \<longleftrightarrow> x \<noteq> v" for x
      using only [of _ x] at_Some [OF pc, of "\<lambda>pc. holds pc x"] by (metis holds.simps(1))
    then show ?thesis by (simp add: queued_before_def)
  qed
  then have before': "queued_before n s' = queued_before n s"
    by (auto simp: queued_before_def f groups)
  have "barrier_inv contents n s'"
  proof (rule barrier_invI)
    show "words_ok n s'" using D(1) t by (auto simp: words_ok_def f)
    show "thread_ok s' u" if "u < n" for u
      using D(2) [OF that] pc v(2) v' by (auto simp: thread_ok_def groups f)
    show "one_leader s'" using D(3) by (simp add: one_leader_def leads_def groups)
    show "closing_iff_full n s'" using D(4) by (simp add: closing_iff_full_def groups sets)
    have "Suc (card (unreleased n s - {v})) = unat cw"
      unfolding cw by (rule card_Suc_Diff1 [OF finite_sets(2) v(1)])
    then show "debt_ok n s'" unfolding debt_ok_def groups sets using R(2) by (auto simp: at')
    show "no_debt n s'" using R(2) by (auto simp: no_debt_def groups)
    show "held_ok n s'" by (simp add: held_ok_def groups)
    show "local_count_ok n s'" using D(8) by (auto simp: local_count_ok_def f)
    show "count_ok n s'" using D(9) by (simp add: count_ok_def groups sets f)
    show "serials_ok s'" using D(11) by (simp add: serials_ok_def groups f)
    show "queues_ok contents n s'" using D(10) by (simp add: queues_ok_def sets before' f)
  qed
  then show ?thesis by (simp add: s'_def)
qed

lemma barrier_inv_start:
  assumes laws: "boost_queue_laws bq contents" and "0 < unat cnt" and "unat cnt < 2 ^ 31"
  shows "barrier_inv contents (unat cnt) (barrier_start bq cnt)" (is "barrier_inv _ ?n ?s")
proof -
  have pc: "\<not> at P ?s t" for P t by (simp add: at_def barrier_start_def)
  have sets: "counted ?n ?s = {}" "unreleased ?n ?s = {}" "queued_now ?n ?s = {}" "queued_before ?n ?s = {}"
    by (simp_all add: counted_def unreleased_def queued_now_def queued_before_def pc)
      (simp add: barrier_start_def)
  show ?thesis
  proof (rule barrier_invI)
    show "words_ok ?n ?s"
      using assms by (simp add: words_ok_def barrier_start_def pthread_barrier_init_def)
    show "thread_ok ?s t" for t
      unfolding thread_ok_def by (simp add: pc) (simp add: barrier_start_def)
    have "{..<?n} \<noteq> {}" using assms(2) by auto
    then show "closing_iff_full ?n ?s" by (simp add: closing_iff_full_def pc sets)
    show "count_ok ?n ?s"
      by (simp add: count_ok_def pc sets) (simp add: barrier_start_def pthread_barrier_init_def)
    show "queues_ok contents ?n ?s"
      unfolding queues_ok_def sets
      by (simp add: barrier_start_def pthread_barrier_init_def bq_new_contents [OF laws])
    show "serials_ok ?s" by (simp add: serials_ok_def pc) (simp add: barrier_start_def)
    show "local_count_ok ?n ?s" by (simp add: local_count_ok_def barrier_start_def)
  qed (simp_all add: one_leader_def leads_def debt_ok_def no_debt_def held_ok_def pc sets)
qed

lemma barrier_inv_step:
  assumes inv: "barrier_inv contents n s" and laws: "boost_queue_laws bq contents"
  shows "barrier_inv contents n (barrier_step bq e s)"
proof (cases e)
  case (BarrierWait t)
  have "unat (waiters (hb s)) = n" using inv by (simp add: barrier_inv_def words_ok_def)
  moreover have "barrier_inv contents n (s\<lparr>b_pc := (b_pc s)(t := Some B_round)\<rparr>)"
    if "b_pc s t = None" "t < n"
    by (rule barrier_inv_same_group [OF inv, where t = t and pc = B_round])
      (simp_all add: that at_None)
  ultimately show ?thesis using BarrierWait inv by simp
next
  case (BarrierStep t)
  note same = barrier_inv_same_group [OF inv, of _ t]
  note D = barrier_invD [OF inv]
  show ?thesis
  proof (cases "b_pc s t")
    case (Some pc)
    have t: "t < n" using at_lt [OF D(1), of "\<lambda>_. True" t] Some by (simp add: at_def)
    have round: "local_round pc (of_nat (left_of s t))"
      using D(2) [OF t] Some by (simp add: thread_ok_def)
    have now: "cur_round (hb s) = of_nat (left_of s t)" if "\<not> past_add pc"
      using D(1) D(2) [OF t] that by (simp add: thread_ok_def words_ok_def at_Some [OF Some])
    have "barrier_inv contents n (barrier_do bq t pc s)" if "pc = B_round"
      by (rule barrier_inv_same_group [OF inv, where t = t and pc = "B_add (cur_round (hb s))"])
        (use Some that now t in \<open>simp_all add: barrier_do_def at_Some\<close>)
    moreover have "barrier_inv contents n (barrier_do bq t pc s)" if "pc = B_runnable r" for r
      by (rule barrier_inv_same_group [OF inv, where t = t and pc = "B_push r"])
        (use Some that round t in \<open>simp_all add: barrier_do_def at_Some\<close>)
    moreover have "barrier_inv contents n (barrier_do bq t pc s)" if "pc = B_block r" for r
      by (rule barrier_inv_same_group [OF inv, where t = t and pc = "B_woken r"])
        (use Some that round t in \<open>simp_all add: barrier_do_def at_Some\<close>)
    ultimately
    have "barrier_inv contents n (barrier_do bq t pc s)" if "is_woken pc \<longrightarrow> t \<in> ready s"
      using Some that
      by (cases pc)
        (simp_all add: barrier_inv_add [OF inv] barrier_inv_push [OF inv _ laws] barrier_inv_woken [OF inv]
          barrier_inv_cas [OF inv] barrier_inv_next [OF inv] barrier_inv_loop [OF inv]
          barrier_inv_pop [OF inv _ laws] barrier_inv_enqueue [OF inv])
    then show ?thesis using BarrierStep Some inv by auto
  qed (use BarrierStep inv in simp)
qed

lemma barrier_inv_run:
  assumes "boost_queue_laws bq contents" and "0 < unat cnt" and "unat cnt < 2 ^ 31"
  shows "barrier_inv contents (unat cnt) (run (barrier_step bq) es (barrier_start bq cnt))"
  by (rule run_invariant [where I = "barrier_inv contents (unat cnt)"])
    (use barrier_inv_step barrier_inv_start assms in blast)+

section \<open>Properties\<close>

text \<open>
  C5. A barrier is a rendezvous: in every interleaving of its participants, no thread returns
  from its \<open>k\<close>-th \<open>pthread_barrier_wait\<close> before every participant has called it \<open>k\<close> times.
\<close>

theorem barrier_rendezvous:
  assumes "boost_queue_laws bq contents" and "0 < unat cnt" and "unat cnt < 2 ^ 31"
    and "t < unat cnt" and "u < unat cnt"
  shows "left_of (run (barrier_step bq) es (barrier_start bq cnt)) t \<le>
     arrived (run (barrier_step bq) es (barrier_start bq cnt)) u"
proof -
  let ?s = "run (barrier_step bq) es (barrier_start bq cnt)"
  note D = barrier_invD [OF barrier_inv_run [OF assms(1-3), of es]]
  have "left_of ?s t \<le> rounds ?s" using D(2) [OF assms(4)] by (auto simp: thread_ok_def)
  also have "rounds ?s \<le> arrived ?s u"
    using D(2) [OF assms(5)] by (auto simp: thread_ok_def split: if_splits)
  finally show ?thesis .
qed

text \<open>Two threads at a barrier for two: both arrive, the second releases the first.\<close>

definition barrier_example :: "barrier_event list" where
  "barrier_example =
     [BarrierWait 0, BarrierWait 1,
      BarrierStep 0, BarrierStep 0, BarrierStep 0, BarrierStep 0, BarrierStep 0,
      BarrierStep 1, BarrierStep 1, BarrierStep 1, BarrierStep 1, BarrierStep 1,
      BarrierStep 1, BarrierStep 1, BarrierStep 1, BarrierStep 0]"

lemma barrier_example_run:
  fixes t :: nat
  defines "s \<equiv> run (barrier_step bounded_list_queue) barrier_example (barrier_start bounded_list_queue 2)"
  shows "b_pc s t = None" and "serials s = 1" and "left_of s 0 = 1"
  by (simp_all add: s_def barrier_example_def barrier_start_def pthread_barrier_init_def barrier_do_def
      bounded_list_queue_def sync_defs PTHREAD_BARRIER_SERIAL_THREAD_def)

theorem barrier_rendezvous_witness:
  "boost_queue_laws bounded_list_queue snd \<and> 0 < unat (2 :: c_uint) \<and> unat (2 :: c_uint) < 2 ^ 31 \<and>
   left_of (run (barrier_step bounded_list_queue) barrier_example (barrier_start bounded_list_queue 2)) 0 \<le>
     arrived (run (barrier_step bounded_list_queue) barrier_example (barrier_start bounded_list_queue 2)) 1 \<and>
   left_of (run (barrier_step bounded_list_queue) barrier_example (barrier_start bounded_list_queue 2)) 0 = 1"
  using barrier_rendezvous [OF bounded_list_queue_laws, of 2 0 1 barrier_example]
  by (simp add: bounded_list_queue_laws barrier_example_run)

text \<open>
  Every round has one serial thread and leaves the barrier as it found it: when nobody is
  inside \<open>pthread_barrier_wait\<close>, each participant has returned once per round, as many of the
  returns as there were rounds gave \<open>PTHREAD_BARRIER_SERIAL_THREAD\<close>, the counter is 0 and
  both queues are empty.
\<close>

theorem barrier_rounds_complete:
  fixes bq contents cnt es
  defines "s \<equiv> run (barrier_step bq) es (barrier_start bq cnt)"
  assumes "boost_queue_laws bq contents" and "0 < unat cnt" and "unat cnt < 2 ^ 31"
    and out: "\<forall>t. b_pc s t = None"
  shows "(\<forall>t < unat cnt. left_of s t = serials s \<and> arrived s t = serials s) \<and>
     cur_waiters (hb s) = 0 \<and> cur_round (hb s) = of_nat (serials s) \<and>
     contents (blocked_vths (hb s) ! 0) = [] \<and> contents (blocked_vths (hb s) ! 1) = []"
proof -
  note D = barrier_invD [OF barrier_inv_run [OF assms(2-4), of es, folded s_def]]
  have none: "\<not> at P s t" for P t using out by (simp add: at_None)
  have serials: "serials s = rounds s" using D(11) none by (simp add: serials_ok_def)
  have th: "left_of s t = rounds s" "arrived s t = rounds s" if "t < unat cnt" for t
    using D(2) [OF that] by (simp_all add: thread_ok_def none)
  have "counted (unat cnt) s = {}" using th by (auto simp: counted_def)
  then have "cur_waiters (hb s) = 0" using D(9) by (simp add: count_ok_def none)
  moreover have q: "queue_of contents k s = []" if "k = rounds s \<or> k = Suc (rounds s)" for k
    using D(10) that by (auto simp: queues_ok_def queued_now_def queued_before_def none)
  then have "contents (blocked_vths (hb s) ! 0) = [] \<and> contents (blocked_vths (hb s) ! 1) = []"
    using q [of "rounds s"] q [of "Suc (rounds s)"] by (cases "even (rounds s)") (simp_all add: mod2_eq_if)
  moreover have "cur_round (hb s) = of_nat (serials s)" using D(1) serials by (simp add: words_ok_def)
  ultimately show ?thesis using th serials by simp
qed

theorem barrier_rounds_complete_witness:
  "boost_queue_laws bounded_list_queue snd \<and>
   left_of (run (barrier_step bounded_list_queue) barrier_example (barrier_start bounded_list_queue 2)) 0 = 1 \<and>
   left_of (run (barrier_step bounded_list_queue) barrier_example (barrier_start bounded_list_queue 2)) 1 = 1"
proof -
  let ?s = "run (barrier_step bounded_list_queue) barrier_example (barrier_start bounded_list_queue 2)"
  have out: "\<forall>t. b_pc ?s t = None" and ser: "serials ?s = 1" by (simp_all add: barrier_example_run)
  show ?thesis
    using barrier_rounds_complete [OF bounded_list_queue_laws _ _ out] ser
    by (simp add: bounded_list_queue_laws)
qed

text \<open>A thread that waits to be resumed and has not been put back into the run queue.\<close>

definition stuck :: "'q barrier_sys \<Rightarrow> nat \<Rightarrow> bool" where
  "stuck s t = (case b_pc s t of Some (B_woken r) \<Rightarrow> t \<notin> ready s | _ \<Rightarrow> False)"

lemma stuckD: "stuck s t \<Longrightarrow> \<exists>r. b_pc s t = Some (B_woken r)" "stuck s t \<Longrightarrow> t \<notin> ready s"
  by (auto simp: stuck_def split: option.splits barrier_pc.splits)

text \<open>
  C22. The barrier does not deadlock: there is never a state in which all participants are
  blocked and none of them has been put back into the run queue.
\<close>

theorem barrier_no_deadlock:
  assumes "boost_queue_laws bq contents" and "0 < unat cnt" and "unat cnt < 2 ^ 31"
  shows "\<exists>t < unat cnt. \<not> stuck (run (barrier_step bq) es (barrier_start bq cnt)) t"
proof (rule ccontr)
  let ?s = "run (barrier_step bq) es (barrier_start bq cnt)"
  note D = barrier_invD [OF barrier_inv_run [OF assms, of es]]
  assume "\<not> ?thesis"
  then have all: "\<exists>r. b_pc ?s t = Some (B_woken r)" "t \<notin> ready ?s" if "t < unat cnt" for t
    using that stuckD by blast+
  have cl: "\<exists>r. P (B_woken r)" if "at P ?s t" for P t
    using all(1) [OF at_lt [OF D(1) that]] that by (auto simp: at_def)
  then have "\<not> at releasing ?s t" "\<not> at closing ?s t" for t
    using cl [of releasing t] cl [of closing t] by auto
  then have "unreleased (unat cnt) ?s = {}" and nf: "counted (unat cnt) ?s \<noteq> {..<unat cnt}"
    using D(4,6) by (auto simp: no_debt_def closing_iff_full_def)
  moreover have "t \<in> counted (unat cnt) ?s" if "t < unat cnt" for t
  proof -
    from all(1) [OF that] obtain r where r: "b_pc ?s t = Some (B_woken r)" by blast
    have "Suc (left_of ?s t) \<noteq> rounds ?s"
      using \<open>unreleased (unat cnt) ?s = {}\<close> all(2) [OF that] that
      by (auto simp: unreleased_def at_Some [OF r])
    then show ?thesis using D(2) [OF that] that by (auto simp: thread_ok_def counted_def at_Some [OF r])
  qed
  ultimately show False using counted_sub by blast
qed

theorem barrier_no_deadlock_witness:
  "boost_queue_laws bounded_list_queue snd \<and> 0 < unat (2 :: c_uint) \<and> unat (2 :: c_uint) < 2 ^ 31 \<and>
   (\<exists>t < unat (2 :: c_uint).
      \<not> stuck (run (barrier_step bounded_list_queue) barrier_example (barrier_start bounded_list_queue 2)) t)"
  using barrier_no_deadlock [OF bounded_list_queue_laws, of 2 barrier_example]
  by (simp add: bounded_list_queue_laws)

end
