(* ===== verification/HCond.thy ===== *)
theory HCond
  imports BoostQueue
begin

text \<open>
  Condition variables of \<open>inc/strategy.h\<close> and \<open>src/hthread.cpp\<close> as built (version 1, without
  \<open>LOCKFREE_COND\<close> and \<open>MUST_WAKE\<close>).  A waiter marks itself blocked and not runnable, pushes
  itself into the queue of the variable and yields the address of the mutex, which its worker
  releases.
\<close>

record 'q hthread_cond =
  waiter_num :: c_uint
  cond_blocked :: "'q option"
  cond_mutex :: "mutex_id option"

definition pthread_cond_init :: "'q hthread_cond \<Rightarrow> c_uint \<times> 'q hthread_cond" where
  "pthread_cond_init hc = (0, hc\<lparr>waiter_num := 0, cond_blocked := None, cond_mutex := None\<rparr>)"

text \<open>
  Program points of \<open>pthread_cond_wait\<close>.  Making the queue is a test of the pointer and a
  compare-and-swap with a new queue, repeated until the pointer is set.
\<close>

datatype cond_wait_pc =
    CW_test | CW_swap | CW_add | CW_status | CW_runnable | CW_push | CW_yield | CW_resumed | CW_lock

definition swap_queue :: "'q boost_queue \<Rightarrow> 'q hthread_cond \<Rightarrow> bool \<times> 'q hthread_cond" where
  "swap_queue bq hc = (case cond_blocked hc of
     None \<Rightarrow> (True, hc\<lparr>cond_blocked := Some (bq_new bq 16)\<rparr>)
   | Some _ \<Rightarrow> (False, hc))"

fun pthread_cond_wait_step :: "'q boost_queue \<Rightarrow> nat \<Rightarrow> nat \<Rightarrow> cond_wait_pc \<Rightarrow>
    'q hthread_cond \<times> c_uint \<Rightarrow> cond_wait_pc action \<times> ('q hthread_cond \<times> c_uint) \<times> effect list" where
  "pthread_cond_wait_step bq me m CW_test (hc, c) =
     (Go (if cond_blocked hc = None then CW_swap else CW_add), (hc, c), [])"
| "pthread_cond_wait_step bq me m CW_swap (hc, c) =
     (case swap_queue bq hc of (ok, hc') \<Rightarrow> (Go (if ok then CW_add else CW_test), (hc', c), []))"
| "pthread_cond_wait_step bq me m CW_add (hc, c) =
     (Go CW_status, (hc\<lparr>waiter_num := snd (sync_add_and_fetch (waiter_num hc) 1)\<rparr>, c), [])"
| "pthread_cond_wait_step bq me m CW_status (hc, c) =
     (Go CW_runnable, (hc, c), [Set_status me STATUS_BLOCKED])"
| "pthread_cond_wait_step bq me m CW_runnable (hc, c) =
     (Go CW_push, (hc, c), [Set_runnable me False])"
| "pthread_cond_wait_step bq me m CW_push (hc, c) =
     (case bq_push bq me (the (cond_blocked hc)) of (ok, q) \<Rightarrow>
        (Go (if ok then CW_yield else CW_push), (hc\<lparr>cond_blocked := Some q\<rparr>, c), []))"
| "pthread_cond_wait_step bq me m CW_yield (hc, c) =
     (Yield (RELEASE_MUTEX (UserMutex m)) CW_resumed, (hc, c), [])"
| "pthread_cond_wait_step bq me m CW_resumed (hc, c) =
     (Go CW_lock, (hc, c), [Set_status me STATUS_SUSPENDED])"
| "pthread_cond_wait_step bq me m CW_lock (hc, c) =
     (case sync_lock_test_and_set c 1 of (old, c') \<Rightarrow>
        (if old \<noteq> 0 then Yield STATUS_LOCKFAIL CW_lock else Return 0, (hc, c'), []))"

text \<open>Program points of \<open>pthread_cond_signal\<close>; the local is \<open>waiter\<close>.\<close>

datatype cond_signal_pc = CS_test | CS_swap | CS_pop | CS_sub nat | CS_status nat | CS_enqueue nat

fun pthread_cond_signal_step :: "'q boost_queue \<Rightarrow> cond_signal_pc \<Rightarrow> 'q hthread_cond \<Rightarrow>
    cond_signal_pc action \<times> 'q hthread_cond \<times> effect list" where
  "pthread_cond_signal_step bq CS_test hc =
     (Go (if cond_blocked hc = None then CS_swap else CS_pop), hc, [])"
| "pthread_cond_signal_step bq CS_swap hc =
     (case swap_queue bq hc of (ok, hc') \<Rightarrow> (Go (if ok then CS_pop else CS_test), hc', []))"
| "pthread_cond_signal_step bq CS_pop hc =
     (case bq_pop bq (the (cond_blocked hc)) of (v, q) \<Rightarrow>
        ((case v of None \<Rightarrow> Return 0 | Some waiter \<Rightarrow> Go (CS_sub waiter)),
         hc\<lparr>cond_blocked := Some q\<rparr>, []))"
| "pthread_cond_signal_step bq (CS_sub waiter) hc =
     (Go (CS_status waiter), hc\<lparr>waiter_num := snd (sync_add_and_fetch (waiter_num hc) (-1))\<rparr>, [])"
| "pthread_cond_signal_step bq (CS_status waiter) hc =
     (Go (CS_enqueue waiter), hc, [Set_status waiter STATUS_SUSPENDED])"
| "pthread_cond_signal_step bq (CS_enqueue waiter) hc = (Return 0, hc, [Enqueue waiter])"

text \<open>
  Program points of \<open>pthread_cond_broadcast\<close>.  The caller's own status is set at the end,
  through \<open>me\<close>, which is null in a kernel thread (\<open>CB_status\<close> is then an access through a
  null pointer).
\<close>

datatype cond_broadcast_pc = CB_test | CB_swap | CB_pop | CB_sub nat | CB_enqueue nat | CB_status

fun pthread_cond_broadcast_step :: "'q boost_queue \<Rightarrow> nat \<Rightarrow> cond_broadcast_pc \<Rightarrow> 'q hthread_cond \<Rightarrow>
    cond_broadcast_pc action \<times> 'q hthread_cond \<times> effect list" where
  "pthread_cond_broadcast_step bq me CB_test hc =
     (Go (if cond_blocked hc = None then CB_swap else CB_pop), hc, [])"
| "pthread_cond_broadcast_step bq me CB_swap hc =
     (case swap_queue bq hc of (ok, hc') \<Rightarrow> (Go (if ok then CB_pop else CB_test), hc', []))"
| "pthread_cond_broadcast_step bq me CB_pop hc =
     (case bq_pop bq (the (cond_blocked hc)) of (v, q) \<Rightarrow>
        (Go (case v of None \<Rightarrow> CB_status | Some waiter \<Rightarrow> CB_sub waiter),
         hc\<lparr>cond_blocked := Some q\<rparr>, []))"
| "pthread_cond_broadcast_step bq me (CB_sub waiter) hc =
     (Go (CB_enqueue waiter), hc\<lparr>waiter_num := snd (sync_add_and_fetch (waiter_num hc) (-1))\<rparr>, [])"
| "pthread_cond_broadcast_step bq me (CB_enqueue waiter) hc = (Go CB_pop, hc, [Enqueue waiter])"
| "pthread_cond_broadcast_step bq me CB_status hc =
     (Return 0, hc, [Set_status me STATUS_SUSPENDED])"

end
