(* ===== verification/VThread.thy ===== *)
theory VThread
  imports VTypes VNode
begin

text \<open>
  The virtual thread of \<open>inc/vthread.hpp\<close>: its fields, \<open>init\<close>, \<open>join\<close>, \<open>wake_up_joined\<close>,
  \<open>manage\<close>, and \<open>pthread_exit\<close>, \<open>pthread_cancel\<close>, the thread-specific data and the
  preemption signal handler, which work on the same fields.  Each operation is a step function
  on the store of virtual threads; a step is one access to shared memory.
\<close>

section \<open>The record\<close>

text \<open>
  The pointers are numbers: \<open>sp\<close> a stack allocated by \<open>new char[STACK_SIZE]\<close>, \<open>ctx\<close> the stack
  the context was made on, \<open>retval\<close> the cell the joiner gave, \<open>join_wait_queue\<close> and
  \<open>thisnode_next\<close> nodes, which are named by their thread.
\<close>

record vthread =
  vid :: c_size
  start_routine :: nat
  arg :: c_size
  owner :: "nat option"
  retval :: "nat option"
  routine_ret :: c_size
  to_be_cancelled :: bool
  cur_status :: hcoroutine_ret
  hold_lockers :: c_uint
  join_mutex :: c_uint
  join_waiters_num :: c_uint
  join_wait_queue :: "node option"
  join_sem :: c_uint
  thisnode_next :: "node option"
  vtls :: "nat \<Rightarrow> c_size"
  signal_on :: bool
  uninteruptable :: c_uint
  sp :: "nat option"
  runnable :: bool
  ctx :: "nat option"
  jump_lock :: c_size

text \<open>
  \<open>init\<close>: \<open>fresh\<close> is the stack \<open>new\<close> returns.  The context is made on the stack \<open>sp\<close> points to
  before the allocation.
\<close>

definition init :: "nat \<Rightarrow> c_size \<Rightarrow> nat \<Rightarrow> c_size \<Rightarrow> vthread \<Rightarrow> vthread" where
  "init fresh thread start arg' v = v\<lparr>
     vid := thread, start_routine := start, arg := arg',
     owner := None, retval := None, routine_ret := 0, jump_lock := 0,
     cur_status := STATUS_SUSPENDED, to_be_cancelled := False, hold_lockers := 0,
     join_waiters_num := 0, join_wait_queue := None, join_sem := 0, runnable := True,
     ctx := sp v,
     thisnode_next := None, signal_on := False, uninteruptable := 0,
     sp := Some fresh,
     vtls := (\<lambda>_. 0)\<rparr>"

text \<open>A zero-initialised object, as the elements of the array \<open>vid_to_pvth\<close> are before \<open>vthread()\<close>.\<close>

definition zeroed :: vthread where
  "zeroed = \<lparr>vid = 0, start_routine = 0, arg = 0, owner = None, retval = None, routine_ret = 0,
     to_be_cancelled = False, cur_status = STATUS_FINISHED, hold_lockers = 0, join_mutex = 0,
     join_waiters_num = 0, join_wait_queue = None, join_sem = 0, thisnode_next = None,
     vtls = (\<lambda>_. 0), signal_on = False, uninteruptable = 0, sp = None, runnable = False,
     ctx = None, jump_lock = 0\<rparr>"

text \<open>The default constructor.\<close>

definition vthread_default :: "nat \<Rightarrow> vthread" where
  "vthread_default fresh = init fresh 0 0 0 zeroed"

section \<open>The store of virtual threads\<close>

text \<open>
  \<open>vid_to_pvth\<close>, the cells joiners point to, and the stacks that have been freed.
\<close>

record vstore =
  vths :: "nat \<Rightarrow> vthread"
  cells :: "nat \<Rightarrow> c_size"
  freed :: "nat set"

abbreviation upd_vth :: "nat \<Rightarrow> (vthread \<Rightarrow> vthread) \<Rightarrow> vstore \<Rightarrow> vstore" where
  "upd_vth v f st \<equiv> st\<lparr>vths := (vths st)(v := f (vths st v))\<rparr>"

definition next_of :: "vstore \<Rightarrow> next_store" where
  "next_of st = (\<lambda>v. thisnode_next (vths st v))"

definition set_next :: "next_store \<Rightarrow> vstore \<Rightarrow> vstore" where
  "set_next nx st = st\<lparr>vths := (\<lambda>v. (vths st v)\<lparr>thisnode_next := nx v\<rparr>)\<rparr>"

text \<open>\<open>init\<close> of the thread in slot \<open>v\<close>, with the stack it allocates.\<close>

definition init_slot :: "nat \<Rightarrow> nat \<Rightarrow> c_size \<Rightarrow> nat \<Rightarrow> c_size \<Rightarrow> vstore \<Rightarrow> vstore" where
  "init_slot v fresh th f x st =
     upd_vth v (init fresh th f x) (st\<lparr>freed := freed st - {fresh}\<rparr>)"

text \<open>\<open>if (p) *p = value\<close>.\<close>

definition store_cell :: "nat option \<Rightarrow> c_size \<Rightarrow> vstore \<Rightarrow> vstore" where
  "store_cell p x st = (case p of None \<Rightarrow> st | Some a \<Rightarrow> st\<lparr>cells := (cells st)(a := x)\<rparr>)"

section \<open>Join\<close>

text \<open>
  Program points of \<open>join\<close>: take the join mutex, set \<open>retval\<close>, test the status, then either
  register and block or copy the result.  The worker releases the join mutex of a virtual
  thread that blocks; a kernel thread releases it and waits on \<open>join_sem\<close> (\<open>JK_sem\<close>: one
  round of the compare-and-swap loop of \<open>hthread_bin_sema_t::wait\<close>, asleep or not).
\<close>

datatype join_pc =
    J_lock | J_retval | J_status | J_count | J_block | J_enqueue | J_yield | J_woken
  | JK_unlock | JK_sem | J_copy | J_unlock

fun join_step :: "nat option \<Rightarrow> nat \<Rightarrow> nat option \<Rightarrow> join_pc \<Rightarrow> vstore \<Rightarrow>
    join_pc action \<times> vstore \<times> effect list" where
  "join_step me tg rv J_lock st =
     (case sync_lock_test_and_set (join_mutex (vths st tg)) 1 of (old, c) \<Rightarrow>
        (if old = 0 then Go J_retval
         else if me = None then Go J_lock else Yield STATUS_LOCKFAIL J_lock,
         upd_vth tg (join_mutex_update (\<lambda>_. c)) st, []))"
| "join_step me tg rv J_retval st = (Go J_status, upd_vth tg (retval_update (\<lambda>_. rv)) st, [])"
| "join_step me tg rv J_status st =
     (Go (if cur_status (vths st tg) \<noteq> STATUS_FINISHED then J_count else J_copy), st, [])"
| "join_step me tg rv J_count st =
     (Go (if me = None then JK_unlock else J_block),
      upd_vth tg (\<lambda>v. v\<lparr>join_waiters_num := join_waiters_num v + 1\<rparr>) st, [])"
| "join_step me tg rv J_block st = (Go J_enqueue, st, [Set_status (the me) STATUS_BLOCKED])"
| "join_step me tg rv J_enqueue st =
     (case node_enqueue (the me) (next_of st, join_wait_queue (vths st tg)) of (nx, h) \<Rightarrow>
        (Go J_yield, upd_vth tg (join_wait_queue_update (\<lambda>_. h)) (set_next nx st), []))"
| "join_step me tg rv J_yield st = (Yield (RELEASE_MUTEX (JoinMutex tg)) J_woken, st, [])"
| "join_step me tg rv J_woken st = (Return 0, st, [])"
| "join_step me tg rv JK_unlock st =
     (Go JK_sem, upd_vth tg (\<lambda>v. v\<lparr>join_mutex := sync_lock_release (join_mutex v)\<rparr>) st, [])"
| "join_step me tg rv JK_sem st =
     (case sync_bool_compare_and_swap (join_sem (vths st tg)) 1 0 of (ok, f) \<Rightarrow>
        (if ok then Return 0 else Go JK_sem, upd_vth tg (join_sem_update (\<lambda>_. f)) st, []))"
| "join_step me tg rv J_copy st =
     (Go J_unlock, store_cell rv (routine_ret (vths st tg)) st, [])"
| "join_step me tg rv J_unlock st =
     (Return 0, upd_vth tg (\<lambda>v. v\<lparr>join_mutex := sync_lock_release (join_mutex v)\<rparr>) st, [])"

section \<open>Waking the joined\<close>

text \<open>
  Program points of \<open>wake_up_joined\<close>, run by the worker after \<open>v\<close> finished; the locals are
  \<open>head\<close> and \<open>waiters\<close>.
\<close>

datatype wake_pc =
    WU_delete | WU_lock | WU_retval | WU_status | WU_take | WU_unlock "node option" c_uint
  | WU_dequeue "node option" c_uint | WU_suspend nat "node option" c_uint
  | WU_enqueue nat "node option" c_uint | WU_post c_uint

fun wake_up_joined_step :: "nat \<Rightarrow> wake_pc \<Rightarrow> vstore \<Rightarrow> wake_pc action \<times> vstore \<times> effect list" where
  "wake_up_joined_step v WU_delete st =
     (Go WU_lock, st\<lparr>freed := freed st \<union> set_option (sp (vths st v))\<rparr>, [])"
| "wake_up_joined_step v WU_lock st =
     (case sync_lock_test_and_set (join_mutex (vths st v)) 1 of (old, c) \<Rightarrow>
        (if old = 0 then Go WU_retval else Yield STATUS_LOCKFAIL WU_lock,
         upd_vth v (join_mutex_update (\<lambda>_. c)) st, []))"
| "wake_up_joined_step v WU_retval st =
     (Go WU_status, store_cell (retval (vths st v)) (routine_ret (vths st v)) st, [])"
| "wake_up_joined_step v WU_status st = (Go WU_take, st, [Set_status v STATUS_FINISHED])"
| "wake_up_joined_step v WU_take st =
     (let n = join_waiters_num (vths st v) in
      if 0 \<noteq> n
      then (Go (WU_unlock (join_wait_queue (vths st v)) n),
            upd_vth v (\<lambda>x. x\<lparr>join_waiters_num := 0, join_wait_queue := None\<rparr>) st, [])
      else (Go (WU_unlock None 0), st, []))"
| "wake_up_joined_step v (WU_unlock h n) st =
     (if n = 0 then Return 0 else Go (WU_dequeue h n),
      upd_vth v (\<lambda>x. x\<lparr>join_mutex := sync_lock_release (join_mutex x)\<rparr>) st, [])"
| "wake_up_joined_step v (WU_dequeue h n) st =
     (case node_dequeue (next_of st, h) of (p, nx, h') \<Rightarrow>
        (Go (case p of None \<Rightarrow> WU_post n | Some u \<Rightarrow> WU_suspend u h' n), set_next nx st, []))"
| "wake_up_joined_step v (WU_suspend u h n) st =
     (Go (WU_enqueue u h n), st, [Set_status u STATUS_SUSPENDED])"
| "wake_up_joined_step v (WU_enqueue u h n) st = (Go (WU_dequeue h (n - 1)), st, [Enqueue u])"
| "wake_up_joined_step v (WU_post n) st =
     (if n = 0 then (Return 0, st, [])
      else (Go (WU_post (n - 1)),
            upd_vth v (\<lambda>x. x\<lparr>join_sem := snd (sync_bool_compare_and_swap (join_sem x) 0 1)\<rparr>) st, []))"

section \<open>The end of a thread\<close>

text \<open>
  \<open>pthread_exit\<close> of thread \<open>me\<close> with a result, and the end of \<open>manage\<close> when the start routine
  returns.  Both yield \<open>STATUS_FINISHED\<close> and are not resumed.
\<close>

datatype exit_pc = X_lock | X_store | X_unlock | X_finish | X_dead

fun pthread_exit_step :: "nat \<Rightarrow> c_size \<Rightarrow> exit_pc \<Rightarrow> vstore \<Rightarrow> exit_pc action \<times> vstore" where
  "pthread_exit_step me x X_lock st =
     (case sync_lock_test_and_set (join_mutex (vths st me)) 1 of (old, c) \<Rightarrow>
        (if old = 0 then Go X_store else Yield STATUS_LOCKFAIL X_lock,
         upd_vth me (join_mutex_update (\<lambda>_. c)) st))"
| "pthread_exit_step me x X_store st = (Go X_unlock, upd_vth me (routine_ret_update (\<lambda>_. x)) st)"
| "pthread_exit_step me x X_unlock st =
     (Go X_finish, upd_vth me (\<lambda>v. v\<lparr>join_mutex := sync_lock_release (join_mutex v)\<rparr>) st)"
| "pthread_exit_step me x X_finish st = (Yield STATUS_FINISHED X_dead, st)"
| "pthread_exit_step me x X_dead st = (Go X_dead, st)"

definition manage_return :: "nat \<Rightarrow> c_size \<Rightarrow> vstore \<Rightarrow> vstore" where
  "manage_return me x st = upd_vth me (routine_ret_update (\<lambda>_. x)) st"

section \<open>Cancellation, thread-specific data, preemption\<close>

definition pthread_cancel :: "nat \<Rightarrow> vstore \<Rightarrow> vstore" where
  "pthread_cancel thread st = upd_vth thread (to_be_cancelled_update (\<lambda>_. True)) st"

text \<open>
  The values of a kernel thread are kept by the C library, a parameter: \<open>raw_get\<close> and
  \<open>raw_set\<close> on its state.
\<close>

definition pthread_getspecific ::
  "('k \<Rightarrow> nat \<Rightarrow> c_size) \<Rightarrow> nat option \<Rightarrow> nat \<Rightarrow> vstore \<times> 'k \<Rightarrow> c_size" where
  "pthread_getspecific raw_get me key s = (case s of (st, ks) \<Rightarrow>
     (case me of Some v \<Rightarrow> vtls (vths st v) key | None \<Rightarrow> raw_get ks key))"

definition pthread_setspecific ::
  "('k \<Rightarrow> nat \<Rightarrow> c_size \<Rightarrow> 'k) \<Rightarrow> nat option \<Rightarrow> nat \<Rightarrow> c_size \<Rightarrow> vstore \<times> 'k \<Rightarrow> c_uint \<times> vstore \<times> 'k" where
  "pthread_setspecific raw_set me key x s = (case s of (st, ks) \<Rightarrow>
     (0, case me of Some v \<Rightarrow> (upd_vth v (\<lambda>t. t\<lparr>vtls := (vtls t)(key := x)\<rparr>) st, ks)
         | None \<Rightarrow> (st, raw_set ks key x)))"

definition set_iteruptable :: "c_uint \<Rightarrow> nat \<Rightarrow> vstore \<Rightarrow> c_uint \<times> vstore" where
  "set_iteruptable x me st = (1, upd_vth me (uninteruptable_update (\<lambda>_. x)) st)"

text \<open>
  \<open>sig_handler\<close>: \<open>rs\<close> is the address of a local variable, \<open>h\<close> the address of the current
  virtual thread (\<open>None\<close> when the kernel thread runs none) and \<open>sz\<close> is \<open>sizeof(vthread)\<close>.
  The result is the value the handler tries to yield, if it does.
\<close>

definition sig_handler :: "c_size \<Rightarrow> c_size \<Rightarrow> (c_size \<times> vthread) option \<Rightarrow> hcoroutine_ret option" where
  "sig_handler rs sz cur = (case cur of
     None \<Rightarrow> None
   | Some (h, v) \<Rightarrow>
       if rs > h \<and> rs - h < sz \<and> cur_status v \<noteq> STATUS_BLOCKED \<and> uninteruptable v = 0
       then (if to_be_cancelled v then Some STATUS_FINISHED else Some STATUS_SUSPENDED)
       else None)"

section \<open>Properties\<close>

text \<open>
  \<open>init\<close> makes the context of a thread on the stack of the previous use of its slot: the
  default constructor makes it from a null pointer, and when a slot is used again after its
  thread finished, the context lies on a stack that \<open>wake_up_joined\<close> has freed.
\<close>

theorem init_uses_previous_stack:
  assumes "sp (vths st v) = Some a" and "fresh \<noteq> a"
  shows "ctx (vthread_default fresh) = None \<and>
    (case wake_up_joined_step v WU_delete st of (_, st', _) \<Rightarrow>
       ctx (vths (init_slot v fresh th f x st') v) = Some a \<and>
       a \<in> freed (init_slot v fresh th f x st') \<and> fresh \<notin> freed (init_slot v fresh th f x st'))"
  using assms by (simp add: init_slot_def init_def vthread_default_def zeroed_def)

theorem init_uses_previous_stack_witness:
  "sp (vthread_default 3) = Some 3 \<and>
   (case wake_up_joined_step 7 WU_delete \<lparr>vths = (\<lambda>_. vthread_default 3), cells = (\<lambda>_. 0), freed = {}\<rparr> of
      (_, st', _) \<Rightarrow> ctx (vths (init_slot 7 9 7 0 0 st') 7) = Some 3 \<and> 3 \<in> freed (init_slot 7 9 7 0 0 st'))"
proof -
  have "sp (vthread_default 3) = Some 3" by (simp add: vthread_default_def init_def)
  then show ?thesis
    using init_uses_previous_stack [of "\<lparr>vths = (\<lambda>_. vthread_default 3), cells = (\<lambda>_. 0), freed = {}\<rparr>" 7 3 9 7 0 0]
    by simp
qed

text \<open>
  The preemption signal never takes a virtual thread off its worker: the handler compares
  the address of a local variable with the address of the \<open>vthread\<close> object, but the stack is
  allocated apart from the object, so the test fails for every stack.  Hence neither time
  slices nor \<open>pthread_cancel\<close>, which only sets the flag the handler reads, have an effect.
\<close>

theorem sig_handler_never_fires:
  assumes stack: "unat base \<le> unat rs" "unat rs < unat base + 655360"
    and object: "unat h + unat sz \<le> unat base \<or> unat base + 655360 \<le> unat h"
  shows "sig_handler rs sz (Some (h, vths (pthread_cancel v st) v)) = None \<and>
    sig_handler rs sz (Some (h, vths st v)) = None"
proof -
  have "\<not> (rs > h \<and> rs - h < sz)"
  proof
    assume r: "rs > h \<and> rs - h < sz"
    then have "unat (rs - h) = unat rs - unat h" by (intro unat_sub) (simp add: order_less_imp_le)
    then have "unat h < unat rs" "unat rs < unat h + unat sz"
      using r by (auto simp: word_less_nat_alt)
    then show False using stack object by auto
  qed
  then show ?thesis by (auto simp: sig_handler_def)
qed

theorem sig_handler_never_fires_witness:
  "unat (0x20000 :: c_size) + unat (512 :: c_size) \<le> unat (0x7f000000 :: c_size) \<and>
   sig_handler 0x7f000100 512 (Some (0x20000, vths (pthread_cancel 3
     \<lparr>vths = (\<lambda>_. vthread_default 3), cells = (\<lambda>_. 0), freed = {}\<rparr>) 3)) = None"
  using sig_handler_never_fires [of "0x7f000000 :: c_size" "0x7f000100" "0x20000" 512 3
      "\<lparr>vths = (\<lambda>_. vthread_default 3), cells = (\<lambda>_. 0), freed = {}\<rparr>"] by simp

text \<open>
  Thread-specific data: after \<open>pthread_setspecific\<close> a thread reads the value it stored, and
  every other key and every other thread, virtual or kernel, reads what it read before.
\<close>

theorem specific_round_trip:
  assumes raw: "\<And>ks key x key'. raw_get (raw_set ks key x) key' = (if key' = key then x else raw_get ks key')"
  shows "pthread_getspecific raw_get me' key' (snd (pthread_setspecific raw_set me key x s)) =
    (if me' = me \<and> key' = key then x else pthread_getspecific raw_get me' key' s)"
  by (cases s) (auto simp: pthread_getspecific_def pthread_setspecific_def raw split: option.splits)

theorem specific_round_trip_witness:
  "pthread_getspecific (\<lambda>ks key. ks key) (Some 3) 5
     (snd (pthread_setspecific (\<lambda>ks key x. ks(key := x)) (Some 3) 5 42
        (\<lparr>vths = (\<lambda>_. vthread_default 3), cells = (\<lambda>_. 0), freed = {}\<rparr>, \<lambda>_. 0))) = 42"
  by (simp add: specific_round_trip [of "\<lambda>ks key. ks key" "\<lambda>ks key x. ks(key := x)"])

end
