(* ===== verification/Sched.thy ===== *)
theory Sched
  imports VThread HCond HBarrier HMutex
begin

text \<open>
  The runtime: worker kernel threads (\<open>worker_routine\<close> of \<open>src/mgr_thread.cpp\<close>) take virtual
  threads from the run queue, run them until they yield and act on what they yield; virtual
  threads and kernel threads call the pthread operations of the other theories.  A state has
  everything they share; an event is one step of one worker, of the virtual thread a worker
  runs, or of a kernel thread, so a run is an interleaving of single memory accesses.
\<close>

section \<open>State\<close>

text \<open>Where a thread is: in the code of the program or inside an operation.\<close>

datatype vpc =
    User
  | InLock nat
  | InWait nat nat cond_wait_pc
  | InSignal nat cond_signal_pc
  | InBroadcast nat cond_broadcast_pc
  | InBarrier nat barrier_pc
  | InJoin nat "nat option" join_pc
  | InExit c_size exit_pc
  | InInit nat c_size nat c_size | InEnqueue nat
  | InYield

text \<open>Where a worker is in its loop; \<open>W_run\<close> is inside \<open>resume\<close>.\<close>

datatype wpc =
    W_loop | W_get | W_test nat | W_requeue nat | W_run nat | W_ret nat hcoroutine_ret
  | W_wake nat wake_pc | W_released nat | W_check nat | W_again nat

record worker =
  core_id :: c_uint
  task :: "nat option"
  wpc :: wpc

record 'q hsys =
  store :: vstore
  vs_queue :: "nat list"
  vs_vid :: c_size
  mutexes :: "nat \<Rightarrow> c_uint"
  conds :: "nat \<Rightarrow> 'q hthread_cond"
  barriers :: "nat \<Rightarrow> 'q hthread_barrier"
  vpcs :: "nat \<Rightarrow> vpc"
  kpcs :: "nat \<Rightarrow> vpc"
  workers :: "worker list"
  N_THREADS_ALLOWED :: c_uint
  next_stack :: nat
  fault :: bool

section \<open>Effects\<close>

fun apply_effect :: "effect \<Rightarrow> 'q hsys \<Rightarrow> 'q hsys" where
  "apply_effect (Set_status v x) s =
     s\<lparr>store := upd_vth v (cur_status_update (\<lambda>_. x)) (store s)\<rparr>"
| "apply_effect (Set_runnable v b) s =
     s\<lparr>store := upd_vth v (runnable_update (\<lambda>_. b)) (store s)\<rparr>"
| "apply_effect (Enqueue v) s = s\<lparr>vs_queue := vs_queue s @ [v]\<rparr>"

primrec apply_effects :: "effect list \<Rightarrow> 'q hsys \<Rightarrow> 'q hsys" where
  "apply_effects [] s = s"
| "apply_effects (e # es) s = apply_effects es (apply_effect e s)"

section \<open>Operations of a thread\<close>

text \<open>
  What the program calls.  \<open>Create\<close> carries the start routine and its argument; \<open>Finish\<close> is
  the return of the start routine to \<open>manage\<close>.
\<close>

datatype call =
    Lock nat | Unlock nat | Wait nat nat | Signal nat | Broadcast nat | Barrier nat
  | Join nat "nat option" | Exit c_size | Finish c_size | Create nat c_size | Sched_yield

text \<open>
  \<open>add_vthread\<close>: the identifier is fetched, reduced, and the slot of \<open>vid_to_pvth\<close> it selects
  is initialised and enqueued.
\<close>

definition fetch_vid :: "c_size \<Rightarrow> nat \<times> c_size" where
  "fetch_vid c = (case sync_fetch_and_add c 1 of (old, c') \<Rightarrow>
     (unat (ucast old :: c_uint) mod MAX_VTHREADS, c'))"

text \<open>
  The first step of a call, from the code of the program; the next program point and the
  state.
\<close>

fun start_call :: "call \<Rightarrow> 'q hsys \<Rightarrow> vpc action \<times> 'q hsys" where
  "start_call (Lock m) s = (Go (InLock m), s)"
| "start_call (Unlock m) s =
     (case pthread_mutex_unlock (mutexes s m) of (r, c) \<Rightarrow> (Return r, s\<lparr>mutexes := (mutexes s)(m := c)\<rparr>))"
| "start_call (Wait c m) s = (Go (InWait c m CW_test), s)"
| "start_call (Signal c) s = (Go (InSignal c CS_test), s)"
| "start_call (Broadcast c) s = (Go (InBroadcast c CB_test), s)"
| "start_call (Barrier b) s = (Go (InBarrier b B_round), s)"
| "start_call (Join tg rv) s = (Go (InJoin tg rv J_lock), s)"
| "start_call (Exit x) s = (Go (InExit x X_lock), s)"
| "start_call (Finish x) s = (Go (InExit x X_finish), s)"
| "start_call (Create f x) s =
     (case fetch_vid (vs_vid s) of (v, c) \<Rightarrow> (Go (InInit v (of_nat v) f x), s\<lparr>vs_vid := c\<rparr>))"
| "start_call Sched_yield s = (Go InYield, s)"

fun lift_action :: "('pc \<Rightarrow> vpc) \<Rightarrow> 'pc action \<Rightarrow> vpc action" where
  "lift_action f (Go pc) = Go (f pc)"
| "lift_action f (Yield r pc) = Yield r (f pc)"
| "lift_action f (Return x) = Return x"

text \<open>
  One step of an operation of thread \<open>me\<close>, \<open>None\<close> for a kernel thread.  \<open>None\<close> is an access
  through the null pointer \<open>me\<close>.
\<close>

fun op_step :: "'q boost_queue \<Rightarrow> nat option \<Rightarrow> vpc \<Rightarrow> 'q hsys \<Rightarrow> (vpc action \<times> 'q hsys) option" where
  "op_step bq me User s = Some (Go User, s)"
| "op_step bq me (InLock m) s =
     (case pthread_mutex_lock_step (mutexes s m) of (act, c) \<Rightarrow>
        Some (lift_action (\<lambda>_. InLock m) act, s\<lparr>mutexes := (mutexes s)(m := c)\<rparr>))"
| "op_step bq me (InWait c m pc) s = (case me of None \<Rightarrow> None | Some v \<Rightarrow>
     (case pthread_cond_wait_step bq v m pc (conds s c, mutexes s m) of (act, (hc, w), es) \<Rightarrow>
        Some (lift_action (InWait c m) act,
          apply_effects es (s\<lparr>conds := (conds s)(c := hc), mutexes := (mutexes s)(m := w)\<rparr>))))"
| "op_step bq me (InSignal c pc) s =
     (case pthread_cond_signal_step bq pc (conds s c) of (act, hc, es) \<Rightarrow>
        Some (lift_action (InSignal c) act, apply_effects es (s\<lparr>conds := (conds s)(c := hc)\<rparr>)))"
| "op_step bq me (InBroadcast c pc) s =
     (if pc = CB_status \<and> me = None then None
      else case pthread_cond_broadcast_step bq (the me) pc (conds s c) of (act, hc, es) \<Rightarrow>
        Some (lift_action (InBroadcast c) act, apply_effects es (s\<lparr>conds := (conds s)(c := hc)\<rparr>)))"
| "op_step bq me (InBarrier b pc) s = (case me of None \<Rightarrow> None | Some v \<Rightarrow>
     (case pthread_barrier_wait_step bq v pc (barriers s b) of (act, hb1, es) \<Rightarrow>
        Some (lift_action (InBarrier b) act,
          apply_effects es (s\<lparr>barriers := (barriers s)(b := hb1)\<rparr>))))"
| "op_step bq me (InJoin tg rv pc) s =
     (case join_step me tg rv pc (store s) of (act, st, es) \<Rightarrow>
        Some (lift_action (InJoin tg rv) act, apply_effects es (s\<lparr>store := st\<rparr>)))"
| "op_step bq me (InExit x pc) s = (case me of None \<Rightarrow> None | Some v \<Rightarrow>
     (case pthread_exit_step v x pc (store s) of (act, st) \<Rightarrow>
        Some (lift_action (InExit x) act, s\<lparr>store := st\<rparr>)))"
| "op_step bq me (InInit v th f x) s =
     Some (Go (InEnqueue v),
       s\<lparr>store := init_slot v (next_stack s) th f x (store s),
         next_stack := Suc (next_stack s), vpcs := (vpcs s)(v := User)\<rparr>)"
| "op_step bq me (InEnqueue v) s = Some (Return 0, apply_effect (Enqueue v) s)"
| "op_step bq me InYield s =
     (case me of None \<Rightarrow> None | Some v \<Rightarrow> Some (Yield STATUS_SUSPENDED User, s))"

text \<open>
  A thread in the code of the program does \<open>c\<close>, if any; a thread inside an operation takes
  its next step.
\<close>

definition thread_step :: "'q boost_queue \<Rightarrow> nat option \<Rightarrow> call option \<Rightarrow> vpc \<Rightarrow> 'q hsys \<Rightarrow>
    (vpc action \<times> 'q hsys) option" where
  "thread_step bq me c pc s =
     (if pc = User
      then (case c of None \<Rightarrow> Some (Go User, s)
            | Some (Finish x) \<Rightarrow>
                (case me of None \<Rightarrow> None
                 | Some v \<Rightarrow> Some (start_call (Finish x) (s\<lparr>store := manage_return v x (store s)\<rparr>)))
            | Some call \<Rightarrow> Some (start_call call s))
      else op_step bq me pc s)"

section \<open>Workers\<close>

abbreviation set_wpc :: "nat \<Rightarrow> wpc \<Rightarrow> 'q hsys \<Rightarrow> 'q hsys" where
  "set_wpc w pc s \<equiv> s\<lparr>workers := (workers s)[w := (workers s ! w)\<lparr>wpc := pc\<rparr>]\<rparr>"

definition release_mutex :: "mutex_id \<Rightarrow> 'q hsys \<Rightarrow> 'q hsys" where
  "release_mutex m s = (case m of
     UserMutex i \<Rightarrow> s\<lparr>mutexes := (mutexes s)(i := sync_lock_release (mutexes s i))\<rparr>
   | JoinMutex v \<Rightarrow> s\<lparr>store :=
       upd_vth v (\<lambda>x. x\<lparr>join_mutex := sync_lock_release (join_mutex x)\<rparr>) (store s)\<rparr>)"

text \<open>
  A step of worker \<open>w\<close> outside \<open>resume\<close>.  \<open>i\<close> selects the element \<open>wait_dequeue\<close> returns: the
  run queue is a bag to its users, since its elements are in order only per producer.  In
  \<open>wake_up_joined\<close> the worker is on its own stack, so a jump out of it (\<open>Yield\<close>) leaves the
  thread with a context on the stack of a running worker: \<open>fault\<close>.
\<close>

fun worker_step :: "nat \<Rightarrow> nat \<Rightarrow> wpc \<Rightarrow> 'q hsys \<Rightarrow> 'q hsys" where
  "worker_step w i W_loop s =
     (if core_id (workers s ! w) \<ge> N_THREADS_ALLOWED s then s else set_wpc w W_get s)"
| "worker_step w i W_get s =
     (if vs_queue s = [] then s
      else let v = vs_queue s ! (i mod length (vs_queue s)) in
        set_wpc w (W_test v)
          (s\<lparr>store := upd_vth v (owner_update (\<lambda>_. Some w)) (store s), vs_queue := remove1 v (vs_queue s)\<rparr>))"
| "worker_step w i (W_test v) s =
     (if \<not> runnable (vths (store s) v) then set_wpc w (W_requeue v) s
      else s\<lparr>workers := (workers s)[w := (workers s ! w)\<lparr>task := Some v, wpc := W_run v\<rparr>]\<rparr>)"
| "worker_step w i (W_requeue v) s = set_wpc w W_loop (apply_effect (Enqueue v) s)"
| "worker_step w i (W_run v) s = s"
| "worker_step w i (W_ret v STATUS_FINISHED) s = set_wpc w (W_wake v WU_delete) s"
| "worker_step w i (W_ret v STATUS_BLOCKED) s = set_wpc w W_loop (apply_effect (Set_runnable v True) s)"
| "worker_step w i (W_ret v STATUS_SUSPENDED) s = set_wpc w W_loop (apply_effect (Enqueue v) s)"
| "worker_step w i (W_ret v STATUS_LOCKFAIL) s = set_wpc w W_loop (apply_effect (Enqueue v) s)"
| "worker_step w i (W_ret v (RELEASE_MUTEX m)) s = set_wpc w (W_released v) (release_mutex m s)"
| "worker_step w i (W_released v) s = set_wpc w (W_check v) (apply_effect (Set_runnable v True) s)"
| "worker_step w i (W_check v) s =
     set_wpc w (if cur_status (vths (store s) v) = STATUS_SUSPENDED then W_again v else W_loop) s"
| "worker_step w i (W_again v) s = set_wpc w W_loop (apply_effect (Enqueue v) s)"
| "worker_step w i (W_wake v pc) s =
     (case wake_up_joined_step v pc (store s) of (act, st, es) \<Rightarrow>
        let s' = apply_effects es (s\<lparr>store := st\<rparr>) in
        (case act of
           Go pc' \<Rightarrow> set_wpc w (W_wake v pc') s'
         | Yield _ _ \<Rightarrow> s'\<lparr>fault := True\<rparr>
         | Return _ \<Rightarrow> set_wpc w W_loop s'))"

section \<open>Events\<close>

text \<open>
  \<open>Exec w c\<close>: the virtual thread that worker \<open>w\<close> runs takes a step; \<open>Kernel k c\<close>: a kernel
  thread of the program does; \<open>Work w i\<close>: worker \<open>w\<close> does.  A yield of a virtual thread
  returns from \<open>resume\<close> in its worker; a kernel thread has nothing to yield from.
\<close>

datatype event = Exec nat "call option" | Kernel nat "call option" | Work nat nat

fun next_pc :: "vpc action \<Rightarrow> vpc" where
  "next_pc (Go pc) = pc" | "next_pc (Yield _ pc) = pc" | "next_pc (Return _) = User"

definition exec_thread :: "'q boost_queue \<Rightarrow> nat \<Rightarrow> nat \<Rightarrow> call option \<Rightarrow> 'q hsys \<Rightarrow> 'q hsys" where
  "exec_thread bq w v c s =
     (case thread_step bq (Some v) c (vpcs s v) s of
        None \<Rightarrow> s\<lparr>fault := True\<rparr>
      | Some (act, s') \<Rightarrow>
          let s'' = s'\<lparr>vpcs := (vpcs s')(v := next_pc act)\<rparr> in
          (case act of
             Yield r _ \<Rightarrow>
               s''\<lparr>workers := (workers s'')[w := (workers s'' ! w)\<lparr>task := None, wpc := W_ret v r\<rparr>]\<rparr>
           | _ \<Rightarrow> s''))"

definition exec_kernel :: "'q boost_queue \<Rightarrow> nat \<Rightarrow> call option \<Rightarrow> 'q hsys \<Rightarrow> 'q hsys" where
  "exec_kernel bq k c s =
     (case thread_step bq None c (kpcs s k) s of
        None \<Rightarrow> s\<lparr>fault := True\<rparr>
      | Some (Yield _ _, s') \<Rightarrow> s'\<lparr>fault := True\<rparr>
      | Some (act, s') \<Rightarrow> s'\<lparr>kpcs := (kpcs s')(k := next_pc act)\<rparr>)"

fun sched_step :: "'q boost_queue \<Rightarrow> event \<Rightarrow> 'q hsys \<Rightarrow> 'q hsys" where
  "sched_step bq (Exec w c) s =
     (if fault s \<or> length (workers s) \<le> w then s
      else case wpc (workers s ! w) of W_run v \<Rightarrow> exec_thread bq w v c s | _ \<Rightarrow> s)"
| "sched_step bq (Kernel k c) s = (if fault s then s else exec_kernel bq k c s)"
| "sched_step bq (Work w i) s =
     (if fault s \<or> length (workers s) \<le> w then s else worker_step w i (wpc (workers s ! w)) s)"

section \<open>The initial state\<close>

text \<open>
  \<open>n\<close> workers with core numbers \<open>0, \<dots>, n - 1\<close>, all allowed to run; the identifiers start at 15.
  Condition variables are as \<open>pthread_cond_init\<close> leaves them; barrier \<open>b\<close> is made for \<open>cnt b\<close>.
\<close>

definition sched_init :: "'q boost_queue \<Rightarrow> nat \<Rightarrow> (nat \<Rightarrow> c_uint) \<Rightarrow> 'q hsys" where
  "sched_init bq n cnt =
     \<lparr>store = \<lparr>vths = (\<lambda>v. vthread_default v), cells = (\<lambda>_. 0), freed = {}\<rparr>, vs_queue = [], vs_vid = 15,
      mutexes = (\<lambda>_. 0),
      conds = (\<lambda>_. \<lparr>waiter_num = 0, cond_blocked = None, cond_mutex = None\<rparr>),
      barriers = (\<lambda>b. snd (pthread_barrier_init bq (cnt b))),
      vpcs = (\<lambda>_. User), kpcs = (\<lambda>_. User),
      workers = map (\<lambda>i. \<lparr>core_id = of_nat i, task = None, wpc = W_loop\<rparr>) [0..<n],
      N_THREADS_ALLOWED = of_nat n, next_stack = MAX_VTHREADS, fault = False\<rparr>"

end
