(* ===== verification/SchedPlace.thy ===== *)
theory SchedPlace
  imports Sched
begin

text \<open>
  Where the runtime keeps its virtual threads.  For programs that use mutexes, barriers,
  \<open>pthread_create\<close>, \<open>pthread_exit\<close>, \<open>sched_yield\<close> and joins from kernel threads, every
  virtual thread is in one place at a time and is run by one worker at a time: the protocol of
  the field \<open>runnable\<close> keeps a worker from resuming a thread that another worker has not left.
\<close>

section \<open>Places\<close>

text \<open>
  The run queue, the hands of a worker, a queue of a barrier, the local \<open>blocked_v\<close> of a thread
  that releases a barrier, and the local \<open>pvth\<close> of a thread that creates one.
\<close>

datatype place =
    Pl_queue | Pl_worker nat | Pl_barrier nat nat | Pl_hand nat | Pl_create nat | Pl_kcreate nat

fun pushed :: "vpc \<Rightarrow> bool" where
  "pushed (InBarrier b (B_block r)) = True" | "pushed _ = False"

fun makes :: "vpc \<Rightarrow> nat \<Rightarrow> bool" where
  "makes (InInit v th f x) u \<longleftrightarrow> u = v" | "makes (InEnqueue v) u \<longleftrightarrow> u = v" | "makes _ u \<longleftrightarrow> False"

fun grips :: "vpc \<Rightarrow> nat \<Rightarrow> bool" where
  "grips (InBarrier b (B_enqueue r cw v)) u \<longleftrightarrow> u = v" | "grips _ u \<longleftrightarrow> False"

text \<open>
  A worker is responsible for a thread from taking it off the queue until it puts it back,
  except that a thread that has pushed itself into a barrier queue is in that queue.
\<close>

fun responsible :: "wpc \<Rightarrow> (nat \<Rightarrow> vpc) \<Rightarrow> nat \<Rightarrow> bool" where
  "responsible (W_test v) pcs u \<longleftrightarrow> u = v"
| "responsible (W_requeue v) pcs u \<longleftrightarrow> u = v"
| "responsible (W_run v) pcs u \<longleftrightarrow> u = v \<and> \<not> pushed (pcs v)"
| "responsible (W_ret v r) pcs u \<longleftrightarrow> u = v \<and> r \<noteq> STATUS_BLOCKED"
| "responsible (W_wake v pc) pcs u \<longleftrightarrow> u = v"
| "responsible _ pcs u \<longleftrightarrow> False"

fun at_place :: "('q \<Rightarrow> nat list) \<Rightarrow> 'q hsys \<Rightarrow> nat \<Rightarrow> place \<Rightarrow> bool" where
  "at_place contents s v Pl_queue \<longleftrightarrow> v \<in> set (vs_queue s)"
| "at_place contents s v (Pl_worker w) \<longleftrightarrow>
     w < length (workers s) \<and> responsible (wpc (workers s ! w)) (vpcs s) v"
| "at_place contents s v (Pl_barrier b i) \<longleftrightarrow>
     i < 2 \<and> v \<in> set (contents (blocked_vths (barriers s b) ! i))"
| "at_place contents s v (Pl_hand u) \<longleftrightarrow> grips (vpcs s u) v"
| "at_place contents s v (Pl_create u) \<longleftrightarrow> makes (vpcs s u) v"
| "at_place contents s v (Pl_kcreate k) \<longleftrightarrow> makes (kpcs s k) v"

text \<open>A worker executes a thread until it has returned from \<open>resume\<close> and acted on the result.\<close>

fun executes :: "wpc \<Rightarrow> nat \<Rightarrow> bool" where
  "executes (W_run v) u \<longleftrightarrow> u = v"
| "executes (W_ret v r) u \<longleftrightarrow> u = v"
| "executes (W_wake v pc) u \<longleftrightarrow> u = v"
| "executes _ u \<longleftrightarrow> False"

section \<open>The programs considered\<close>

fun quiet_call :: "call \<Rightarrow> bool" where
  "quiet_call (Wait c m) = False" | "quiet_call (Signal c) = False"
| "quiet_call (Broadcast c) = False" | "quiet_call (Join t rv) = False" | "quiet_call _ = True"

fun is_join :: "call \<Rightarrow> bool" where
  "is_join (Join t rv) = True" | "is_join _ = False"

fun quiet_event :: "event \<Rightarrow> bool" where
  "quiet_event (Exec w (Some c)) = quiet_call c"
| "quiet_event (Kernel k (Some c)) = (quiet_call c \<or> is_join c)"
| "quiet_event _ = True"

fun creates :: "event \<Rightarrow> bool" where
  "creates (Exec w (Some (Create f x))) = True"
| "creates (Kernel k (Some (Create f x))) = True"
| "creates _ = False"

section \<open>The invariant\<close>

fun quiet_vpc :: "vpc \<Rightarrow> bool" where
  "quiet_vpc (InWait c m pc) = False" | "quiet_vpc (InSignal c pc) = False"
| "quiet_vpc (InBroadcast c pc) = False" | "quiet_vpc (InJoin t rv pc) = False" | "quiet_vpc _ = True"

fun quiet_kpc :: "vpc \<Rightarrow> bool" where
  "quiet_kpc (InWait c m pc) = False" | "quiet_kpc (InSignal c pc) = False"
| "quiet_kpc (InBroadcast c pc) = False"
| "quiet_kpc (InJoin t rv pc) = (pc \<notin> {J_block, J_enqueue, J_yield, J_woken})"
| "quiet_kpc _ = True"

fun quiet_wake :: "wake_pc \<Rightarrow> bool" where
  "quiet_wake (WU_unlock h n) = (h = None)" | "quiet_wake (WU_dequeue h n) = (h = None)"
| "quiet_wake (WU_suspend u h n) = False" | "quiet_wake (WU_enqueue u h n) = False"
| "quiet_wake _ = True"

fun quiet_wpc :: "wpc \<Rightarrow> bool" where
  "quiet_wpc (W_ret v (RELEASE_MUTEX m)) = False"
| "quiet_wpc (W_released v) = False" | "quiet_wpc (W_check v) = False" | "quiet_wpc (W_again v) = False"
| "quiet_wpc (W_wake v pc) = quiet_wake pc"
| "quiet_wpc _ = True"

text \<open>The slots of \<open>vid_to_pvth\<close> that the first \<open>k\<close> creations use.\<close>

definition slots :: "nat \<Rightarrow> nat set" where
  "slots k = (\<lambda>i. (15 + i) mod MAX_VTHREADS) ` {..<k}"

text \<open>A thread about to push itself, or that has, is not runnable until its worker has left it.\<close>

fun parking :: "vpc \<Rightarrow> bool" where
  "parking (InBarrier b (B_push r)) = True" | "parking (InBarrier b (B_block r)) = True"
| "parking _ = False"

definition quiet :: "'q hsys \<Rightarrow> bool" where
  "quiet s \<longleftrightarrow> (\<forall>v. quiet_vpc (vpcs s v)) \<and> (\<forall>k. quiet_kpc (kpcs s k)) \<and>
     (\<forall>w < length (workers s). quiet_wpc (wpc (workers s ! w))) \<and>
     (\<forall>v. join_wait_queue (vths (store s) v) = None) \<and>
     (\<forall>b. length (blocked_vths (barriers s b)) = 2)"

definition one_place :: "('q \<Rightarrow> nat list) \<Rightarrow> 'q hsys \<Rightarrow> bool" where
  "one_place contents s \<longleftrightarrow>
     (\<forall>v p q. at_place contents s v p \<longrightarrow> at_place contents s v q \<longrightarrow> p = q) \<and>
     distinct (vs_queue s) \<and> (\<forall>b. \<forall>i < 2. distinct (contents (blocked_vths (barriers s b) ! i)))"

definition executed :: "'q hsys \<Rightarrow> nat \<Rightarrow> nat \<Rightarrow> bool" where
  "executed s w v \<longleftrightarrow> w < length (workers s) \<and> executes (wpc (workers s ! w)) v"

definition one_worker :: "'q hsys \<Rightarrow> bool" where
  "one_worker s \<longleftrightarrow> (\<forall>v w w'. executed s w v \<longrightarrow> executed s w' v \<longrightarrow> w = w')"

definition parked :: "'q hsys \<Rightarrow> bool" where
  "parked s \<longleftrightarrow>
     (\<forall>v. parking (vpcs s v) \<longrightarrow> \<not> runnable (vths (store s) v)) \<and>
     (\<forall>w v. w < length (workers s) \<longrightarrow> wpc (workers s ! w) = W_ret v STATUS_BLOCKED \<longrightarrow>
        \<not> runnable (vths (store s) v) \<and> (\<exists>b r. vpcs s v = InBarrier b (B_woken r)))"

definition known :: "('q \<Rightarrow> nat list) \<Rightarrow> nat \<Rightarrow> 'q hsys \<Rightarrow> bool" where
  "known contents k s \<longleftrightarrow> vs_vid s = of_nat (15 + k) \<and>
     (\<forall>v p. at_place contents s v p \<longrightarrow> v \<in> slots k) \<and> (\<forall>w v. executed s w v \<longrightarrow> v \<in> slots k) \<and>
     (\<forall>v. v \<notin> slots k \<longrightarrow> vpcs s v = User) \<and>
     (\<forall>u v. makes (vpcs s u) v \<or> makes (kpcs s u) v \<longrightarrow> vpcs s v = User)"

definition sched_inv :: "('q \<Rightarrow> nat list) \<Rightarrow> nat \<Rightarrow> 'q hsys \<Rightarrow> bool" where
  "sched_inv contents k s \<longleftrightarrow>
     quiet s \<and> one_place contents s \<and> one_worker s \<and> parked s \<and> known contents k s"

section \<open>How updates change places\<close>

named_theorems place_simps \<open>places, execution and program points after an update of the state\<close>

lemma at_place_frame [place_simps]:
  "at_place contents (s\<lparr>store := x1\<rparr>) v p = at_place contents s v p"
  "at_place contents (s\<lparr>mutexes := x2\<rparr>) v p = at_place contents s v p"
  "at_place contents (s\<lparr>vs_vid := x3\<rparr>) v p = at_place contents s v p"
  "at_place contents (s\<lparr>next_stack := x4\<rparr>) v p = at_place contents s v p"
  "at_place contents (s\<lparr>fault := x5\<rparr>) v p = at_place contents s v p"
  by (cases p; simp)+

lemma at_place_queue [place_simps]:
  "at_place contents (s\<lparr>vs_queue := q\<rparr>) v p = (if p = Pl_queue then v \<in> set q else at_place contents s v p)"
  by (cases p) simp_all

lemma at_place_worker [place_simps]:
  "w < length (workers s) \<Longrightarrow>
   at_place contents (s\<lparr>workers := (workers s)[w := x]\<rparr>) v p =
     (if p = Pl_worker w then responsible (wpc x) (vpcs s) v else at_place contents s v p)"
  by (cases p) (auto simp: nth_list_update)

lemma at_place_barrier [place_simps]:
  "length (blocked_vths (barriers s b)) = 2 \<Longrightarrow> i < 2 \<Longrightarrow>
   at_place contents (s\<lparr>barriers := (barriers s)(b := x\<lparr>blocked_vths := (blocked_vths (barriers s b))[i := q]\<rparr>)\<rparr>) v p =
     (if p = Pl_barrier b i then v \<in> set (contents q) else at_place contents s v p)"
  by (cases p) (auto simp: nth_list_update)

lemma at_place_same_barrier [place_simps]:
  "blocked_vths x = blocked_vths (barriers s b) \<Longrightarrow>
   at_place contents (s\<lparr>barriers := (barriers s)(b := x)\<rparr>) v p = at_place contents s v p"
  by (cases p) auto

lemma executed_frame [place_simps]:
  "executed (s\<lparr>store := x1\<rparr>) w v = executed s w v" "executed (s\<lparr>mutexes := x2\<rparr>) w v = executed s w v"
  "executed (s\<lparr>vs_vid := x3\<rparr>) w v = executed s w v" "executed (s\<lparr>next_stack := x4\<rparr>) w v = executed s w v"
  "executed (s\<lparr>fault := x5\<rparr>) w v = executed s w v" "executed (s\<lparr>vs_queue := x6\<rparr>) w v = executed s w v"
  "executed (s\<lparr>barriers := x7\<rparr>) w v = executed s w v" "executed (s\<lparr>vpcs := x8\<rparr>) w v = executed s w v"
  "executed (s\<lparr>kpcs := x9\<rparr>) w v = executed s w v"
  by (simp_all add: executed_def)

lemma executed_worker [place_simps]:
  "w < length (workers s) \<Longrightarrow>
   executed (s\<lparr>workers := (workers s)[w := x]\<rparr>) w' v = (if w' = w then executes (wpc x) v else executed s w' v)"
  by (auto simp: executed_def nth_list_update)

lemma sched_invD:
  assumes "sched_inv contents k s"
  shows "quiet s" "one_place contents s" "one_worker s" "parked s" "known contents k s"
  using assms by (simp_all add: sched_inv_def)

lemma unique_place:
  "sched_inv contents k s \<Longrightarrow> at_place contents s v p \<Longrightarrow> at_place contents s v q \<Longrightarrow> p = q"
  by (auto simp: sched_inv_def one_place_def)

lemma unique_worker: "sched_inv contents k s \<Longrightarrow> executed s w v \<Longrightarrow> executed s w' v \<Longrightarrow> w = w'"
  by (auto simp: sched_inv_def one_worker_def)

text \<open>
  A step that moves at most thread \<open>v\<close>, to at most one place, keeps every thread in at most one
  place.
\<close>

lemma place_move:
  assumes inv: "sched_inv contents k s"
    and others: "\<And>u p. u \<noteq> v \<Longrightarrow> at_place contents s' u p = at_place contents s u p"
    and new: "\<And>p. at_place contents s' v p \<Longrightarrow> p = dest" and slot: "v \<in> slots k"
  shows "at_place contents s' u p \<Longrightarrow> at_place contents s' u q \<Longrightarrow> p = q"
    and "at_place contents s' u p \<Longrightarrow> u \<in> slots k"
  using others [of u] unique_place [OF inv, of u p q] new [of p] new [of q] slot sched_invD(5) [OF inv]
  by (cases "u = v"; simp add: known_def; blast)+

lemma place_same:
  assumes inv: "sched_inv contents k s"
    and same: "\<And>u p. at_place contents s' u p = at_place contents s u p"
  shows "at_place contents s' u p \<Longrightarrow> at_place contents s' u q \<Longrightarrow> p = q"
    and "at_place contents s' u p \<Longrightarrow> u \<in> slots k"
  unfolding same using unique_place [OF inv] sched_invD(5) [OF inv] by (auto simp: known_def)

section \<open>Worker steps\<close>

text \<open>A worker moves to another program point with one change of the queue and of the store.\<close>

lemma sched_inv_worker:
  assumes inv: "sched_inv contents k s" and w: "w < length (workers s)"
    and s': "s' = s\<lparr>store := st, vs_queue := q, workers := (workers s)[w := x]\<rparr>"
    and st: "\<And>u. join_wait_queue (vths st u) = None"
      "\<And>u. \<not> runnable (vths (store s) u) \<Longrightarrow> \<not> parking (vpcs s u) \<and> (\<forall>w'. w' \<noteq> w \<longrightarrow> \<not> executed s w' u) \<or> \<not> runnable (vths st u)"
    and x: "quiet_wpc (wpc x)"
      "\<And>u. executes (wpc x) u \<Longrightarrow> executed s w u \<or> (\<forall>w'. \<not> executed s w' u) \<and> u \<in> slots k"
      "\<And>u. wpc x \<noteq> W_ret u STATUS_BLOCKED"
    and q: "distinct q"
    and place: "\<And>u p p'. at_place contents s' u p \<Longrightarrow> at_place contents s' u p' \<Longrightarrow> p = p'"
      "\<And>u p. at_place contents s' u p \<Longrightarrow> u \<in> slots k"
  shows "sched_inv contents k s'"
proof -
  note D = sched_invD [OF inv]
  have ex: "executed s' w' u = (if w' = w then executes (wpc x) u else executed s w' u)" for w' u
    using w by (simp add: s' executed_def nth_list_update)
  have "quiet s'"
    using D(1) st(1) x(1) w by (auto simp: quiet_def s' nth_list_update)
  moreover have "one_place contents s'"
    using D(2) q place(1) by (auto simp: s' one_place_def)
  moreover have "one_worker s'"
    unfolding one_worker_def ex using x(2) unique_worker [OF inv] by metis
  moreover have "parked s'"
  proof -
    have "\<not> runnable (vths st u)" if "parking (vpcs s u)" for u
      using D(4) st(2) [of u] that by (auto simp: parked_def)
    moreover have "\<not> runnable (vths st u) \<and> (\<exists>b r. vpcs s u = InBarrier b (B_woken r))"
      if "w' \<noteq> w" "w' < length (workers s)" "wpc (workers s ! w') = W_ret u STATUS_BLOCKED" for w' u
      using D(4) st(2) [of u] that by (auto simp: parked_def executed_def)
    ultimately show ?thesis using w x(3) unfolding parked_def s'
      by (simp add: nth_list_update) metis
  qed
  moreover have "known contents k s'"
  proof -
    have "u \<in> slots k" if "executes (wpc x) u" for u
      using D(5) x(2) [OF that] by (auto simp: known_def)
    moreover have "vs_vid s' = vs_vid s" "vpcs s' = vpcs s" "kpcs s' = kpcs s" by (simp_all add: s')
    ultimately show ?thesis using D(5) place(2) unfolding known_def ex by simp
  qed
  ultimately show ?thesis by (simp add: sched_inv_def)
qed

lemma sched_inv_facts:
  assumes inv: "sched_inv contents k s"
  shows "join_wait_queue (vths (store s) u) = None" "distinct (vs_queue s)"
    "at_place contents s u p \<Longrightarrow> u \<in> slots k" "executed s w u \<Longrightarrow> u \<in> slots k"
  using sched_invD [OF inv] by (auto simp: quiet_def one_place_def known_def)

text \<open>The place of the thread a worker is responsible for.\<close>

lemma only_worker:
  assumes inv: "sched_inv contents k s" and w: "w < length (workers s)"
    and r: "responsible (wpc (workers s ! w)) (vpcs s) v"
  shows "at_place contents s v p \<longleftrightarrow> p = Pl_worker w"
  using unique_place [OF inv, of v p "Pl_worker w"] w r by auto

lemma sched_inv_get:
  assumes inv: "sched_inv contents k s" and w: "w < length (workers s)"
    and pc: "wpc (workers s ! w) = W_get"
  shows "sched_inv contents k (worker_step w i W_get s)"
proof (cases "vs_queue s = []")
  case False
  define v where "v = vs_queue s ! (i mod length (vs_queue s))"
  note F = sched_inv_facts [OF inv]
  have vq: "v \<in> set (vs_queue s)" using False by (simp add: v_def)
  then have only: "at_place contents s v p \<longleftrightarrow> p = Pl_queue" for p
    using unique_place [OF inv, of v p Pl_queue] by auto
  have v: "v \<in> slots k" using F(3) [of v Pl_queue] vq by simp
  have gone: "u \<in> set (remove1 v (vs_queue s)) \<longleftrightarrow> u \<in> set (vs_queue s) \<and> u \<noteq> v" for u
    using F(2) by (auto simp: set_remove1_eq)
  let ?s = "s\<lparr>store := upd_vth v (owner_update (\<lambda>_. Some w)) (store s),
      vs_queue := remove1 v (vs_queue s), workers := (workers s)[w := (workers s ! w)\<lparr>wpc := W_test v\<rparr>]\<rparr>"
  have 1: "at_place contents ?s u p = at_place contents s u p" if "u \<noteq> v" for u p
    using w pc that by (cases p) (auto simp: gone nth_list_update)
  have 2: "p = Pl_worker w" if "at_place contents ?s v p" for p
    using that w only [of p] gone [of v] by (cases p) (auto split: if_splits simp: nth_list_update)
  have "sched_inv contents k ?s"
    by (rule sched_inv_worker [OF inv w refl _ _ _ _ _ _ place_move [OF inv 1 2 v]]) (use F in auto)
  then show ?thesis using False by (simp add: Let_def v_def)
qed (use inv in simp)

lemma sched_inv_test:
  assumes inv: "sched_inv contents k s" and w: "w < length (workers s)"
    and pc: "wpc (workers s ! w) = W_test v"
  shows "sched_inv contents k (worker_step w i (W_test v) s)"
proof -
  note F = sched_inv_facts [OF inv]
  note only = only_worker [OF inv w, of v, unfolded pc, simplified]
  have v: "v \<in> slots k" using F(3) [of v "Pl_worker w"] only by blast
  show ?thesis
  proof (cases "runnable (vths (store s) v)")
    case False
    let ?s = "s\<lparr>store := store s, vs_queue := vs_queue s,
        workers := (workers s)[w := (workers s ! w)\<lparr>wpc := W_requeue v\<rparr>]\<rparr>"
    have same: "at_place contents ?s u p = at_place contents s u p" for u p
      using w pc by (cases p) (auto simp: nth_list_update)
    have "sched_inv contents k ?s"
      by (rule sched_inv_worker [OF inv w refl _ _ _ _ _ _ place_same [OF inv same]]) (use F in auto)
    then show ?thesis using False by simp
  next
    case True
    then have np: "\<not> pushed (vpcs s v)"
      using sched_invD(4) [OF inv] by (auto simp: parked_def elim!: pushed.elims)
    have free: "\<not> executed s w' v" for w'
    proof
      assume ex: "executed s w' v"
      then have "responsible (wpc (workers s ! w')) (vpcs s) v"
        using True np sched_invD(4) [OF inv] by (auto simp: executed_def parked_def elim!: executes.elims)
      then have "at_place contents s v (Pl_worker w')" using ex by (simp add: executed_def)
      then have "w' = w" using only [of "Pl_worker w'"] by blast
      with ex pc show False by (simp add: executed_def)
    qed
    let ?s = "s\<lparr>store := store s, vs_queue := vs_queue s,
        workers := (workers s)[w := (workers s ! w)\<lparr>task := Some v, wpc := W_run v\<rparr>]\<rparr>"
    have same: "at_place contents ?s u p = at_place contents s u p" for u p
      using w pc np by (cases p) (auto simp: nth_list_update)
    have "sched_inv contents k ?s"
      by (rule sched_inv_worker [OF inv w refl _ _ _ _ _ _ place_same [OF inv same]]) (use F v free in auto)
    then show ?thesis using True by simp
  qed
qed

text \<open>A worker puts the thread it is responsible for back into the run queue.\<close>

lemma sched_inv_enqueue:
  assumes inv: "sched_inv contents k s" and w: "w < length (workers s)"
    and r: "\<And>u. responsible (wpc (workers s ! w)) (vpcs s) u \<longleftrightarrow> u = v"
  shows "sched_inv contents k (set_wpc w W_loop (apply_effect (Enqueue v) s))"
proof -
  note F = sched_inv_facts [OF inv]
  note only = only_worker [OF inv w, of v, unfolded r, OF refl]
  have v: "v \<in> slots k" using F(3) [of v "Pl_worker w"] only by blast
  have nq: "v \<notin> set (vs_queue s)" using only [of Pl_queue] by simp
  let ?s = "s\<lparr>store := store s, vs_queue := vs_queue s @ [v],
      workers := (workers s)[w := (workers s ! w)\<lparr>wpc := W_loop\<rparr>]\<rparr>"
  have 1: "at_place contents ?s u p = at_place contents s u p" if "u \<noteq> v" for u p
    using w r [of u] that by (cases p) (auto simp: nth_list_update)
  have 2: "p = Pl_queue" if "at_place contents ?s v p" for p
    using that w only [of p] by (cases p) (auto split: if_splits simp: nth_list_update)
  have "sched_inv contents k ?s"
    by (rule sched_inv_worker [OF inv w refl _ _ _ _ _ _ place_move [OF inv 1 2 v]]) (use F nq in auto)
  then show ?thesis by simp
qed

lemma sched_inv_loop:
  assumes inv: "sched_inv contents k s" and w: "w < length (workers s)"
    and r: "\<And>u. \<not> responsible (wpc (workers s ! w)) (vpcs s) u" and pc: "pc = W_loop \<or> pc = W_get"
    and st: "\<And>u. join_wait_queue (vths st u) = None"
      "\<And>u. \<not> runnable (vths (store s) u) \<Longrightarrow> \<not> parking (vpcs s u) \<and> (\<forall>w'. w' \<noteq> w \<longrightarrow> \<not> executed s w' u) \<or> \<not> runnable (vths st u)"
  shows "sched_inv contents k (set_wpc w pc (s\<lparr>store := st\<rparr>))"
proof -
  note F = sched_inv_facts [OF inv]
  let ?s = "s\<lparr>store := st, vs_queue := vs_queue s, workers := (workers s)[w := (workers s ! w)\<lparr>wpc := pc\<rparr>]\<rparr>"
  have same: "at_place contents ?s u p = at_place contents s u p" for u p
    using w r [of u] pc by (cases p) (auto simp: nth_list_update)
  have "sched_inv contents k ?s"
    by (rule sched_inv_worker [OF inv w refl st _ _ _ _ place_same [OF inv same]]) (use F pc in auto)
  then show ?thesis by simp
qed

text \<open>
  A step of \<open>wake_up_joined\<close> with no virtual thread waiting: nothing is enqueued, \<open>runnable\<close>
  does not change, and the wait lists stay empty.
\<close>

lemma wake_step_quiet:
  assumes "quiet_wake pc" and "\<And>u. join_wait_queue (vths st u) = None"
    and "wake_up_joined_step v pc st = (act, st', es)"
  shows "(\<forall>u. join_wait_queue (vths st' u) = None) \<and>
     (\<forall>u. runnable (vths st' u) = runnable (vths st u)) \<and>
     (es = [] \<or> es = [Set_status v STATUS_FINISHED]) \<and> (\<forall>pc'. act = Go pc' \<longrightarrow> quiet_wake pc')"
  using assms
  by (cases pc) (auto simp: Let_def node_dequeue_def set_next_def store_cell_def sync_defs
      split: if_splits option.splits)

lemma sched_inv_wake:
  assumes inv: "sched_inv contents k s" and w: "w < length (workers s)"
    and pc: "wpc (workers s ! w) = W_wake v wp"
  shows "sched_inv contents k (worker_step w i (W_wake v wp) s)"
proof -
  note F = sched_inv_facts [OF inv]
  note only = only_worker [OF inv w, of v, unfolded pc, simplified]
  have v: "v \<in> slots k" using F(3) [of v "Pl_worker w"] only by blast
  have qw: "quiet_wake wp" using sched_invD(1) [OF inv] w pc by (fastforce simp: quiet_def)
  obtain act st' es where step: "wake_up_joined_step v wp (store s) = (act, st', es)"
    by (cases "wake_up_joined_step v wp (store s)") auto
  note Q = wake_step_quiet [OF qw F(1) step]
  define st'' where "st'' = store (apply_effects es (s\<lparr>store := st'\<rparr>))"
  have es: "apply_effects es (s\<lparr>store := st'\<rparr>) = s\<lparr>store := st''\<rparr>"
    using Q by (auto simp: st''_def)
  have st'': "join_wait_queue (vths st'' u) = None" "runnable (vths st'' u) = runnable (vths (store s) u)" for u
    using Q by (auto simp: st''_def split: if_splits)
  show ?thesis
  proof (cases act)
    case (Go wp')
    let ?s = "s\<lparr>store := st'', vs_queue := vs_queue s,
        workers := (workers s)[w := (workers s ! w)\<lparr>wpc := W_wake v wp'\<rparr>]\<rparr>"
    have same: "at_place contents ?s u p = at_place contents s u p" for u p
      using w pc by (cases p) (auto simp: nth_list_update)
    have "sched_inv contents k ?s"
      by (rule sched_inv_worker [OF inv w refl _ _ _ _ _ _ place_same [OF inv same]])
        (use F v st'' Q Go pc w in \<open>auto simp: executed_def\<close>)
    then show ?thesis using step Go es by (simp add: Let_def)
  next
    case (Yield r wp')
    have "sched_inv contents k (s\<lparr>store := st'', fault := True\<rparr>)"
      using inv st'' unfolding sched_inv_def quiet_def one_place_def one_worker_def parked_def known_def
        place_simps by simp
    then show ?thesis using step Yield es by (simp add: Let_def)
  next
    case (Return x)
    let ?s = "s\<lparr>store := st'', vs_queue := vs_queue s,
        workers := (workers s)[w := (workers s ! w)\<lparr>wpc := W_loop\<rparr>]\<rparr>"
    have 1: "at_place contents ?s u p = at_place contents s u p" if "u \<noteq> v" for u p
      using w pc that by (cases p) (auto simp: nth_list_update)
    have 2: "p = Pl_queue" if "at_place contents ?s v p" for p
      using that w only [of p] by (cases p) (auto simp: nth_list_update split: if_splits)
    have "sched_inv contents k ?s"
      by (rule sched_inv_worker [OF inv w refl _ _ _ _ _ _ place_move [OF inv 1 2 v]])
        (use F st'' in auto)
    then show ?thesis using step Return es by (simp add: Let_def)
  qed
qed

lemma sched_inv_worker_step:
  assumes inv: "sched_inv contents k s" and w: "w < length (workers s)"
  shows "sched_inv contents k (worker_step w i (wpc (workers s ! w)) s)"
proof -
  note F = sched_inv_facts [OF inv]
  have q: "quiet_wpc (wpc (workers s ! w))" using sched_invD(1) [OF inv] w by (simp add: quiet_def)
  show ?thesis
  proof (cases "wpc (workers s ! w)")
    case W_loop
    then show ?thesis using sched_inv_loop [OF inv w, of W_get "store s"] F(1) inv by simp
  next
    case W_get
    then show ?thesis using sched_inv_get [OF inv w] by metis
  next
    case (W_test v)
    then show ?thesis using sched_inv_test [OF inv w] by metis
  next
    case (W_requeue v)
    then show ?thesis using sched_inv_enqueue [OF inv w, of v] by simp
  next
    case (W_run v)
    then show ?thesis using inv by simp
  next
    case (W_wake v wp)
    then show ?thesis using sched_inv_wake [OF inv w] by metis
  next
    case (W_ret v r)
    show ?thesis
    proof (cases r)
      case STATUS_FINISHED
      let ?s = "s\<lparr>store := store s, vs_queue := vs_queue s,
          workers := (workers s)[w := (workers s ! w)\<lparr>wpc := W_wake v WU_delete\<rparr>]\<rparr>"
      have same: "at_place contents ?s u p = at_place contents s u p" for u p
        using w W_ret STATUS_FINISHED by (cases p) (auto simp: nth_list_update)
      have "sched_inv contents k ?s"
        by (rule sched_inv_worker [OF inv w refl _ _ _ _ _ _ place_same [OF inv same]])
          (use F W_ret w in \<open>auto simp: executed_def\<close>)
      then show ?thesis using W_ret STATUS_FINISHED by simp
    next
      case STATUS_BLOCKED
      have other: "\<not> executed s w' v" if "w' \<noteq> w" for w'
        using W_ret w unique_worker [OF inv, of w v w'] that by (auto simp: executed_def)
      obtain b r' where "vpcs s v = InBarrier b (B_woken r')"
        using sched_invD(4) [OF inv] W_ret STATUS_BLOCKED w unfolding parked_def by blast
      then have "\<not> parking (vpcs s v)" by simp
      then show ?thesis using W_ret STATUS_BLOCKED other F(1)
          sched_inv_loop [OF inv w, of W_loop "upd_vth v (runnable_update (\<lambda>_. True)) (store s)"]
        by auto
    qed (use W_ret q sched_inv_enqueue [OF inv w, of v] in auto)
  qed (use q in auto)
qed

section \<open>Steps of a running thread\<close>

text \<open>A thread that is being created is not executed.\<close>

lemma made_not_executed:
  assumes inv: "sched_inv contents k s" and m: "makes (vpcs s u) v \<or> makes (kpcs s u) v"
  shows "\<not> executed s w v"
proof
  assume ex: "executed s w v"
  have user: "vpcs s v = User" using sched_invD(5) [OF inv] m by (auto simp: known_def)
  have "wpc (workers s ! w) \<noteq> W_ret v STATUS_BLOCKED"
    using sched_invD(4) [OF inv] ex user by (auto simp: parked_def executed_def)
  then have "at_place contents s v (Pl_worker w)"
    using ex user by (auto simp: executed_def elim!: executes.elims)
  moreover have "at_place contents s v (Pl_create u) \<or> at_place contents s v (Pl_kcreate u)"
    using m by auto
  ultimately show False using unique_place [OF inv] by blast
qed

lemma sched_inv_exec:
  assumes inv: "sched_inv contents k s" and w: "w < length (workers s)"
    and run: "wpc (workers s ! w) = W_run v"
    and f: "vpcs s' = (vpcs s)(v := pc')" "kpcs s' = kpcs s" "workers s' = (workers s)[w := x]"
    and x: "wpc x = W_run v \<or> (\<exists>r. wpc x = W_ret v r)" "quiet_wpc (wpc x)"
      "wpc x = W_ret v STATUS_BLOCKED \<Longrightarrow> \<not> runnable (vths (store s') v) \<and> (\<exists>b r. pc' = InBarrier b (B_woken r))"
    and pc': "quiet_vpc pc'" "parking pc' \<Longrightarrow> \<not> runnable (vths (store s') v)"
    and st: "\<And>u. join_wait_queue (vths (store s') u) = None"
      "\<And>u. u \<noteq> v \<Longrightarrow> (\<exists>w. executed s w u) \<or> parking (vpcs s u) \<Longrightarrow>
         runnable (vths (store s') u) = runnable (vths (store s) u)"
    and bars: "\<And>b. length (blocked_vths (barriers s' b)) = 2"
      "\<And>b i. i < 2 \<Longrightarrow> distinct (contents (blocked_vths (barriers s' b) ! i))"
    and q: "distinct (vs_queue s')"
    and k': "vs_vid s' = of_nat (15 + k')" "k \<le> k'"
    and made: "\<And>u. makes pc' u \<Longrightarrow> vpcs s u = User \<and> u \<noteq> v"
    and place: "\<And>u p p'. at_place contents s' u p \<Longrightarrow> at_place contents s' u p' \<Longrightarrow> p = p'"
      "\<And>u p. at_place contents s' u p \<Longrightarrow> u \<in> slots k'"
  shows "sched_inv contents k' s'"
proof -
  note D = sched_invD [OF inv]
  have sub: "slots k \<subseteq> slots k'" using k'(2) by (auto simp: slots_def)
  have exv: "executed s w v" using w run by (simp add: executed_def)
  have ex: "executed s' w' u = executed s w' u" for w' u
    using w run x(1) by (auto simp: executed_def f(3) nth_list_update)
  have vk: "v \<in> slots k'" using sched_inv_facts(4) [OF inv exv] sub by auto
  have "quiet s'"
    using D(1) st(1) x(2) w pc'(1) bars(1) by (auto simp: quiet_def f nth_list_update)
  moreover have "one_place contents s'" using place(1) q bars(2) by (auto simp: one_place_def)
  moreover have "one_worker s'" using D(3) unfolding one_worker_def ex .
  moreover have "parked s'"
  proof -
    have 1: "\<not> runnable (vths (store s') u)" if "parking (vpcs s' u)" for u
      using that D(4) pc'(2) st(2) [of u] by (cases "u = v") (auto simp: f(1) parked_def)
    have 2: "\<not> runnable (vths (store s') u) \<and> (\<exists>b r. vpcs s' u = InBarrier b (B_woken r))"
      if w': "w' < length (workers s)" "wpc (workers s' ! w') = W_ret u STATUS_BLOCKED" for w' u
    proof (cases "w' = w")
      case True
      then have "u = v" using x(1) that w by (auto simp: f(3))
      then show ?thesis using True that w x(3) by (simp add: f)
    next
      case False
      then have r: "wpc (workers s ! w') = W_ret u STATUS_BLOCKED" using that by (simp add: f(3))
      then have exu: "executed s w' u" using w'(1) by (simp add: executed_def)
      then have "u \<noteq> v" using unique_worker [OF inv exv, of w'] False by auto
      moreover have "\<not> runnable (vths (store s) u) \<and> (\<exists>b r. vpcs s u = InBarrier b (B_woken r))"
        using D(4) r w'(1) by (auto simp: parked_def)
      ultimately show ?thesis using st(2) [of u] exu by (auto simp: f(1))
    qed
    show ?thesis unfolding parked_def using 1 2 by (simp add: f(3))
  qed
  moreover have "known contents k' s'"
  proof -
    have "vpcs s' u = User" if "u \<notin> slots k'" for u
      using D(5) that sub vk by (auto simp: known_def f(1))
    moreover have "vpcs s' u = User" if "makes (vpcs s' t) u \<or> makes (kpcs s' t) u" for t u
    proof (cases "t = v \<and> makes pc' u")
      case True
      then show ?thesis using made [of u] by (simp add: f(1))
    next
      case False
      then have m: "makes (vpcs s t) u \<or> makes (kpcs s t) u" using that by (auto simp: f split: if_splits)
      then have "vpcs s u = User" using D(5) by (auto simp: known_def)
      moreover have "u \<noteq> v" using made_not_executed [OF inv m] exv by auto
      ultimately show ?thesis by (simp add: f(1))
    qed
    moreover have "executed s' w' u \<Longrightarrow> u \<in> slots k'" for w' u
      using sched_inv_facts(4) [OF inv] sub unfolding ex by blast
    ultimately show ?thesis unfolding known_def using k'(1) place(2) by blast
  qed
  ultimately show ?thesis by (simp add: sched_inv_def)
qed

text \<open>The places after a step of the running thread.\<close>

lemma exec_places:
  assumes inv: "sched_inv contents k s" and w: "w < length (workers s)"
    and run: "wpc (workers s ! w) = W_run v"
    and f: "vpcs s' = (vpcs s)(v := pc')" "kpcs s' = kpcs s" "workers s' = (workers s)[w := x]"
  shows "at_place contents s' u p =
    (case p of
       Pl_queue \<Rightarrow> u \<in> set (vs_queue s')
     | Pl_barrier b i \<Rightarrow> i < 2 \<and> u \<in> set (contents (blocked_vths (barriers s' b) ! i))
     | Pl_worker w' \<Rightarrow> if w' = w then responsible (wpc x) (vpcs s') u else at_place contents s u p
     | Pl_hand t \<Rightarrow> if t = v then grips pc' u else at_place contents s u p
     | Pl_create t \<Rightarrow> if t = v then makes pc' u else at_place contents s u p
     | Pl_kcreate t \<Rightarrow> at_place contents s u p)"
proof -
  have exv: "executed s w v" using w run by (simp add: executed_def)
  have "responsible (wpc (workers s ! w')) (vpcs s') u = responsible (wpc (workers s ! w')) (vpcs s) u"
    if "w' \<noteq> w" "w' < length (workers s)" for w'
  proof (cases "wpc (workers s ! w')")
    case (W_run t)
    then have "t \<noteq> v" using unique_worker [OF inv exv, of w'] that by (auto simp: executed_def)
    with W_run show ?thesis by (simp add: f(1))
  qed simp_all
  then show ?thesis using w by (cases p) (auto simp: f nth_list_update)
qed

text \<open>A step after which the thread is where it was, and so is everybody else.\<close>

definition nobody :: "vpc \<Rightarrow> bool" where
  "nobody pc \<longleftrightarrow> \<not> pushed pc \<and> (\<forall>u. \<not> grips pc u \<and> \<not> makes pc u)"

definition same_queues :: "('q \<Rightarrow> nat list) \<Rightarrow> 'q hsys \<Rightarrow> 'q hsys \<Rightarrow> bool" where
  "same_queues contents s s' \<longleftrightarrow> (\<forall>b. length (blocked_vths (barriers s' b)) = 2 \<and>
     (\<forall>i < 2. contents (blocked_vths (barriers s' b) ! i) = contents (blocked_vths (barriers s b) ! i)))"

lemma sched_inv_plain:
  assumes inv: "sched_inv contents k s" and w: "w < length (workers s)"
    and run: "wpc (workers s ! w) = W_run v"
    and f: "vpcs s' = (vpcs s)(v := pc')" "kpcs s' = kpcs s" "workers s' = (workers s)[w := x]"
      "vs_queue s' = vs_queue s" "vs_vid s' = vs_vid s"
    and x: "wpc x = W_run v \<or> (\<exists>r. wpc x = W_ret v r \<and> r \<noteq> STATUS_BLOCKED)" "quiet_wpc (wpc x)"
    and nobody: "nobody (vpcs s v)" "nobody pc'"
    and pc': "quiet_vpc pc'" "parking pc' \<Longrightarrow> \<not> runnable (vths (store s') v)"
    and st: "\<And>u. join_wait_queue (vths (store s') u) = None"
      "\<And>u. u \<noteq> v \<Longrightarrow> runnable (vths (store s') u) = runnable (vths (store s) u)"
    and bars: "same_queues contents s s'"
  shows "sched_inv contents k s'"
proof -
  have same: "at_place contents s' u p = at_place contents s u p" for u p
    unfolding exec_places [OF inv w run f(1-3)] using w run x(1) nobody bars
    by (cases p) (auto simp: f nobody_def same_queues_def)
  have "distinct (contents (blocked_vths (barriers s' b) ! i))" if "i < 2" for b i
    using bars that sched_invD(2) [OF inv] by (auto simp: same_queues_def one_place_def)
  moreover have "vs_vid s' = of_nat (15 + k)" using sched_invD(5) [OF inv] f(5) by (simp add: known_def)
  moreover have "wpc x = W_run v \<or> (\<exists>r. wpc x = W_ret v r)" "wpc x \<noteq> W_ret v STATUS_BLOCKED" using x(1) by auto
  ultimately show ?thesis
    using nobody(2) bars f(4) sched_inv_facts(2) [OF inv] x(2)
    by (intro sched_inv_exec [OF inv w run f(1-3) _ _ _ pc' st _ _ _ _ _ _ place_same [OF inv same]])
      (simp_all add: nobody_def same_queues_def)
qed

text \<open>The fields of the state after a step of the running thread.\<close>

definition worker_after :: "nat \<Rightarrow> vpc action \<Rightarrow> worker \<Rightarrow> worker" where
  "worker_after v act x = (case act of Yield r _ \<Rightarrow> x\<lparr>task := None, wpc := W_ret v r\<rparr> | _ \<Rightarrow> x)"

lemma exec_fields:
  assumes step: "thread_step bq (Some v) c (vpcs s v) s = Some (act, s1)" and same: "workers s1 = workers s"
  shows "vpcs (exec_thread bq w v c s) = (vpcs s1)(v := next_pc act)"
    "kpcs (exec_thread bq w v c s) = kpcs s1"
    "workers (exec_thread bq w v c s) = (workers s)[w := worker_after v act (workers s ! w)]"
    "vs_queue (exec_thread bq w v c s) = vs_queue s1" "vs_vid (exec_thread bq w v c s) = vs_vid s1"
    "store (exec_thread bq w v c s) = store s1" "barriers (exec_thread bq w v c s) = barriers s1"
  using step same by (auto simp: exec_thread_def Let_def worker_after_def split: action.splits)

fun plain_action :: "vpc action \<Rightarrow> bool" where
  "plain_action (Go pc) \<longleftrightarrow> quiet_vpc pc \<and> nobody pc"
| "plain_action (Yield r pc) \<longleftrightarrow>
     r \<in> {STATUS_SUSPENDED, STATUS_LOCKFAIL, STATUS_FINISHED} \<and> quiet_vpc pc \<and> nobody pc"
| "plain_action (Return x) \<longleftrightarrow> True"

lemma nobody_simps [simp]:
  "nobody User" "nobody (InLock m)" "nobody (InExit x xpc)" "nobody InYield" "nobody (InJoin t rv jp)"
  "nobody (InBarrier b pc) \<longleftrightarrow> (\<forall>r. pc \<noteq> B_block r) \<and> (\<forall>r cw u. pc \<noteq> B_enqueue r cw u)"
  by (auto simp: nobody_def elim: pushed.elims grips.elims)

lemma plain_action_next:
  "plain_action act \<Longrightarrow> quiet_vpc (next_pc act) \<and> nobody (next_pc act)"
  by (cases act) auto

lemma sched_inv_exec_plain:
  assumes inv: "sched_inv contents k s" and w: "w < length (workers s)"
    and run: "wpc (workers s ! w) = W_run v"
    and step: "thread_step bq (Some v) c (vpcs s v) s = Some (act, s1)"
    and s1: "workers s1 = workers s" "vpcs s1 = vpcs s" "kpcs s1 = kpcs s" "vs_queue s1 = vs_queue s"
      "vs_vid s1 = vs_vid s"
    and act: "plain_action act" "nobody (vpcs s v)"
      "parking (next_pc act) \<Longrightarrow> \<not> runnable (vths (store s1) v)"
    and st: "\<And>u. join_wait_queue (vths (store s1) u) = None"
      "\<And>u. u \<noteq> v \<Longrightarrow> runnable (vths (store s1) u) = runnable (vths (store s) u)"
    and bars: "same_queues contents s s1"
  shows "sched_inv contents k (exec_thread bq w v c s)"
proof -
  note f = exec_fields [OF step s1(1), of w]
  have after: "wpc (worker_after v act (workers s ! w)) = W_run v \<or>
      (\<exists>r. wpc (worker_after v act (workers s ! w)) = W_ret v r \<and> r \<noteq> STATUS_BLOCKED)"
    "quiet_wpc (wpc (worker_after v act (workers s ! w)))"
    using act(1) run by (cases act; auto simp: worker_after_def)+
  show ?thesis
    by (rule sched_inv_plain [OF inv w run f(1) [unfolded s1] f(2) [unfolded s1] f(3)
          f(4) [unfolded s1] f(5) [unfolded s1] after act(2)])
      (use plain_action_next [OF act(1)] act(3) st bars in \<open>simp_all add: f same_queues_def\<close>)
qed

lemma same_queuesI:
  assumes "sched_inv contents k s" and "\<And>b. blocked_vths (barriers s' b) = blocked_vths (barriers s b)"
  shows "same_queues contents s s'"
  using assms sched_invD(1) [OF assms(1)] by (simp add: same_queues_def quiet_def)

lemma sched_inv_fault: "sched_inv contents k s \<Longrightarrow> sched_inv contents k (s\<lparr>fault := True\<rparr>)"
  unfolding sched_inv_def quiet_def one_place_def one_worker_def parked_def known_def place_simps by simp

text \<open>A step of a running thread either faults or is a step of its operation.\<close>

lemma exec_cases:
  assumes inv: "sched_inv contents k s"
    and step: "\<And>act s1. thread_step bq (Some v) c (vpcs s v) s = Some (act, s1) \<Longrightarrow>
      sched_inv contents k' (exec_thread bq w v c s)"
    and k': "thread_step bq (Some v) c (vpcs s v) s = None \<Longrightarrow> k' = k"
  shows "sched_inv contents k' (exec_thread bq w v c s)"
  using step k' sched_inv_fault [OF inv]
  by (cases "thread_step bq (Some v) c (vpcs s v) s") (auto simp: exec_thread_def)

lemma exec_start:
  assumes inv: "sched_inv contents k s" and w: "w < length (workers s)"
    and run: "wpc (workers s ! w) = W_run v" and pc: "vpcs s v = User"
    and c: "case c of None \<Rightarrow> True | Some call \<Rightarrow> quiet_call call \<and> (\<forall>f x. call \<noteq> Create f x)"
  shows "sched_inv contents k (exec_thread bq w v c s)"
proof -
  note F = sched_inv_facts [OF inv]
  show ?thesis
  proof (rule exec_cases [OF inv])
    fix act s1 assume step: "thread_step bq (Some v) c (vpcs s v) s = Some (act, s1)"
    have "plain_action act \<and> \<not> parking (next_pc act) \<and> workers s1 = workers s \<and> vpcs s1 = vpcs s \<and>
        kpcs s1 = kpcs s \<and> vs_queue s1 = vs_queue s \<and> vs_vid s1 = vs_vid s \<and> barriers s1 = barriers s \<and>
        (\<forall>u. join_wait_queue (vths (store s1) u) = None) \<and>
        (\<forall>u. u \<noteq> v \<longrightarrow> runnable (vths (store s1) u) = runnable (vths (store s) u))"
    proof (cases c)
      case (Some call)
      then show ?thesis using step pc c F(1)
        by (cases call) (auto simp: thread_step_def manage_return_def pthread_mutex_unlock_def)
    qed (use step pc F(1) in \<open>auto simp: thread_step_def\<close>)
    then show "sched_inv contents k (exec_thread bq w v c s)"
      using pc by (intro sched_inv_exec_plain [OF inv w run step] same_queuesI [OF inv]) auto
  qed simp
qed

lemma exec_small:
  assumes inv: "sched_inv contents k s" and w: "w < length (workers s)"
    and run: "wpc (workers s ! w) = W_run v"
    and pc: "(\<exists>m. vpcs s v = InLock m) \<or> (\<exists>x xp. vpcs s v = InExit x xp) \<or> vpcs s v = InYield"
  shows "sched_inv contents k (exec_thread bq w v c s)"
proof -
  note F = sched_inv_facts [OF inv]
  show ?thesis
  proof (rule exec_cases [OF inv])
    fix act s1 assume step: "thread_step bq (Some v) c (vpcs s v) s = Some (act, s1)"
    have "nobody (vpcs s v)" using pc by auto
    moreover have "plain_action act \<and> \<not> parking (next_pc act) \<and> workers s1 = workers s \<and> vpcs s1 = vpcs s \<and>
        kpcs s1 = kpcs s \<and> vs_queue s1 = vs_queue s \<and> vs_vid s1 = vs_vid s \<and> barriers s1 = barriers s \<and>
        (\<forall>u. join_wait_queue (vths (store s1) u) = None) \<and>
        (\<forall>u. u \<noteq> v \<longrightarrow> runnable (vths (store s1) u) = runnable (vths (store s) u))"
      using pc
    proof (elim disjE exE)
      fix x xp assume "vpcs s v = InExit x xp"
      then show ?thesis using step F(1)
        by (cases xp) (auto simp: thread_step_def sync_defs split: if_splits)
    qed (use step F(1) in \<open>auto simp: thread_step_def pthread_mutex_lock_step_def sync_defs split: if_splits\<close>)
    ultimately show "sched_inv contents k (exec_thread bq w v c s)"
      by (intro sched_inv_exec_plain [OF inv w run step] same_queuesI [OF inv]) auto
  qed simp
qed

lemma exec_barrier_plain:
  assumes inv: "sched_inv contents k s" and w: "w < length (workers s)"
    and run: "wpc (workers s ! w) = W_run v" and pc: "vpcs s v = InBarrier b bp"
    and bp: "bp = B_round \<or> (\<exists>r. bp = B_add r) \<or> (\<exists>r. bp = B_runnable r) \<or> (\<exists>r. bp = B_woken r) \<or>
      (\<exists>r cw. bp = B_cas r cw \<or> bp = B_next r cw \<or> bp = B_loop r cw)"
  shows "sched_inv contents k (exec_thread bq w v c s)"
proof -
  note F = sched_inv_facts [OF inv]
  show ?thesis
  proof (rule exec_cases [OF inv])
    fix act s1 assume step: "thread_step bq (Some v) c (vpcs s v) s = Some (act, s1)"
    have "nobody (vpcs s v)" using bp by (auto simp: pc)
    moreover have "plain_action act \<and> workers s1 = workers s \<and> vpcs s1 = vpcs s \<and>
        kpcs s1 = kpcs s \<and> vs_queue s1 = vs_queue s \<and> vs_vid s1 = vs_vid s \<and>
        (\<forall>b. blocked_vths (barriers s1 b) = blocked_vths (barriers s b)) \<and>
        (\<forall>u. join_wait_queue (vths (store s1) u) = None) \<and>
        (\<forall>u. u \<noteq> v \<longrightarrow> runnable (vths (store s1) u) = runnable (vths (store s) u)) \<and>
        (parking (next_pc act) \<longrightarrow> \<not> runnable (vths (store s1) v))"
      using bp step F(1) by (elim disjE exE) (auto simp: thread_step_def pc sync_defs split: if_splits)
    ultimately show "sched_inv contents k (exec_thread bq w v c s)"
      by (intro sched_inv_exec_plain [OF inv w run step] same_queuesI [OF inv]) auto
  qed simp
qed

text \<open>The queues of the barriers after one of them was changed.\<close>

lemma queues_upd:
  assumes inv: "sched_inv contents k s" and i: "i < 2"
    and b: "barriers s' = (barriers s)(b := (barriers s b)\<lparr>blocked_vths := (blocked_vths (barriers s b))[i := q]\<rparr>)"
  shows "length (blocked_vths (barriers s' b')) = 2"
    and "j < 2 \<Longrightarrow> contents (blocked_vths (barriers s' b') ! j) =
      (if b' = b \<and> j = i then contents q else contents (blocked_vths (barriers s b') ! j))"
  using sched_invD(1) [OF inv] i by (auto simp: b quiet_def nth_list_update)

lemma same_queues_upd:
  assumes inv: "sched_inv contents k s" and i: "i < 2"
    and b: "barriers s' = (barriers s)(b := (barriers s b)\<lparr>blocked_vths := (blocked_vths (barriers s b))[i := q]\<rparr>)"
    and q: "contents q = contents (blocked_vths (barriers s b) ! i)"
  shows "same_queues contents s s'"
  using queues_upd [OF inv i b] q by (simp add: same_queues_def)

lemma unat_1_and_less: "unat (1 AND r :: c_uint) < 2"
proof -
  have "unat (r AND 1) = unat r mod 2 ^ 1" by (rule unat_and_mask) simp
  then show ?thesis by (simp add: and.commute)
qed

lemma exec_push:
  assumes inv: "sched_inv contents k s" and w: "w < length (workers s)"
    and run: "wpc (workers s ! w) = W_run v" and pc: "vpcs s v = InBarrier b (B_push r)"
    and laws: "boost_queue_laws bq contents"
  shows "sched_inv contents k (exec_thread bq w v c s)"
proof -
  note F = sched_inv_facts [OF inv]
  define i where "i = unat (1 AND r)"
  have i: "i < 2" unfolding i_def by (rule unat_1_and_less)
  obtain ok q where push: "bq_push bq v (blocked_vths (barriers s b) ! i) = (ok, q)" by fastforce
  note cq = bq_push_contents [OF laws push]
  define s1 where "s1 = s\<lparr>barriers := (barriers s)(b := (barriers s b)\<lparr>blocked_vths := (blocked_vths (barriers s b))[i := q]\<rparr>)\<rparr>"
  have bars: "barriers s1 = (barriers s)(b := (barriers s b)\<lparr>blocked_vths := (blocked_vths (barriers s b))[i := q]\<rparr>)"
    by (simp add: s1_def)
  have step: "thread_step bq (Some v) c (vpcs s v) s = Some (Go (InBarrier b (if ok then B_block r else B_push r)), s1)"
    using push by (simp add: thread_step_def pc i_def s1_def)
  have nr: "\<not> runnable (vths (store s) v)" using sched_invD(4) [OF inv] pc by (auto simp: parked_def)
  show ?thesis
  proof (cases ok)
    case False
    show ?thesis
      by (rule sched_inv_exec_plain [OF inv w run step])
        (use False nr F(1) cq same_queues_upd [OF inv i bars] in \<open>simp_all add: s1_def pc\<close>)
  next
    case True
    define s' where "s' = exec_thread bq w v c s"
    have "workers s1 = workers s" by (simp add: s1_def)
    note g = exec_fields [OF step this, of w, folded s'_def]
    have f: "vpcs s' = (vpcs s)(v := InBarrier b (B_block r))" "kpcs s' = kpcs s"
        "workers s' = (workers s)[w := workers s ! w]" "vs_queue s' = vs_queue s" "vs_vid s' = vs_vid s"
        "store s' = store s"
      using True g by (simp_all add: s1_def worker_after_def)
    have bars': "barriers s' = (barriers s)(b := (barriers s b)\<lparr>blocked_vths := (blocked_vths (barriers s b))[i := q]\<rparr>)"
      using g(7) bars by simp
    note Q = queues_upd [OF inv i bars']
    have only: "at_place contents s v p \<longleftrightarrow> p = Pl_worker w" for p
      by (rule only_worker [OF inv w]) (simp add: run pc)
    have notin: "v \<notin> set (contents (blocked_vths (barriers s b) ! i))"
      using only [of "Pl_barrier b i"] i by simp
    note P = exec_places [OF inv w run f(1-3)]
    have 1: "at_place contents s' u p = at_place contents s u p" if "u \<noteq> v" for u p
      unfolding P using that cq True run pc w by (cases p) (auto simp: f Q split: if_splits)
    have 2: "p = Pl_barrier b i" if "at_place contents s' v p" for p
      using that only [of p] unfolding P by (cases p) (auto simp: f Q run pc split: if_splits)
    have v: "v \<in> slots k" using F(3) only [of "Pl_worker w"] by blast
    have d: "distinct (contents (blocked_vths (barriers s b') ! j))" if "j < 2" for b' j
      using sched_invD(2) [OF inv] that by (simp add: one_place_def)
    have "sched_inv contents k s'"
      by (rule sched_inv_exec [OF inv w run f(1-3) _ _ _ _ _ _ _ _ _ _ _ _ _ place_move [OF inv 1 2 v]])
        (use run nr F(1,2) Q d notin cq True sched_invD(5) [OF inv] in \<open>auto simp: f known_def\<close>)
    then show ?thesis by (simp add: s'_def)
  qed
qed

lemma exec_block:
  assumes inv: "sched_inv contents k s" and w: "w < length (workers s)"
    and run: "wpc (workers s ! w) = W_run v" and pc: "vpcs s v = InBarrier b (B_block r)"
  shows "sched_inv contents k (exec_thread bq w v c s)"
proof -
  note F = sched_inv_facts [OF inv]
  define s1 where "s1 = s\<lparr>barriers := (barriers s)(b := barriers s b)\<rparr>"
  have step: "thread_step bq (Some v) c (vpcs s v) s =
      Some (Yield STATUS_BLOCKED (InBarrier b (B_woken r)), s1)"
    by (simp add: thread_step_def pc s1_def)
  have nr: "\<not> runnable (vths (store s) v)" using sched_invD(4) [OF inv] pc by (auto simp: parked_def)
  define s' where "s' = exec_thread bq w v c s"
  have "workers s1 = workers s" by (simp add: s1_def)
  note g = exec_fields [OF step this, of w, folded s'_def]
  have f: "vpcs s' = (vpcs s)(v := InBarrier b (B_woken r))" "kpcs s' = kpcs s"
      "workers s' = (workers s)[w := (workers s ! w)\<lparr>task := None, wpc := W_ret v STATUS_BLOCKED\<rparr>]"
      "vs_queue s' = vs_queue s" "vs_vid s' = vs_vid s" "store s' = store s" "barriers s' = barriers s"
    using g by (simp_all add: s1_def worker_after_def)
  have same: "at_place contents s' u p = at_place contents s u p" for u p
    unfolding exec_places [OF inv w run f(1-3)] using run pc w by (cases p) (auto simp: f)
  have "sched_inv contents k s'"
    by (rule sched_inv_exec [OF inv w run f(1-3) _ _ _ _ _ _ _ _ _ _ _ _ _ place_same [OF inv same]])
      (use nr F(1,2) sched_invD [OF inv] in \<open>auto simp: f known_def quiet_def one_place_def\<close>)
  then show ?thesis by (simp add: s'_def)
qed

lemma exec_pop:
  assumes inv: "sched_inv contents k s" and w: "w < length (workers s)"
    and run: "wpc (workers s ! w) = W_run v" and pc: "vpcs s v = InBarrier b (B_pop r cw)"
    and laws: "boost_queue_laws bq contents"
  shows "sched_inv contents k (exec_thread bq w v c s)"
proof -
  note F = sched_inv_facts [OF inv]
  define i where "i = unat (1 AND r)"
  have i: "i < 2" unfolding i_def by (rule unat_1_and_less)
  obtain got q where pop: "bq_pop bq (blocked_vths (barriers s b) ! i) = (got, q)" by fastforce
  define s1 where "s1 = s\<lparr>barriers := (barriers s)(b := (barriers s b)\<lparr>blocked_vths := (blocked_vths (barriers s b))[i := q]\<rparr>)\<rparr>"
  have bars: "barriers s1 = (barriers s)(b := (barriers s b)\<lparr>blocked_vths := (blocked_vths (barriers s b))[i := q]\<rparr>)"
    by (simp add: s1_def)
  show ?thesis
  proof (cases got)
    case None
    have step: "thread_step bq (Some v) c (vpcs s v) s = Some (Yield STATUS_SUSPENDED (InBarrier b (B_pop r cw)), s1)"
      using pop None by (simp add: thread_step_def pc i_def s1_def)
    have "contents q = contents (blocked_vths (barriers s b) ! i)"
      using bq_pop_None [OF laws] pop None by simp
    then show ?thesis
      by (intro sched_inv_exec_plain [OF inv w run step])
        (use F(1) same_queues_upd [OF inv i bars] in \<open>simp_all add: s1_def pc\<close>)
  next
    case (Some t)
    have step: "thread_step bq (Some v) c (vpcs s v) s = Some (Go (InBarrier b (B_enqueue r cw t)), s1)"
      using pop Some by (simp add: thread_step_def pc i_def s1_def)
    have cq: "contents (blocked_vths (barriers s b) ! i) = t # contents q"
      using bq_pop_Some [OF laws] pop Some by simp
    define s' where "s' = exec_thread bq w v c s"
    have "workers s1 = workers s" by (simp add: s1_def)
    note g = exec_fields [OF step this, of w, folded s'_def]
    have f: "vpcs s' = (vpcs s)(v := InBarrier b (B_enqueue r cw t))" "kpcs s' = kpcs s"
        "workers s' = (workers s)[w := workers s ! w]" "vs_queue s' = vs_queue s" "vs_vid s' = vs_vid s"
        "store s' = store s"
      using g by (simp_all add: s1_def worker_after_def)
    have bars': "barriers s' = (barriers s)(b := (barriers s b)\<lparr>blocked_vths := (blocked_vths (barriers s b))[i := q]\<rparr>)"
      using g(7) bars by simp
    note Q = queues_upd [OF inv i bars']
    have "at_place contents s t (Pl_barrier b i)" using cq i by simp
    then have only: "at_place contents s t p \<longleftrightarrow> p = Pl_barrier b i" for p
      using unique_place [OF inv, of t p "Pl_barrier b i"] by blast
    have d: "distinct (contents (blocked_vths (barriers s b') ! j))" if "j < 2" for b' j
      using sched_invD(2) [OF inv] that by (simp add: one_place_def)
    have dt: "t \<notin> set (contents q)" "distinct (contents q)" using d [OF i, of b] cq by simp_all
    note P = exec_places [OF inv w run f(1-3)]
    have 1: "at_place contents s' u p = at_place contents s u p" if "u \<noteq> t" for u p
      unfolding P using that cq run pc w by (cases p) (auto simp: f Q split: if_splits)
    have 2: "p = Pl_hand v" if "at_place contents s' t p" for p
      using that only [of p] only [of "Pl_worker w"] dt w unfolding P
      by (cases p) (auto simp: f Q run pc split: if_splits)
    have t: "t \<in> slots k" using F(3) only [of "Pl_barrier b i"] by blast
    have "sched_inv contents k s'"
      by (rule sched_inv_exec [OF inv w run f(1-3) _ _ _ _ _ _ _ _ _ _ _ _ _ place_move [OF inv 1 2 t]])
        (use run F(1,2) Q d dt sched_invD(5) [OF inv] in \<open>auto simp: f known_def\<close>)
    then show ?thesis by (simp add: s'_def)
  qed
qed

text \<open>A thread it holds, or has made, is put into the run queue by the running thread.\<close>

lemma exec_enqueue:
  assumes inv: "sched_inv contents k s" and w: "w < length (workers s)"
    and run: "wpc (workers s ! w) = W_run v"
    and pc: "(\<exists>b r cw. vpcs s v = InBarrier b (B_enqueue r cw t)) \<or> vpcs s v = InEnqueue t"
  shows "sched_inv contents k (exec_thread bq w v c s)"
proof -
  note F = sched_inv_facts [OF inv]
  obtain act s1 where step: "thread_step bq (Some v) c (vpcs s v) s = Some (act, s1)"
      "s1 = s\<lparr>vs_queue := vs_queue s @ [t]\<rparr>"
    and act: "act = Return 0 \<or> (\<exists>b r cw. act = Go (InBarrier b (B_loop r cw)))"
    using pc by (auto simp: thread_step_def)
  define src where "src = (if vpcs s v = InEnqueue t then Pl_create v else Pl_hand v)"
  define s' where "s' = exec_thread bq w v c s"
  have "workers s1 = workers s" by (simp add: step(2))
  note g = exec_fields [OF step(1) this, of w, folded s'_def]
  have f: "vpcs s' = (vpcs s)(v := next_pc act)" "kpcs s' = kpcs s" "workers s' = (workers s)[w := workers s ! w]"
      "vs_queue s' = vs_queue s @ [t]" "vs_vid s' = vs_vid s" "store s' = store s" "barriers s' = barriers s"
    using g act by (auto simp: step(2) worker_after_def)
  have nb: "nobody (next_pc act)" "quiet_vpc (next_pc act)" "\<not> parking (next_pc act)" using act by auto
  have "at_place contents s t src" using pc by (auto simp: src_def)
  then have only: "at_place contents s t p \<longleftrightarrow> p = src" for p
    using unique_place [OF inv, of t p src] by blast
  have nq: "t \<notin> set (vs_queue s)" using only [of Pl_queue] by (auto simp: src_def split: if_splits)
  have old: "\<not> grips (vpcs s v) u" "\<not> makes (vpcs s v) u" "\<not> pushed (vpcs s v)" if "u \<noteq> t" for u
    using pc that by auto
  note P = exec_places [OF inv w run f(1-3)]
  have 1: "at_place contents s' u p = at_place contents s u p" if "u \<noteq> t" for u p
    unfolding P using that old [of u] run w nb by (cases p) (auto simp: f nobody_def)
  have 2: "p = Pl_queue" if "at_place contents s' t p" for p
    using that only [of p] only [of "Pl_worker w"] w nb pc unfolding P
    by (cases p) (auto simp: f run src_def nobody_def split: if_splits)
  have t: "t \<in> slots k" using F(3) only [of src] by blast
  have "sched_inv contents k s'"
    by (rule sched_inv_exec [OF inv w run f(1-3) _ _ _ _ _ _ _ _ _ _ _ _ _ place_move [OF inv 1 2 t]])
      (use run nb nq F(1,2) sched_invD [OF inv] in
        \<open>auto simp: f known_def quiet_def one_place_def nobody_def\<close>)
  then show ?thesis by (simp add: s'_def)
qed

section \<open>Creating threads\<close>

lemma fetch_vid_next:
  assumes "k < MAX_VTHREADS"
  shows "fetch_vid (of_nat (15 + k)) = ((15 + k) mod MAX_VTHREADS, of_nat (15 + Suc k))"
proof -
  have small: "15 + k < 2 ^ LENGTH(32)" using assms by (simp add: MAX_VTHREADS_def)
  have "unat (of_nat (15 + k) :: c_size) = 15 + k"
    by (rule unat_of_nat_small) (use assms in \<open>simp add: MAX_VTHREADS_def\<close>)
  then have "(ucast (of_nat (15 + k) :: c_size) :: c_uint) = of_nat (15 + k)"
    using of_nat_unat [of "of_nat (15 + k) :: c_size"] by metis
  then have "unat (ucast (of_nat (15 + k) :: c_size) :: c_uint) = 15 + k"
    using unat_of_nat_small [OF small] by metis
  then show ?thesis by (simp add: fetch_vid_def sync_defs)
qed

lemma fresh_slot: "k < MAX_VTHREADS \<Longrightarrow> (15 + k) mod MAX_VTHREADS \<notin> slots k"
proof
  assume k: "k < MAX_VTHREADS" and "(15 + k) mod MAX_VTHREADS \<in> slots k"
  then obtain i where i: "i < k" "(15 + k) mod MAX_VTHREADS = (15 + i) mod MAX_VTHREADS"
    by (auto simp: slots_def)
  then have "MAX_VTHREADS dvd (15 + k) - (15 + i)" using mod_eq_dvd_iff_nat [of "15 + i" "15 + k"] by simp
  then show False using i k by (auto dest: dvd_imp_le)
qed

lemma slots_Suc: "slots (Suc k) = insert ((15 + k) mod MAX_VTHREADS) (slots k)"
  by (auto simp: slots_def lessThan_Suc)

text \<open>A step that gives a new thread its first place.\<close>

lemma place_new:
  assumes inv: "sched_inv contents k s" and t: "t \<notin> slots k"
    and new: "\<And>u p. at_place contents s' u p \<longleftrightarrow> at_place contents s u p \<or> u = t \<and> p = dest"
  shows "at_place contents s' u p \<Longrightarrow> at_place contents s' u q \<Longrightarrow> p = q"
    and "at_place contents s' u p \<Longrightarrow> u \<in> insert t (slots k)"
  using unique_place [OF inv, of u p q] sched_inv_facts(3) [OF inv, of u] t unfolding new by blast+

lemma exec_create:
  assumes inv: "sched_inv contents k s" and w: "w < length (workers s)"
    and run: "wpc (workers s ! w) = W_run v" and pc: "vpcs s v = User" and k: "k < MAX_VTHREADS"
  shows "sched_inv contents (Suc k) (exec_thread bq w v (Some (Create fn x)) s)"
proof -
  note F = sched_inv_facts [OF inv]
  define t where "t = (15 + k) mod MAX_VTHREADS"
  have t: "t \<notin> slots k" "slots (Suc k) = insert t (slots k)"
    unfolding t_def by (simp_all add: fresh_slot [OF k] slots_Suc)
  have vv: "vs_vid s = of_nat (15 + k)" "vpcs s t = User" using sched_invD(5) [OF inv] t(1) by (auto simp: known_def)
  define s1 where "s1 = s\<lparr>vs_vid := of_nat (15 + Suc k)\<rparr>"
  have step: "thread_step bq (Some v) (Some (Create fn x)) (vpcs s v) s =
      Some (Go (InInit t (of_nat t) fn x), s1)"
    using fetch_vid_next [OF k] by (simp add: thread_step_def pc vv(1) t_def s1_def del: of_nat_add of_nat_Suc)
  define s' where "s' = exec_thread bq w v (Some (Create fn x)) s"
  have "workers s1 = workers s" by (simp add: s1_def)
  note g = exec_fields [OF step this, of w, folded s'_def]
  have f: "vpcs s' = (vpcs s)(v := InInit t (of_nat t) fn x)" "kpcs s' = kpcs s"
      "workers s' = (workers s)[w := workers s ! w]" "vs_queue s' = vs_queue s"
      "vs_vid s' = of_nat (15 + Suc k)" "store s' = store s" "barriers s' = barriers s"
    using g by (simp_all add: s1_def worker_after_def)
  have vs: "v \<in> slots k" using F(4) [of w v] w run by (simp add: executed_def)
  have new: "at_place contents s' u p \<longleftrightarrow> at_place contents s u p \<or> u = t \<and> p = Pl_create v" for u p
    unfolding exec_places [OF inv w run f(1-3)] using run pc w by (cases p) (auto simp: f)
  note P = place_new [OF inv t(1) new, folded t(2)]
  have "sched_inv contents (Suc k) s'"
    by (rule sched_inv_exec [OF inv w run f(1-3) _ _ _ _ _ _ _ _ _ _ f(5) _ _ P])
      (use run vv(2) vs t(1) F(1,2) sched_invD [OF inv] in \<open>auto simp: f quiet_def one_place_def\<close>)
  then show ?thesis by (simp add: s'_def)
qed

lemma exec_init:
  assumes inv: "sched_inv contents k s" and w: "w < length (workers s)"
    and run: "wpc (workers s ! w) = W_run v" and pc: "vpcs s v = InInit t th fn x"
  shows "sched_inv contents k (exec_thread bq w v c s)"
proof -
  note F = sched_inv_facts [OF inv]
  have m: "makes (vpcs s v) t \<or> makes (kpcs s v) t" by (simp add: pc)
  have user: "vpcs s t = User" using sched_invD(5) [OF inv] m by (auto simp: known_def)
  have tv: "t \<noteq> v" using user pc by auto
  define s1 where "s1 = s\<lparr>store := init_slot t (next_stack s) th fn x (store s),
      next_stack := Suc (next_stack s), vpcs := (vpcs s)(t := User)\<rparr>"
  have step: "thread_step bq (Some v) c (vpcs s v) s = Some (Go (InEnqueue t), s1)"
    by (simp add: thread_step_def pc s1_def)
  define s' where "s' = exec_thread bq w v c s"
  have "workers s1 = workers s" by (simp add: s1_def)
  note g = exec_fields [OF step this, of w, folded s'_def]
  have f: "vpcs s' = (vpcs s)(v := InEnqueue t)" "kpcs s' = kpcs s"
      "workers s' = (workers s)[w := workers s ! w]" "vs_queue s' = vs_queue s"
      "vs_vid s' = vs_vid s" "barriers s' = barriers s"
      "store s' = init_slot t (next_stack s) th fn x (store s)"
    using g user by (auto simp: s1_def worker_after_def)
  have same: "at_place contents s' u p = at_place contents s u p" for u p
    unfolding exec_places [OF inv w run f(1-3)] using run pc w by (cases p) (auto simp: f)
  have "sched_inv contents k s'"
    by (rule sched_inv_exec [OF inv w run f(1-3) _ _ _ _ _ _ _ _ _ _ _ _ _ place_same [OF inv same]])
      (use run user tv made_not_executed [OF inv m] F(1,2) sched_invD [OF inv] in
        \<open>auto simp: f known_def quiet_def one_place_def init_slot_def init_def\<close>)
  then show ?thesis by (simp add: s'_def)
qed

lemma exec_thread_inv:
  assumes inv: "sched_inv contents k s" and w: "w < length (workers s)"
    and run: "wpc (workers s ! w) = W_run v" and laws: "boost_queue_laws bq contents"
    and quiet: "quiet_event (Exec w c)" and k: "creates (Exec w c) \<Longrightarrow> k < MAX_VTHREADS"
  shows "sched_inv contents (if vpcs s v = User \<and> creates (Exec w c) then Suc k else k) (exec_thread bq w v c s)"
proof -
  have q: "quiet_vpc (vpcs s v)" using sched_invD(1) [OF inv] by (simp add: quiet_def)
  show ?thesis
  proof (cases "vpcs s v")
    case User
    show ?thesis
    proof (cases "\<exists>fn x. c = Some (Create fn x)")
      case True
      then show ?thesis using User k exec_create [OF inv w run] by auto
    next
      case False
      then have "\<not> creates (Exec w c)" by (cases c; simp) (use False in \<open>auto elim: creates.elims\<close>)
      moreover have "sched_inv contents k (exec_thread bq w v c s)"
        by (rule exec_start [OF inv w run User]) (use quiet False in \<open>auto split: option.splits\<close>)
      ultimately show ?thesis by simp
    qed
  next
    case (InBarrier b bp)
    then show ?thesis
      by (cases bp) (simp_all add: exec_barrier_plain [OF inv w run] exec_push [OF inv w run _ laws]
          exec_block [OF inv w run] exec_pop [OF inv w run _ laws] exec_enqueue [OF inv w run])
  next
    case (InInit t th fn x)
    then show ?thesis by (simp add: exec_init [OF inv w run])
  next
    case (InEnqueue t)
    then show ?thesis by (simp add: exec_enqueue [OF inv w run])
  qed (use q in \<open>simp_all add: exec_small [OF inv w run]\<close>)
qed

section \<open>Steps of a kernel thread\<close>

lemma sched_inv_kernel:
  assumes inv: "sched_inv contents k s"
    and f: "vpcs s' = vpcs s" "kpcs s' = (kpcs s)(t := pc')" "workers s' = workers s" "barriers s' = barriers s"
    and pc': "quiet_kpc pc'"
    and st: "\<And>u. join_wait_queue (vths (store s') u) = None"
      "\<And>u. (\<exists>w. executed s w u) \<or> parking (vpcs s u) \<Longrightarrow>
         runnable (vths (store s') u) = runnable (vths (store s) u)"
    and q: "distinct (vs_queue s')"
    and k': "vs_vid s' = of_nat (15 + k')" "k \<le> k'"
    and made: "\<And>u. makes pc' u \<Longrightarrow> vpcs s u = User"
    and place: "\<And>u p p'. at_place contents s' u p \<Longrightarrow> at_place contents s' u p' \<Longrightarrow> p = p'"
      "\<And>u p. at_place contents s' u p \<Longrightarrow> u \<in> slots k'"
  shows "sched_inv contents k' s'"
proof -
  note D = sched_invD [OF inv]
  have sub: "slots k \<subseteq> slots k'" using k'(2) by (auto simp: slots_def)
  have ex: "executed s' w u = executed s w u" for w u by (simp add: executed_def f)
  have "quiet s'" using D(1) st(1) pc' by (auto simp: quiet_def f)
  moreover have "one_place contents s'" using place(1) q D(2) by (auto simp: one_place_def f)
  moreover have "one_worker s'" using D(3) unfolding one_worker_def ex .
  moreover have "parked s'"
  proof -
    have "\<not> runnable (vths (store s') u)" if "parking (vpcs s u)" for u
      using D(4) st(2) [of u] that by (auto simp: parked_def)
    moreover have "\<not> runnable (vths (store s') u) \<and> (\<exists>b r. vpcs s u = InBarrier b (B_woken r))"
      if "w < length (workers s)" "wpc (workers s ! w) = W_ret u STATUS_BLOCKED" for w u
    proof -
      have "executed s w u" using that by (simp add: executed_def)
      then show ?thesis using D(4) st(2) [of u] that unfolding parked_def by blast
    qed
    ultimately show ?thesis unfolding parked_def f by blast
  qed
  moreover have "known contents k' s'"
  proof -
    have "vpcs s u = User" if "makes (vpcs s x) u \<or> makes (((kpcs s)(t := pc')) x) u" for x u
      using D(5) made that by (auto simp: known_def split: if_splits)
    moreover have "executed s w u \<Longrightarrow> u \<in> slots k'" for w u using sched_inv_facts(4) [OF inv] sub by blast
    moreover have "vpcs s u = User" if "u \<notin> slots k'" for u using D(5) sub that by (auto simp: known_def)
    ultimately show ?thesis unfolding known_def f ex using k'(1) place(2) by blast
  qed
  ultimately show ?thesis by (simp add: sched_inv_def)
qed

text \<open>The kernel thread creates nobody before and after the step.\<close>

lemma sched_inv_kernel_plain:
  assumes inv: "sched_inv contents k s"
    and f: "vpcs s' = vpcs s" "kpcs s' = (kpcs s)(t := pc')" "workers s' = workers s" "barriers s' = barriers s"
      "vs_queue s' = vs_queue s" "vs_vid s' = vs_vid s"
    and pc': "quiet_kpc pc'" "\<And>u. makes pc' u = makes (kpcs s t) u"
    and st: "\<And>u. join_wait_queue (vths (store s') u) = None"
      "\<And>u. (\<exists>w. executed s w u) \<or> parking (vpcs s u) \<Longrightarrow>
         runnable (vths (store s') u) = runnable (vths (store s) u)"
  shows "sched_inv contents k s'"
proof -
  have same: "at_place contents s' u p = at_place contents s u p" for u p
    using pc'(2) by (cases p) (auto simp: f)
  show ?thesis
    by (rule sched_inv_kernel [OF inv f(1-4) pc'(1) st _ _ _ _ place_same [OF inv same]])
      (use f pc'(2) sched_inv_facts(2) [OF inv] sched_invD(5) [OF inv] in \<open>auto simp: known_def\<close>)
qed

lemma join_step_quiet:
  assumes "quiet_kpc (InJoin tg rv jp)" and "\<And>u. join_wait_queue (vths st u) = None"
    and "join_step None tg rv jp st = (act, st', es)"
  shows "es = [] \<and> (\<forall>u. join_wait_queue (vths st' u) = None) \<and>
     (\<forall>u. runnable (vths st' u) = runnable (vths st u)) \<and>
     (\<forall>r pc. act \<noteq> Yield r pc) \<and> quiet_kpc (next_pc (lift_action (InJoin tg rv) act))"
  using assms by (cases jp) (auto simp: store_cell_def sync_defs split: if_splits option.splits)

lemma exec_kernel_plain:
  assumes inv: "sched_inv contents k s" and quiet: "quiet_event (Kernel t c)"
    and pc: "\<not> (kpcs s t = User \<and> creates (Kernel t c))" "\<And>u. \<not> makes (kpcs s t) u"
  shows "sched_inv contents k (exec_kernel bq t c s)"
proof -
  note F = sched_inv_facts [OF inv]
  have q: "quiet_kpc (kpcs s t)" using sched_invD(1) [OF inv] by (simp add: quiet_def)
  show ?thesis
  proof (cases "thread_step bq None c (kpcs s t) s")
    case None
    then show ?thesis using sched_inv_fault [OF inv] by (simp add: exec_kernel_def)
  next
    case (Some r)
    obtain act s1 where step: "thread_step bq None c (kpcs s t) s = Some (act, s1)"
      using Some by (cases r) auto
    have R: "quiet_kpc (next_pc act) \<and> (\<forall>u. \<not> makes (next_pc act) u) \<and> workers s1 = workers s \<and> vpcs s1 = vpcs s \<and>
        kpcs s1 = kpcs s \<and> vs_queue s1 = vs_queue s \<and> vs_vid s1 = vs_vid s \<and> barriers s1 = barriers s \<and>
        (\<forall>u. join_wait_queue (vths (store s1) u) = None) \<and>
        (\<forall>u. runnable (vths (store s1) u) = runnable (vths (store s) u))"
    proof (cases "kpcs s t")
      case User
      show ?thesis
      proof (cases c)
        case (Some call)
        then show ?thesis using step quiet F(1) pc(1) User
          by (cases call) (auto simp: thread_step_def pthread_mutex_unlock_def)
      qed (use step User F(1) in \<open>auto simp: thread_step_def\<close>)
    next
      case (InJoin tg rv jp)
      obtain a st' es where j: "join_step None tg rv jp (store s) = (a, st', es)"
        by (cases "join_step None tg rv jp (store s)") auto
      note J = join_step_quiet [OF q [unfolded InJoin] F(1) j]
      have "\<not> makes (next_pc (lift_action (InJoin tg rv) a)) u" for u by (cases a) auto
      then show ?thesis using step InJoin j J by (auto simp: thread_step_def)
    qed (use step q F(1) pc(2) in
        \<open>auto simp: thread_step_def pthread_mutex_lock_step_def sync_defs split: if_splits\<close>)
    show ?thesis
    proof (cases "\<exists>r p. act = Yield r p")
      case True
      have "sched_inv contents k s1"
        by (rule sched_inv_kernel_plain [OF inv, where t = t and pc' = "kpcs s t"]) (use R q in auto)
      then show ?thesis using True step sched_inv_fault by (auto simp: exec_kernel_def)
    next
      case False
      then have "exec_kernel bq t c s = s1\<lparr>kpcs := (kpcs s1)(t := next_pc act)\<rparr>"
        using step by (cases act) (auto simp: exec_kernel_def)
      moreover have "sched_inv contents k (s1\<lparr>kpcs := (kpcs s1)(t := next_pc act)\<rparr>)"
        by (rule sched_inv_kernel_plain [OF inv, where t = t and pc' = "next_pc act"]) (use R pc(2) in auto)
      ultimately show ?thesis by simp
    qed
  qed
qed

lemma exec_kernel_inv:
  assumes inv: "sched_inv contents k s" and quiet: "quiet_event (Kernel t c)"
    and km: "creates (Kernel t c) \<Longrightarrow> k < MAX_VTHREADS"
  shows "sched_inv contents (if kpcs s t = User \<and> creates (Kernel t c) then Suc k else k) (exec_kernel bq t c s)"
proof -
  note F = sched_inv_facts [OF inv]
  consider (create) fn x where "kpcs s t = User" "c = Some (Create fn x)"
    | (init) u th fn x where "kpcs s t = InInit u th fn x"
    | (enqueue) u where "kpcs s t = InEnqueue u"
    | (plain) "\<not> (kpcs s t = User \<and> creates (Kernel t c))" "\<And>u. \<not> makes (kpcs s t) u"
    by (cases "kpcs s t"; cases c) (auto elim: creates.elims)
  then show ?thesis
  proof cases
    case (create fn x)
    then have k: "k < MAX_VTHREADS" using km by simp
    define u where "u = (15 + k) mod MAX_VTHREADS"
    have u: "u \<notin> slots k" "slots (Suc k) = insert u (slots k)"
      unfolding u_def by (simp_all add: fresh_slot [OF k] slots_Suc)
    have vv: "vs_vid s = of_nat (15 + k)" "vpcs s u = User" using sched_invD(5) [OF inv] u(1) by (auto simp: known_def)
    define s' where "s' = s\<lparr>vs_vid := of_nat (15 + Suc k), kpcs := (kpcs s)(t := InInit u (of_nat u) fn x)\<rparr>"
    have ek: "exec_kernel bq t c s = s'"
      using fetch_vid_next [OF k]
      by (simp add: exec_kernel_def thread_step_def create vv(1) u_def s'_def del: of_nat_add of_nat_Suc)
    have new: "at_place contents s' v p \<longleftrightarrow> at_place contents s v p \<or> v = u \<and> p = Pl_kcreate t" for v p
      using create(1) by (cases p) (auto simp: s'_def)
    note P = place_new [OF inv u(1) new, folded u(2)]
    have "sched_inv contents (Suc k) s'"
      by (rule sched_inv_kernel [OF inv, where t = t and pc' = "InInit u (of_nat u) fn x", OF _ _ _ _ _ _ _ _ _ _ _ P])
        (use vv(2) F(1,2) in \<open>auto simp: s'_def\<close>)
    then show ?thesis unfolding ek using create by simp
  next
    case (init u th fn x)
    have m: "makes (vpcs s t) u \<or> makes (kpcs s t) u" by (simp add: init)
    have user: "vpcs s u = User" using sched_invD(5) [OF inv] m by (auto simp: known_def)
    define s' where "s' = s\<lparr>store := init_slot u (next_stack s) th fn x (store s),
        next_stack := Suc (next_stack s), vpcs := (vpcs s)(u := User), kpcs := (kpcs s)(t := InEnqueue u)\<rparr>"
    have ek: "exec_kernel bq t c s = s'" by (simp add: exec_kernel_def thread_step_def init s'_def)
    have vp: "(vpcs s)(u := User) = vpcs s" using user by auto
    have "sched_inv contents k s'"
      by (rule sched_inv_kernel_plain [OF inv, where t = t and pc' = "InEnqueue u"])
        (use init user made_not_executed [OF inv m] F(1) in \<open>auto simp: s'_def vp init_slot_def init_def\<close>)
    then show ?thesis using init by (simp add: ek)
  next
    case (enqueue u)
    define s' where "s' = s\<lparr>vs_queue := vs_queue s @ [u], kpcs := (kpcs s)(t := User)\<rparr>"
    have ek: "exec_kernel bq t c s = s'" by (simp add: exec_kernel_def thread_step_def enqueue s'_def)
    have "at_place contents s u (Pl_kcreate t)" by (simp add: enqueue)
    then have only: "at_place contents s u p \<longleftrightarrow> p = Pl_kcreate t" for p
      using unique_place [OF inv, of u p "Pl_kcreate t"] by blast
    have nq: "u \<notin> set (vs_queue s)" using only [of Pl_queue] by simp
    have 1: "at_place contents s' v p = at_place contents s v p" if "v \<noteq> u" for v p
      using that enqueue by (cases p) (auto simp: s'_def)
    have 2: "p = Pl_queue" if "at_place contents s' u p" for p
      using that only [of p] by (cases p) (auto simp: s'_def split: if_splits)
    have uk: "u \<in> slots k" using F(3) only [of "Pl_kcreate t"] by blast
    have "sched_inv contents k s'"
      by (rule sched_inv_kernel [OF inv, where t = t and pc' = User, OF _ _ _ _ _ _ _ _ _ _ _ place_move [OF inv 1 2 uk]])
        (use nq F(1,2) sched_invD(5) [OF inv] in \<open>auto simp: s'_def known_def\<close>)
    then show ?thesis using enqueue by (simp add: ek)
  next
    case plain
    have "\<not> (kpcs s t = User \<and> creates (Kernel t c))" by (rule plain)
    then show ?thesis using exec_kernel_plain [OF inv quiet plain] by (simp only: if_False)
  qed
qed

section \<open>All runs\<close>

lemma sched_inv_init:
  assumes "boost_queue_laws bq contents"
  shows "sched_inv contents 0 (sched_init bq n cnt)"
proof -
  have q: "contents (blocked_vths (barriers (sched_init bq n cnt) b) ! i) = []" if "i < 2" for b i
    using less_2_cases [OF that] bq_new_contents [OF assms]
    by (auto simp: sched_init_def pthread_barrier_init_def)
  have none: "\<not> at_place contents (sched_init bq n cnt) v p" for v p
  proof (cases p)
    case (Pl_barrier b i)
    then show ?thesis using q [of i b] by auto
  qed (auto simp: sched_init_def)
  have ex: "\<not> executed (sched_init bq n cnt) w v" for w v by (simp add: executed_def sched_init_def)
  have "quiet (sched_init bq n cnt)" "parked (sched_init bq n cnt)"
    by (auto simp: quiet_def parked_def sched_init_def pthread_barrier_init_def vthread_default_def init_def)
  moreover have "one_place contents (sched_init bq n cnt)"
    using none q by (simp add: one_place_def) (simp add: sched_init_def)
  moreover have "known contents 0 (sched_init bq n cnt)"
    using none ex by (simp add: known_def) (simp add: sched_init_def)
  ultimately show ?thesis using ex by (simp add: sched_inv_def one_worker_def)
qed

lemma sched_inv_step:
  assumes inv: "sched_inv contents k s" and laws: "boost_queue_laws bq contents"
    and quiet: "quiet_event e" and k: "creates e \<Longrightarrow> k < MAX_VTHREADS"
  shows "\<exists>k' \<le> k + of_bool (creates e). sched_inv contents k' (sched_step bq e s)"
proof -
  have stay: "\<exists>k' \<le> k + of_bool (creates e). sched_inv contents k' s" using inv by (intro exI [of _ k]) simp
  show ?thesis
  proof (cases e)
    case (Exec w c)
    show ?thesis
    proof (cases "fault s \<or> length (workers s) \<le> w")
      case False
      then have w: "w < length (workers s)" by simp
      show ?thesis
      proof (cases "wpc (workers s ! w)")
        case (W_run v)
        have "sched_inv contents (if vpcs s v = User \<and> creates (Exec w c) then Suc k else k) (exec_thread bq w v c s)"
          by (rule exec_thread_inv [OF inv w W_run laws]) (use quiet k Exec in auto)
        then show ?thesis using Exec False W_run
          by (intro exI [of _ "if vpcs s v = User \<and> creates (Exec w c) then Suc k else k"]) auto
      qed (use Exec stay in simp_all)
    qed (use Exec stay in simp)
  next
    case (Kernel t c)
    show ?thesis
    proof (cases "fault s")
      case False
      have "sched_inv contents (if kpcs s t = User \<and> creates (Kernel t c) then Suc k else k) (exec_kernel bq t c s)"
        by (rule exec_kernel_inv [OF inv]) (use quiet k Kernel in auto)
      then show ?thesis using Kernel False
        by (intro exI [of _ "if kpcs s t = User \<and> creates (Kernel t c) then Suc k else k"]) auto
    qed (use Kernel stay in simp)
  next
    case (Work w i)
    then show ?thesis using inv sched_inv_worker_step [OF inv, of w i] by (auto simp: not_le)
  qed
qed

lemma sched_inv_run:
  assumes laws: "boost_queue_laws bq contents"
  shows "sched_inv contents k s \<Longrightarrow> list_all quiet_event es \<Longrightarrow>
    k + length (filter creates es) \<le> MAX_VTHREADS \<Longrightarrow>
    \<exists>k'. sched_inv contents k' (run (sched_step bq) es s)"
proof (induction es arbitrary: k s)
  case (Cons e es)
  have "creates e \<Longrightarrow> k < MAX_VTHREADS" using Cons.prems(3) by auto
  then obtain k' where "k' \<le> k + of_bool (creates e)" "sched_inv contents k' (sched_step bq e s)"
    using sched_inv_step [OF Cons.prems(1) laws, of e] Cons.prems(2) by auto
  with Cons.IH [of k' "sched_step bq e s"] Cons.prems(2,3) show ?case by (auto split: if_splits)
qed auto

section \<open>Properties\<close>


text \<open>A kernel thread creates thread 15 and worker 0 runs it.\<close>

definition create_and_run :: "event list" where
  "create_and_run = [Kernel 0 (Some (Create 1 0)), Kernel 0 None, Kernel 0 None, Work 0 0, Work 0 0, Work 0 0]"

lemma create_and_run_state:
  "list_all quiet_event create_and_run \<and> length (filter creates create_and_run) \<le> MAX_VTHREADS \<and>
   length (workers (run (sched_step bounded_list_queue) create_and_run (sched_init bounded_list_queue 2 (\<lambda>_. 1)))) = 2 \<and>
   wpc (workers (run (sched_step bounded_list_queue) create_and_run (sched_init bounded_list_queue 2 (\<lambda>_. 1))) ! 0) = W_run 15"
  by code_simp




end
