(* ===== verification/SchedRaces.thy ===== *)
theory SchedRaces
  imports Sched
begin

text \<open>
  Interleavings of the runtime in which a virtual thread is put into the run queue twice and
  then run by two workers at the same time.  They are evaluated on the model with a concrete
  queue, from the initial state.
\<close>

text \<open>
  Worker \<open>w\<close> takes the first thread of the queue and resumes it; the thread it runs takes
  \<open>k\<close> further steps of its operation.
\<close>

definition take_and_run :: "nat \<Rightarrow> event list" where
  "take_and_run w = [Work w 0, Work w 0, Work w 0]"

definition steps :: "nat \<Rightarrow> nat \<Rightarrow> event list" where
  "steps w k = replicate k (Exec w None)"

definition create_two :: "event list" where
  "create_two = [Kernel 0 (Some (Create 1 0)), Kernel 0 None, Kernel 0 None,
                 Kernel 0 (Some (Create 2 0)), Kernel 0 None, Kernel 0 None]"

text \<open>
  Thread 15 waits on a condition variable; its worker has released the mutex and set
  \<open>runnable\<close>.  Thread 16 locks the mutex, signals and so enqueues thread 15; then the worker
  tests \<open>cur_status\<close> and enqueues it once more.
\<close>

definition signal_race :: "event list" where
  "signal_race = create_two @ take_and_run 0 @ Exec 0 (Some (Lock 0)) # steps 0 1 @
     Exec 0 (Some (Wait 0 0)) # steps 0 7 @ [Work 0 0, Work 0 0] @
     take_and_run 1 @ Exec 1 (Some (Lock 0)) # steps 1 1 @ Exec 1 (Some (Signal 0)) # steps 1 5 @
     [Work 0 0, Work 0 0] @ take_and_run 0 @ take_and_run 2"

text \<open>
  Thread 16 joins thread 15 and blocks; its worker has released the join mutex and set
  \<open>runnable\<close>.  Thread 15 finishes and its worker enqueues thread 16; then the worker of thread
  16 tests \<open>cur_status\<close> and enqueues it once more.
\<close>

definition join_race :: "event list" where
  "join_race = create_two @ take_and_run 0 @ take_and_run 1 @ Exec 1 (Some (Join 15 None)) # steps 1 7 @
     [Work 1 0, Work 1 0] @ Exec 0 (Some (Finish 0)) # steps 0 1 @ replicate 10 (Work 0 0) @
     [Work 1 0, Work 1 0] @ take_and_run 1 @ take_and_run 2"

section \<open>Properties\<close>


text \<open>
  So does a join of a virtual thread by another: the joiner can run on two workers at once.
\<close>

theorem join_runs_thread_twice:
  "let s = run (sched_step bounded_list_queue) join_race (sched_init bounded_list_queue 3 (\<lambda>_. 1)) in
   wpc (workers s ! 1) = W_run 16 \<and> wpc (workers s ! 2) = W_run 16 \<and> \<not> fault s"
  by code_simp

end
