(* ===== verification/Runtime.thy ===== *)
theory Runtime
  imports Sched "HOL-Library.Signed_Division"
begin

text \<open>
  The set-up of the runtime: the kernel threads of \<open>src/tthreads.cpp\<close>, the share of the
  processors a process gets (\<open>src/hinit.cpp\<close>, \<open>src/mgr_thread.cpp\<close>), the number of active
  kernel threads around blocking calls (\<open>inc/strategy.h\<close>), the manager thread, and the tables of
  \<open>src/vthreads.cpp\<close>.  An \<open>int\<close> that cannot overflow here is a value of type \<^typ>\<open>int\<close>.
\<close>

section \<open>Sharing the processors\<close>

text \<open>
  \<open>task_num_update_handler\<close>: \<open>ptask_number\<close> is null (\<open>None\<close>) or points to the number of
  processes that use the library.
\<close>

definition task_num_update_handler :: "int option \<Rightarrow> int \<Rightarrow> int" where
  "task_num_update_handler ptask_number N_THREADS =
     (let task_number = (case ptask_number of None \<Rightarrow> 1 | Some t \<Rightarrow> t);
          task_number = (if task_number = 0 then 1 else task_number)
      in if task_number \<ge> N_THREADS then 1
         else (let allowed = N_THREADS sdiv task_number
               in if N_THREADS smod task_number \<noteq> 0 then allowed + 1 else allowed))"

text \<open>
  \<open>init_task_num\<close> after the shared memory is mapped: the counter is incremented and the share
  computed.  \<open>None\<close> is the division by zero.
\<close>

definition init_task_num :: "int \<Rightarrow> int \<Rightarrow> (int \<times> int) option" where
  "init_task_num N_THREADS task_number =
     (let t = task_number + 1 in
      if t = 0 then None
      else Some (t, let allowed = N_THREADS sdiv t in if N_THREADS smod t \<noteq> 0 then allowed + 1 else allowed))"

definition hthread_fini :: "int \<Rightarrow> int" where
  "hthread_fini task_number = task_number - 1"

section \<open>Kernel threads\<close>

record tthread =
  pid :: c_size
  tcore_id :: int
  ttask :: "nat option"

record tthreads =
  real_threads :: "tthread list"
  next_core_id :: int
  core_num :: int

text \<open>
  \<open>add_pthread\<close> with the identifiers \<open>raw_pthread_create\<close> gives the new threads.
\<close>

fun add_pthread :: "c_size list \<Rightarrow> tthreads \<Rightarrow> tthreads" where
  "add_pthread [] ts = ts"
| "add_pthread (p # ps) ts =
     (let c = next_core_id ts;
          ts = ts\<lparr>real_threads := real_threads ts @ [\<lparr>pid = p, tcore_id = c, ttask = None\<rparr>],
                  next_core_id := c + 1\<rparr>;
          ts = (if next_core_id ts \<ge> core_num ts then ts\<lparr>next_core_id := 0\<rparr> else ts)
      in add_pthread ps ts)"

definition tthreads_size :: "tthreads \<Rightarrow> nat" where
  "tthreads_size ts = length (real_threads ts)"

text \<open>
  The constructor: \<open>garbage\<close> is the indeterminate value of the member \<open>core_id\<close>, which is
  assigned only after \<open>add_pthread\<close> has read it.
\<close>

definition tthreads_new :: "int \<Rightarrow> int \<Rightarrow> c_size list \<Rightarrow> tthreads" where
  "tthreads_new garbage nprocs ps =
     (add_pthread ps \<lparr>real_threads = [], next_core_id = garbage, core_num = nprocs\<rparr>)\<lparr>next_core_id := 0\<rparr>"

text \<open>
  One round of the manager: the identifiers of the kernel threads it sends \<open>SIGUSR1\<close>.
\<close>

definition mgr_round :: "tthreads \<Rightarrow> c_size list" where
  "mgr_round ts = map pid (filter (\<lambda>t. ttask t \<noteq> None) (real_threads ts))"

definition get_core_id :: "int \<Rightarrow> c_size \<Rightarrow> c_size" where
  "get_core_id nprocs p = (p - 3282688) div 8392704 mod of_int nprocs"

section \<open>Active kernel threads\<close>

text \<open>
  Program points around a call that blocks a kernel thread: \<open>yield_running\<close> (leave the count,
  read it, compare and swap it to the target, create workers, post the semaphore), the
  blocking call, \<open>back_running\<close> (wait for the semaphore, enter the count).
\<close>

datatype active_pc =
    A_run | A_leave | A_load | A_cas int | A_add int | A_post | A_blocked | A_wait | A_enter

record active_sys =
  active_threads_count :: int
  num_threads :: nat
  worker_count :: int
  active_pcs :: "nat \<Rightarrow> active_pc"

text \<open>
  \<open>p\<close> (\<open>USE_SEMAPHORE\<close>): returns at once when the target is at least the number of cores, else
  waits on the semaphore.  \<open>None\<close>: the caller waits.
\<close>

definition tthreads_p :: "int \<Rightarrow> int \<Rightarrow> nat \<Rightarrow> nat option" where
  "tthreads_p N_THREADS cores sem =
     (if N_THREADS \<ge> cores then Some sem else if sem = 0 then None else Some (sem - 1))"

definition tthreads_v :: "nat \<Rightarrow> nat" where
  "tthreads_v sem = sem + 1"

abbreviation active_goto :: "nat \<Rightarrow> active_pc \<Rightarrow> active_sys \<Rightarrow> active_sys" where
  "active_goto t pc s \<equiv> s\<lparr>active_pcs := (active_pcs s)(t := pc)\<rparr>"

definition reach_target_num_threads_step :: "int \<Rightarrow> bool \<Rightarrow> nat \<Rightarrow> active_sys \<Rightarrow> active_sys" where
  "reach_target_num_threads_step N_THREADS spurious t s = (case active_pcs s t of
     A_load \<Rightarrow>
       (let a = active_threads_count s in active_goto t (if a \<ge> N_THREADS then A_post else A_cas a) s)
   | A_cas a \<Rightarrow>
       if active_threads_count s = a \<and> \<not> spurious
       then active_goto t (A_add (N_THREADS - a)) (s\<lparr>active_threads_count := N_THREADS\<rparr>)
       else active_goto t A_load s
   | A_add k \<Rightarrow> active_goto t A_post (s\<lparr>worker_count := worker_count s + k\<rparr>)
   | _ \<Rightarrow> s)"

definition yield_running_step :: "int \<Rightarrow> bool \<Rightarrow> nat \<Rightarrow> active_sys \<Rightarrow> active_sys" where
  "yield_running_step N_THREADS spurious t s = (case active_pcs s t of
     A_leave \<Rightarrow> active_goto t A_load (s\<lparr>active_threads_count := active_threads_count s - 1\<rparr>)
   | A_post \<Rightarrow> active_goto t A_blocked (s\<lparr>num_threads := tthreads_v (num_threads s)\<rparr>)
   | _ \<Rightarrow> reach_target_num_threads_step N_THREADS spurious t s)"

definition back_running_step :: "int \<Rightarrow> int \<Rightarrow> nat \<Rightarrow> active_sys \<Rightarrow> active_sys" where
  "back_running_step N_THREADS cores t s = (case active_pcs s t of
     A_wait \<Rightarrow> (case tthreads_p N_THREADS cores (num_threads s) of
         None \<Rightarrow> s | Some k \<Rightarrow> active_goto t A_enter (s\<lparr>num_threads := k\<rparr>))
   | A_enter \<Rightarrow> active_goto t A_run (s\<lparr>active_threads_count := active_threads_count s + 1\<rparr>)
   | _ \<Rightarrow> s)"

text \<open>
  A thread calls \<open>pthread_cond_timedwait\<close>, takes a step, or returns from the C library's call.
\<close>

datatype active_event = TimedWait nat | ActiveStep nat bool | Unblock nat

fun pthread_cond_timedwait_step :: "int \<Rightarrow> int \<Rightarrow> active_event \<Rightarrow> active_sys \<Rightarrow> active_sys" where
  "pthread_cond_timedwait_step n cores (TimedWait t) s =
     (if active_pcs s t = A_run then active_goto t A_leave s else s)"
| "pthread_cond_timedwait_step n cores (ActiveStep t spurious) s =
     (if active_pcs s t \<in> {A_wait, A_enter} then back_running_step n cores t s
      else yield_running_step n spurious t s)"
| "pthread_cond_timedwait_step n cores (Unblock t) s =
     (if active_pcs s t = A_blocked then active_goto t A_wait s else s)"

section \<open>The tables of \<open>vthreads\<close>\<close>

text \<open>
  \<open>vs_waiting\<close> and \<open>vs_working\<close> map identifiers to virtual threads, \<open>joins\<close> to condition
  variables.  \<open>operator[]\<close> of a missing key inserts a null pointer, and using it faults
  (\<open>None\<close>).
\<close>

record vtables =
  vs_waiting :: "nat \<rightharpoonup> nat"
  vs_working :: "nat \<rightharpoonup> nat"
  joins :: "nat \<rightharpoonup> nat"
  deleted :: "nat set"

definition erase_wait :: "nat \<Rightarrow> vtables \<Rightarrow> bool \<times> vtables" where
  "erase_wait pth t = (case vs_waiting t pth of
     Some v \<Rightarrow> (True, t\<lparr>deleted := insert v (deleted t), vs_waiting := (vs_waiting t)(pth := None)\<rparr>)
   | None \<Rightarrow> (False, t))"

definition erase_working :: "nat \<Rightarrow> vtables \<Rightarrow> bool \<times> vtables" where
  "erase_working pth t = (case vs_working t pth of
     Some v \<Rightarrow> (True, t\<lparr>deleted := insert v (deleted t), vs_working := (vs_working t)(pth := None)\<rparr>)
   | None \<Rightarrow> (False, t))"

definition v2t :: "(nat \<Rightarrow> c_size) \<Rightarrow> vstore \<Rightarrow> nat \<Rightarrow> vtables \<Rightarrow> c_size option" where
  "v2t pid_of st v t = (case vs_working t v of
     None \<Rightarrow> None | Some p \<Rightarrow> map_option pid_of (owner (vths st p)))"

text \<open>
  \<open>join_vthread\<close> up to the wait: clear the result, record where it goes, and register a new
  condition variable unless there is one.  The flag says whether the caller waits on it.
\<close>

definition join_vthread :: "nat \<Rightarrow> nat \<Rightarrow> nat option \<Rightarrow> vstore \<times> vtables \<Rightarrow> bool \<times> vstore \<times> vtables" where
  "join_vthread fresh_cond v rv s = (case s of (st, t) \<Rightarrow>
     let st = store_cell rv 0 st;
         found = (case vs_waiting t v of Some p \<Rightarrow> Some p | None \<Rightarrow> vs_working t v)
     in case found of
          None \<Rightarrow> (False, st, t)
        | Some p \<Rightarrow>
            (True, upd_vth p (retval_update (\<lambda>_. rv)) st,
             t\<lparr>joins := (case joins t v of Some _ \<Rightarrow> joins t | None \<Rightarrow> (joins t)(v := Some fresh_cond))\<rparr>))"

text \<open>
  \<open>end_vthread\<close>: the result goes to the joiner, whose condition variable is signalled, and the
  thread leaves the table.  The result is the signalled variable; \<open>None\<close> overall is the fault.
\<close>

definition end_vthread :: "nat \<Rightarrow> c_size \<Rightarrow> vstore \<times> vtables \<Rightarrow> (nat option \<times> vstore \<times> vtables) option" where
  "end_vthread v x s = (case s of (st, t) \<Rightarrow>
     (case joins t v of
        None \<Rightarrow> Some (None, st, snd (erase_working v t))
      | Some c \<Rightarrow> (case vs_working t v of
            None \<Rightarrow> None
          | Some p \<Rightarrow>
              Some (Some c, store_cell (retval (vths st p)) x st,
                    snd (erase_working v (t\<lparr>joins := (joins t)(v := None)\<rparr>))))))"

definition pthread_self :: "c_size \<Rightarrow> nat option \<Rightarrow> vstore \<Rightarrow> c_size" where
  "pthread_self raw_self me st = (case me of Some v \<Rightarrow> vid (vths st v) | None \<Rightarrow> raw_self)"

section \<open>Lemmas\<close>

lemma sdiv_smod_nonneg: "0 \<le> a \<Longrightarrow> 0 < b \<Longrightarrow> a sdiv b = a div b \<and> a smod b = a mod (b :: int)"
  by (cases "a = 0") (simp_all add: signed_divide_int_def signed_modulo_int_def)

lemma ceiling_div:
  fixes a b :: int
  assumes "0 < b" and "0 < a"
  defines "q \<equiv> (if a mod b \<noteq> 0 then a div b + 1 else a div b)"
  shows "a \<le> q * b" "(q - 1) * b < a" "1 \<le> q"
proof -
  define d where "d = a div b * b"
  define r where "r = a mod b"
  have ab: "a = d + r" "0 \<le> r" "r < b" using assms by (simp_all add: d_def r_def)
  have q: "q * b = d + (if r \<noteq> 0 then b else 0)" by (simp add: q_def d_def r_def algebra_simps)
  show 1: "a \<le> q * b" using ab q by (auto split: if_splits)
  have "(q - 1) * b = q * b - b" by (simp add: algebra_simps)
  then show "(q - 1) * b < a" using ab q assms(1) by (auto split: if_splits)
  show "1 \<le> q"
  proof (rule ccontr)
    assume "\<not> 1 \<le> q"
    then have "q * b \<le> 0" using assms(1) by (simp add: mult_nonpos_nonneg)
    then show False using 1 assms(2) by simp
  qed
qed

lemma handler_share:
  assumes "1 \<le> n" and "0 < t"
  shows "task_num_update_handler (Some t) n = (if n mod t \<noteq> 0 then n div t + 1 else n div t)"
proof (cases "t \<ge> n")
  case True
  show ?thesis
  proof (cases "t = n")
    case False
    then have "n div t = 0" "n mod t = n" using True assms by (simp_all add: div_pos_pos_trivial)
    then show ?thesis using True assms by (simp add: task_num_update_handler_def)
  qed (use assms in \<open>simp add: task_num_update_handler_def\<close>)
next
  case False
  then show ?thesis using assms sdiv_smod_nonneg [of n t] by (simp add: task_num_update_handler_def)
qed

lemma add_pthread_ids:
  assumes "0 \<le> next_core_id ts" "next_core_id ts < core_num ts"
  shows "map tcore_id (real_threads (add_pthread ps ts)) =
      map tcore_id (real_threads ts) @ map (\<lambda>i. (next_core_id ts + int i) mod core_num ts) [0..<length ps] \<and>
    map pid (real_threads (add_pthread ps ts)) = map pid (real_threads ts) @ ps"
  using assms
proof (induction ps arbitrary: ts)
  case (Cons p ps)
  define c where "c = next_core_id ts"
  define c' where "c' = (if c + 1 \<ge> core_num ts then 0 else c + 1)"
  define ts' where "ts' = ts\<lparr>real_threads := real_threads ts @ [\<lparr>pid = p, tcore_id = c, ttask = None\<rparr>], next_core_id := c'\<rparr>"
  have step: "add_pthread (p # ps) ts = add_pthread ps ts'"
    by (auto simp: Let_def ts'_def c'_def c_def)
  have c: "0 \<le> c" "c < core_num ts" using Cons.prems by (simp_all add: c_def)
  have mod: "(c' + int i) mod core_num ts = (c + int (Suc i)) mod core_num ts" for i
  proof (cases "c + 1 \<ge> core_num ts")
    case True
    then have "c + int (Suc i) = int i + core_num ts" using c by simp
    then have "(c + int (Suc i)) mod core_num ts = int i mod core_num ts" by (simp only: mod_add_self2)
    then show ?thesis using True by (simp add: c'_def)
  qed (simp add: c'_def algebra_simps)
  have "0 \<le> next_core_id ts'" "next_core_id ts' < core_num ts'" "core_num ts' = core_num ts"
    using c by (auto simp: ts'_def c'_def)
  note IH = Cons.IH [OF this(1,2)]
  have "[0..<length (p # ps)] = 0 # map Suc [0..<length ps]" by (simp add: upt_conv_Cons map_Suc_upt del: upt_Suc)
  then show ?case unfolding step using IH c mod by (simp add: ts'_def c_def [symmetric] comp_def)
qed simp

text \<open>The kernel threads outside the count, and the workers counted but not yet created.\<close>

fun outside :: "active_pc \<Rightarrow> int" where
  "outside A_run = 0" | "outside A_leave = 0" | "outside _ = 1"

fun pending :: "active_pc \<Rightarrow> int" where
  "pending (A_add k) = k" | "pending _ = 0"

definition balance :: "nat \<Rightarrow> active_sys \<Rightarrow> int" where
  "balance n s = active_threads_count s + (\<Sum>t<n. outside (active_pcs s t) - pending (active_pcs s t)) - worker_count s"

fun event_thread :: "active_event \<Rightarrow> nat" where
  "event_thread (TimedWait t) = t" | "event_thread (ActiveStep t b) = t" | "event_thread (Unblock t) = t"

lemma balance_goto:
  assumes "t < n"
  shows "balance n (active_goto t pc s) =
    balance n s + (outside pc - pending pc) - (outside (active_pcs s t) - pending (active_pcs s t))"
  unfolding balance_def using sum_fun_upd [OF assms, of "\<lambda>p. outside p - pending p" "active_pcs s" pc] by simp

lemma balance_fields [simp]:
  "balance n (s\<lparr>active_threads_count := a\<rparr>) = balance n s + a - active_threads_count s"
  "balance n (s\<lparr>worker_count := w\<rparr>) = balance n s + worker_count s - w"
  "balance n (s\<lparr>num_threads := k\<rparr>) = balance n s"
  by (simp_all add: balance_def)

lemma balance_step:
  assumes "event_thread e < n"
  shows "balance n (pthread_cond_timedwait_step target cores e s) = balance n s"
proof (cases e)
  case (ActiveStep t b)
  then have t: "t < n" using assms by simp
  have up: "balance n (s\<lparr>active_threads_count := a, active_pcs := (active_pcs s)(t := pc)\<rparr>) =
      balance n s + a - active_threads_count s + (outside pc - pending pc) -
        (outside (active_pcs s t) - pending (active_pcs s t))"
    "balance n (s\<lparr>worker_count := w, active_pcs := (active_pcs s)(t := pc)\<rparr>) =
      balance n s + worker_count s - w + (outside pc - pending pc) -
        (outside (active_pcs s t) - pending (active_pcs s t))"
    "balance n (s\<lparr>num_threads := k, active_pcs := (active_pcs s)(t := pc)\<rparr>) =
      balance n s + (outside pc - pending pc) - (outside (active_pcs s t) - pending (active_pcs s t))" for pc a w k
    using balance_goto [OF t, where s = "s\<lparr>active_threads_count := a\<rparr>"]
      balance_goto [OF t, where s = "s\<lparr>worker_count := w\<rparr>"] balance_goto [OF t, where s = "s\<lparr>num_threads := k\<rparr>"]
    by simp_all
  show ?thesis
    by (cases "active_pcs s t")
      (simp_all add: ActiveStep yield_running_step_def reach_target_num_threads_step_def back_running_step_def
        Let_def up balance_goto [OF t] split: option.splits)
qed (use assms in \<open>simp_all add: balance_goto\<close>)

section \<open>Properties\<close>

text \<open>
  C34. The share of a process is its ceiling: with \<open>n\<close> processors and \<open>t\<close> processes the
  library lets \<open>n / t\<close> rounded up workers run, at least one and at most \<open>n\<close>, and the value
  computed at start-up agrees with the one the manager recomputes.
\<close>

theorem processor_share:
  assumes "1 \<le> n" and "0 \<le> t"
  shows "1 \<le> task_num_update_handler (Some t) n \<and> task_num_update_handler (Some t) n \<le> n \<and>
    n \<le> task_num_update_handler (Some t) n * max 1 t \<and> (task_num_update_handler (Some t) n - 1) * max 1 t < n \<and>
    init_task_num n t = Some (t + 1, task_num_update_handler (Some (t + 1)) n)"
proof -
  have zero: "task_num_update_handler (Some t) n = task_num_update_handler (Some (max 1 t)) n"
    using assms by (cases "t = 0") (simp_all add: task_num_update_handler_def)
  have m: "0 < max 1 t" by simp
  let ?a = "task_num_update_handler (Some (max 1 t)) n"
  note C = ceiling_div [OF m, of n, folded handler_share [OF assms(1) m]]
  have "?a \<le> n"
  proof (rule ccontr)
    assume "\<not> ?a \<le> n"
    then have "n * 1 \<le> (?a - 1) * max 1 t" using assms by (intro mult_mono) auto
    then show False using C(2) assms by simp
  qed
  moreover have "init_task_num n t = Some (t + 1, task_num_update_handler (Some (t + 1)) n)"
    using assms sdiv_smod_nonneg [of n "t + 1"] handler_share [of n "t + 1"] by (simp add: init_task_num_def Let_def)
  ultimately show ?thesis using C assms unfolding zero by simp
qed

theorem processor_share_witness:
  "(1 :: int) \<le> 8 \<and> (0 :: int) \<le> 3 \<and> task_num_update_handler (Some 3) 8 = 3 \<and>
   (8 :: int) \<le> task_num_update_handler (Some 3) 8 * max 1 3"
  using processor_share [of 8 3] handler_share [of 8 3] by simp

text \<open>
  \<open>add_pthread\<close> gives its workers consecutive core numbers, round robin below the number
  of cores, in the order of creation.
\<close>

theorem add_pthread_round_robin:
  assumes "0 \<le> next_core_id ts" and "next_core_id ts < core_num ts"
  shows "map tcore_id (real_threads (add_pthread ps ts)) =
    map tcore_id (real_threads ts) @ map (\<lambda>i. (next_core_id ts + int i) mod core_num ts) [0..<length ps]"
  using add_pthread_ids [OF assms] by simp

theorem add_pthread_round_robin_witness:
  "map tcore_id (real_threads (add_pthread [7, 8, 9] \<lparr>real_threads = [], next_core_id = 1, core_num = 2\<rparr>)) = [1, 0, 1]"
  using add_pthread_round_robin [of "\<lparr>real_threads = [], next_core_id = 1, core_num = 2\<rparr>" "[7, 8, 9]"]
  by (simp add: upt_rec)

text \<open>
  C29. The count of active kernel threads is exact in every interleaving of threads that block
  and return: it differs from the number of workers by the threads that have left it, less the
  workers that are counted but not yet created.
\<close>

theorem active_threads_exact:
  assumes "list_all (\<lambda>e. event_thread e < n) es"
  shows "balance n (run (pthread_cond_timedwait_step target cores) es s) = balance n s"
  using assms
proof (induction es arbitrary: s)
  case (Cons e es)
  then show ?case using balance_step [of e n target cores s] by simp
qed simp

theorem active_threads_exact_witness:
  "list_all (\<lambda>e. event_thread e < 2) [TimedWait 1, ActiveStep 1 False, ActiveStep 1 False] \<and>
   balance 2 (run (pthread_cond_timedwait_step 4 8) [TimedWait 1, ActiveStep 1 False, ActiveStep 1 False]
     \<lparr>active_threads_count = 4, num_threads = 4, worker_count = 4, active_pcs = (\<lambda>_. A_run)\<rparr>) = 0"
  using active_threads_exact [of 2 "[TimedWait 1, ActiveStep 1 False, ActiveStep 1 False]" 4 8
      "\<lparr>active_threads_count = 4, num_threads = 4, worker_count = 4, active_pcs = (\<lambda>_. A_run)\<rparr>"]
  by (simp add: balance_def)

end
