(* ===== verification/PowTwo.thy ===== *)
theory PowTwo
  imports HPrelude
begin

text \<open>
  Rounding to powers of two and ring indices, which the vendored queues share: \<open>ceilToPow2\<close> of
  \<open>inc/readerwriterqueue.h\<close> and \<open>ceil_to_pow_2\<close> of \<open>inc/concurrentqueue.h\<close> (the same statements),
  and the arithmetic of an index that is masked with the size of its ring less one.
\<close>

section \<open>Rounding up\<close>

text \<open>
  The loop variable of the source takes the values 1, 2 and 4 (\<open>i < sizeof(size_t)\<close>, doubled).
\<close>

definition ceilToPow2 :: "c_size \<Rightarrow> c_size" where
  "ceilToPow2 x =
     (let x = x - 1;
          x = x OR drop_bit 1 x;
          x = x OR drop_bit 2 x;
          x = x OR drop_bit 4 x;
          x = foldl (\<lambda>x i. x OR drop_bit (push_bit 3 i) x) x [1, 2, 4]
      in x + 1)"

text \<open>\<open>smear n x\<close> has every bit that is set in \<open>x\<close> or in one of the \<open>n - 1\<close> places above it.\<close>

definition smeared :: "nat \<Rightarrow> c_size \<Rightarrow> c_size \<Rightarrow> bool" where
  "smeared n x y \<longleftrightarrow> (\<forall>i. bit y i \<longleftrightarrow> (\<exists>j<n. bit x (i + j)))"

lemma smeared_1: "smeared 1 x x"
  by (simp add: smeared_def)

lemma smeared_double:
  assumes "smeared n x y"
  shows "smeared (2 * n) x (y OR drop_bit n y)"
  unfolding smeared_def
proof (intro allI iffI)
  fix i
  assume "bit (y OR drop_bit n y) i"
  then consider j where "j < n" "bit x (i + j)" | j where "j < n" "bit x (n + i + j)"
    using assms by (auto simp: smeared_def bit_or_iff bit_drop_bit_eq)
  then show "\<exists>j<2 * n. bit x (i + j)"
  proof cases
    case 1 then show ?thesis by (intro exI [of _ j]) simp
  next
    case 2 then show ?thesis by (intro exI [of _ "n + j"]) (simp add: ac_simps)
  qed
next
  fix i
  assume "\<exists>j<2 * n. bit x (i + j)"
  then obtain j where j: "j < 2 * n" "bit x (i + j)" by auto
  show "bit (y OR drop_bit n y) i"
  proof (cases "j < n")
    case True
    with j assms show ?thesis by (auto simp: smeared_def bit_or_iff)
  next
    case False
    then have "bit x (n + i + (j - n))" "j - n < n" using j by (simp_all add: ac_simps)
    with assms show ?thesis by (auto simp: smeared_def bit_or_iff bit_drop_bit_eq)
  qed
qed

lemma ceilToPow2_smeared: "\<exists>y. smeared 64 (x - 1) y \<and> ceilToPow2 x = y + 1"
proof -
  note d = smeared_double
  from d [OF d [OF d [OF d [OF d [OF d [OF smeared_1 [of "x - 1"]]]]]]]
  show ?thesis by (auto simp: ceilToPow2_def Let_def push_bit_eq_mult)
qed

lemma smeared_64_0: "smeared 64 0 y \<Longrightarrow> y = 0"
  by (simp add: smeared_def bit_eq_iff)

text \<open>Smearing over the whole width fills the word below its highest bit.\<close>

lemma smeared_64_mask:
  assumes y: "smeared 64 x y" and m: "2 ^ m \<le> unat x" "unat x < 2 ^ Suc m"
  shows "y = mask (Suc m)"
proof -
  have m64: "m < 64"
  proof (rule ccontr)
    assume "\<not> m < 64"
    then have "(2 :: nat) ^ 64 \<le> 2 ^ m" by (intro power_increasing) simp_all
    moreover have "unat x < 2 ^ LENGTH(64)" by (rule unsigned_less)
    ultimately show False using m(1) by simp
  qed
  have high: "\<not> bit x j" if "m < j" for j
  proof -
    have "unat x < 2 ^ j" using m(2) that by (metis Suc_leI le_less_trans less_le_trans one_le_numeral power_increasing)
    then have "\<not> bit (unat x) j" by (simp add: bit_iff_odd)
    then show ?thesis by (simp add: bit_unsigned_iff)
  qed
  have top: "bit x m"
  proof -
    have "unat x div 2 ^ m = 1" using m by (simp add: div_nat_eqI)
    then have "bit (unat x) m" by (simp add: bit_iff_odd)
    then show ?thesis by (simp add: bit_unsigned_iff)
  qed
  show ?thesis
  proof (rule bit_eqI)
    fix i
    have "bit y i \<longleftrightarrow> i \<le> m"
    proof
      assume "bit y i"
      then obtain j where "bit x (i + j)" using y by (auto simp: smeared_def)
      then show "i \<le> m" using high [of "i + j"] by (cases "m < i + j") auto
    next
      assume "i \<le> m"
      then have "m - i < 64" "bit x (i + (m - i))" using top m64 by simp_all
      then show "bit y i" using y by (auto simp: smeared_def)
    qed
    then show "bit y i \<longleftrightarrow> bit (mask (Suc m) :: c_size) i" using m64 by (auto simp: bit_mask_iff)
  qed
qed

lemma unat_pow2:
  assumes "k < 64"
  shows "unat (2 ^ k :: c_size) = 2 ^ k"
proof -
  have "(2 :: nat) ^ k < 2 ^ LENGTH(64)" using assms by (intro power_strict_increasing) simp_all
  then show ?thesis using unat_of_nat_small [of "2 ^ k", where 'a = 64] by simp
qed

lemma highest_bit: "0 < (n :: nat) \<Longrightarrow> \<exists>m. 2 ^ m \<le> n \<and> n < 2 ^ Suc m"
proof (induction n rule: less_induct)
  case (less n)
  show ?case
  proof (cases "n = 1")
    case False
    then have "0 < n div 2" "n div 2 < n" using less.prems by auto
    then obtain m where "2 ^ m \<le> n div 2" "n div 2 < 2 ^ Suc m" using less.IH by blast
    then have "2 ^ Suc m \<le> n \<and> n < 2 ^ Suc (Suc m)" by auto
    then show ?thesis by blast
  qed (auto intro: exI [of _ 0])
qed

lemma ceilToPow2_value:
  assumes "2 ^ m < unat x" "unat x \<le> 2 ^ Suc m"
  shows "ceilToPow2 x = 2 ^ Suc m"
proof -
  have "x \<noteq> 0" using assms(1) by auto
  then have "unat (x - 1) = unat x - 1" by (simp add: unat_minus_one)
  then have m: "2 ^ m \<le> unat (x - 1)" "unat (x - 1) < 2 ^ Suc m" using assms by auto
  obtain y where "smeared 64 (x - 1) y" "ceilToPow2 x = y + 1" using ceilToPow2_smeared by blast
  moreover from this(1) have "y = mask (Suc m)" using m by (rule smeared_64_mask)
  ultimately show ?thesis by (simp add: mask_eq_exp_minus_1)
qed

lemma ceilToPow2_1: "ceilToPow2 1 = 1"
  using ceilToPow2_smeared [of 1] smeared_64_0 by auto

section \<open>Ring indices\<close>

text \<open>Facts about positions on a ring of \<open>n\<close> places, and the distance of two of them.\<close>

definition ring_dist :: "nat \<Rightarrow> nat \<Rightarrow> nat \<Rightarrow> nat" where
  "ring_dist n f t = (t + n - f) mod n"

lemma ring_dist_cases:
  assumes "f < n" "t < n"
  shows "ring_dist n f t = (if f \<le> t then t - f else t + n - f)"
proof (cases "f \<le> t")
  case True
  then have "t + n - f = (t - f) + n" by simp
  then have "(t + n - f) mod n = (t - f) mod n" by (simp only: mod_add_self2)
  then show ?thesis using True assms by (simp add: ring_dist_def)
qed (use assms in \<open>simp add: ring_dist_def\<close>)

lemma ring_succ_cases: "t < n \<Longrightarrow> Suc t mod n = (if Suc t = n then 0 else Suc t)"
  by auto

lemma ring_succ_neq: "t < n \<Longrightarrow> 2 \<le> n \<Longrightarrow> Suc t mod n \<noteq> t"
  by (simp add: ring_succ_cases)

lemma ring_dist_less: "0 < n \<Longrightarrow> ring_dist n f t < n"
  by (simp add: ring_dist_def)

lemma ring_dist_self [simp]: "f < n \<Longrightarrow> ring_dist n f f = 0"
  by (simp add: ring_dist_def)

lemma ring_dist_0_iff: "f < n \<Longrightarrow> t < n \<Longrightarrow> ring_dist n f t = 0 \<longleftrightarrow> f = t"
  by (auto simp: ring_dist_cases)

lemma ring_full_iff:
  assumes "f < n" "t < n"
  shows "Suc t mod n = f \<longleftrightarrow> Suc (ring_dist n f t) = n"
  using assms by (auto simp: ring_dist_cases ring_succ_cases)

lemma ring_dist_push:
  assumes "f < n" "t < n" "Suc t mod n \<noteq> f"
  shows "ring_dist n f (Suc t mod n) = Suc (ring_dist n f t)"
  using assms by (auto simp: ring_dist_cases ring_succ_cases)

lemma ring_dist_pop:
  assumes "f < n" "t < n" "f \<noteq> t"
  shows "Suc (ring_dist n (Suc f mod n) t) = ring_dist n f t"
  using assms by (auto simp: ring_dist_cases ring_succ_cases)

lemma ring_at_end:
  assumes "f < n" "t < n"
  shows "(f + ring_dist n f t) mod n = t"
  using assms by (auto simp: ring_dist_cases)

lemma ring_shift: "(Suc f mod n + i) mod n = (f + Suc i) mod n"
  by (simp add: mod_add_left_eq)

lemma ring_inj:
  assumes "i < ring_dist n f t" "f < n" "t < n"
  shows "(f + i) mod n \<noteq> t"
proof -
  have "i < n" using assms ring_dist_less [of n f t] by auto
  then have "(f + i) mod n = (if f + i < n then f + i else f + i - n)"
    using assms(2) by (auto simp: mod_if)
  then show ?thesis using assms by (auto simp: ring_dist_cases split: if_splits)
qed

section \<open>Properties\<close>

text \<open>
  \<open>ceilToPow2\<close> rounds up to the least power of two for every argument from 1 to \<open>2 ^ 63\<close>;
  above that there is no such 64-bit number and the result is 0.
\<close>

theorem ceilToPow2_least:
  assumes "0 < x"
  shows "(unat x \<le> 2 ^ 63 \<longrightarrow>
      (\<exists>k<64. unat (ceilToPow2 x) = 2 ^ k \<and> unat x \<le> 2 ^ k \<and> 2 ^ k < 2 * unat x)) \<and>
    (2 ^ 63 < unat x \<longrightarrow> ceilToPow2 x = 0)"
proof (intro conjI impI)
  have pos: "0 < unat x" using assms by (simp add: word_less_nat_alt)
  have small: "unat x < 2 ^ LENGTH(64)" by (rule unsigned_less)
  show "\<exists>k<64. unat (ceilToPow2 x) = 2 ^ k \<and> unat x \<le> 2 ^ k \<and> 2 ^ k < 2 * unat x" if le: "unat x \<le> 2 ^ 63"
  proof (cases "unat x = 1")
    case True
    then have "x = 1" by (metis unat_1 word_unat_eq_iff)
    then show ?thesis using ceilToPow2_1 by (intro exI [of _ 0]) simp
  next
    case False
    then have "0 < unat x - 1" using pos by simp
    then obtain m where m: "2 ^ m \<le> unat x - 1" "unat x - 1 < 2 ^ Suc m" using highest_bit by blast
    have "(2 :: nat) ^ m < 2 ^ 63" using m(1) le pos by linarith
    then have "m < 63" by (rule power_less_imp_less_exp [rotated]) simp
    then have u: "unat (2 ^ Suc m :: c_size) = 2 ^ Suc m" by (intro unat_pow2) simp
    have "ceilToPow2 x = 2 ^ Suc m" by (rule ceilToPow2_value) (use m pos in auto)
    then show ?thesis using m u pos \<open>m < 63\<close> by (intro exI [of _ "Suc m"]) auto
  qed
  show "ceilToPow2 x = 0" if "2 ^ 63 < unat x"
  proof -
    have "ceilToPow2 x = 2 ^ Suc 63" by (rule ceilToPow2_value) (use that small in auto)
    then show ?thesis by (simp only: word_exp_length_eq_0 flip: exp_eq_zero_iff) simp
  qed
qed

theorem ceilToPow2_least_witness:
  "(0 :: c_size) < 5 \<and> unat (5 :: c_size) \<le> 2 ^ 63 \<and>
   (\<exists>k<64. unat (ceilToPow2 5) = 2 ^ k \<and> unat (5 :: c_size) \<le> 2 ^ k \<and> 2 ^ k < 2 * unat (5 :: c_size))"
  using ceilToPow2_least [of 5] by simp

end
