(* ===== verification/RWQueue.thy ===== *)
theory RWQueue
  imports PowTwo
begin

text \<open>
  \<open>ReaderWriterQueue\<close> of \<open>inc/readerwriterqueue.h\<close>: a circular list of blocks, each a ring of a
  power of two of slots with one slot unused.  The operations are modelled whole, one after
  the other, with the shadow copies \<open>localTail\<close> and \<open>localFront\<close> they keep of each other's
  indices; a state represents the list of its elements, and every operation refines the
  operation on the list.
\<close>

section \<open>State\<close>

text \<open>
  Blocks are named by numbers in the order of their allocation; \<open>fresh\<close> is the next one.
  \<open>data\<close> is the array of slots.
\<close>

record 'a block =
  front :: c_size
  localTail :: c_size
  tail :: c_size
  localFront :: c_size
  next_block :: nat
  data :: "c_size \<Rightarrow> 'a"
  sizeMask :: c_size

record 'a rwq =
  blocks :: "nat \<Rightarrow> 'a block"
  frontBlock :: nat
  tailBlock :: nat
  largestBlockSize :: c_size
  fresh :: nat

definition upd_block :: "nat \<Rightarrow> ('a block \<Rightarrow> 'a block) \<Rightarrow> 'a rwq \<Rightarrow> 'a rwq" where
  "upd_block i f q = q\<lparr>blocks := (blocks q)(i := f (blocks q i))\<rparr>"

definition MAX_BLOCK_SIZE :: c_size where
  "MAX_BLOCK_SIZE = 512"

text \<open>
  \<open>make_block\<close>: \<open>mem\<close> is what \<open>malloc\<close> returns, \<open>None\<close> or the contents of the new memory.
\<close>

definition make_block :: "(c_size \<Rightarrow> 'a) option \<Rightarrow> c_size \<Rightarrow> nat \<Rightarrow> 'a block option" where
  "make_block mem capacity nxt = (case mem of None \<Rightarrow> None
   | Some raw \<Rightarrow> Some \<lparr>front = 0, localTail = 0, tail = 0, localFront = 0, next_block = nxt,
       data = raw, sizeMask = capacity - 1\<rparr>)"

text \<open>
  The loop of the constructor: \<open>n\<close> more blocks, the last one made so far pointing to the first.
  \<open>None\<close> is \<open>bad_alloc\<close>.
\<close>

fun make_blocks :: "(nat \<Rightarrow> (c_size \<Rightarrow> 'a) option) \<Rightarrow> nat \<Rightarrow> 'a rwq \<Rightarrow> 'a rwq option" where
  "make_blocks mem 0 q = Some q"
| "make_blocks mem (Suc n) q =
     (case make_block (mem (fresh q)) (largestBlockSize q) 0 of
        None \<Rightarrow> None
      | Some b \<Rightarrow>
          let last_block = fresh q - 1;
              bs = (if fresh q = 0 then blocks q
                    else (blocks q)(last_block := (blocks q last_block)\<lparr>next_block := fresh q\<rparr>))
          in make_blocks mem n (q\<lparr>blocks := bs(fresh q := b), fresh := Suc (fresh q)\<rparr>))"

definition rwq_new :: "(nat \<Rightarrow> (c_size \<Rightarrow> 'a) option) \<Rightarrow> c_size \<Rightarrow> 'a rwq option" where
  "rwq_new mem maxSize =
     (let largest = ceilToPow2 (maxSize + 1);
          q = \<lparr>blocks = (\<lambda>_. \<lparr>front = 0, localTail = 0, tail = 0, localFront = 0, next_block = 0,
                 data = (\<lambda>_. undefined), sizeMask = 0\<rparr>),
               frontBlock = 0, tailBlock = 0, largestBlockSize = largest, fresh = 0\<rparr>
      in if largest > MAX_BLOCK_SIZE * 2
         then let initialBlockCount = (maxSize + MAX_BLOCK_SIZE * 2 - 3) div (MAX_BLOCK_SIZE - 1)
              in make_blocks mem (unat initialBlockCount) (q\<lparr>largestBlockSize := MAX_BLOCK_SIZE\<rparr>)
         else make_blocks mem 1 q)"

section \<open>The consumer\<close>

text \<open>
  \<open>non_empty_front_block\<close>: move the element at \<open>bf\<close> out of block \<open>fb\<close>.
\<close>

definition take_front :: "nat \<Rightarrow> c_size \<Rightarrow> 'a rwq \<Rightarrow> 'a \<times> 'a rwq" where
  "take_front fb bf q =
     (data (blocks q fb) bf, upd_block fb (\<lambda>b. b\<lparr>front := (bf + 1) AND sizeMask b\<rparr>) q)"

text \<open>
  \<open>try_dequeue\<close>; \<open>None\<close> overall is the failure of the assertion on the next block.
\<close>

definition rwq_try_dequeue :: "'a rwq \<Rightarrow> ('a option \<times> 'a rwq) option" where
  "rwq_try_dequeue q =
     (let fb = frontBlock q; blockTail = localTail (blocks q fb); blockFront = front (blocks q fb) in
      if blockFront \<noteq> blockTail
      then Some (map_prod Some id (take_front fb blockFront q))
      else
        let q = upd_block fb (\<lambda>b. b\<lparr>localTail := tail b\<rparr>) q in
        if blockFront \<noteq> localTail (blocks q fb)
        then Some (map_prod Some id (take_front fb blockFront q))
        else if fb \<noteq> tailBlock q
        then
          let fb = frontBlock q;
              q = upd_block fb (\<lambda>b. b\<lparr>localTail := tail b\<rparr>) q;
              blockTail = localTail (blocks q fb);
              blockFront = front (blocks q fb)
          in if blockFront \<noteq> blockTail
             then Some (map_prod Some id (take_front fb blockFront q))
             else
               let nb = next_block (blocks q fb);
                   nextBlockFront = front (blocks q nb);
                   q = upd_block nb (\<lambda>b. b\<lparr>localTail := tail b\<rparr>) q;
                   nextBlockTail = localTail (blocks q nb)
               in if nextBlockFront = nextBlockTail then None
                  else Some (map_prod Some id (take_front nb nextBlockFront (q\<lparr>frontBlock := nb\<rparr>)))
        else Some (None, q))"

text \<open>\<open>peek\<close>: the element \<open>try_dequeue\<close> would return; a null pointer is \<open>None\<close>.\<close>

definition rwq_peek :: "'a rwq \<Rightarrow> ('a option \<times> 'a rwq) option" where
  "rwq_peek q =
     (let fb = frontBlock q; blockTail = localTail (blocks q fb); blockFront = front (blocks q fb) in
      if blockFront \<noteq> blockTail
      then Some (Some (data (blocks q fb) blockFront), q)
      else
        let q = upd_block fb (\<lambda>b. b\<lparr>localTail := tail b\<rparr>) q in
        if blockFront \<noteq> localTail (blocks q fb)
        then Some (Some (data (blocks q fb) blockFront), q)
        else if fb \<noteq> tailBlock q
        then
          let fb = frontBlock q;
              q = upd_block fb (\<lambda>b. b\<lparr>localTail := tail b\<rparr>) q;
              blockTail = localTail (blocks q fb);
              blockFront = front (blocks q fb)
          in if blockFront \<noteq> blockTail
             then Some (Some (data (blocks q fb) blockFront), q)
             else
               let nb = next_block (blocks q fb);
                   nextBlockFront = front (blocks q nb)
               in if nextBlockFront = tail (blocks q nb) then None
                  else Some (Some (data (blocks q nb) nextBlockFront), q)
        else Some (None, q))"

text \<open>\<open>pop\<close>: the element is destroyed where it is.\<close>

definition drop_front :: "nat \<Rightarrow> c_size \<Rightarrow> 'a rwq \<Rightarrow> 'a rwq" where
  "drop_front fb bf q = upd_block fb (\<lambda>b. b\<lparr>front := (bf + 1) AND sizeMask b\<rparr>) q"

definition rwq_pop :: "'a rwq \<Rightarrow> (bool \<times> 'a rwq) option" where
  "rwq_pop q =
     (let fb = frontBlock q; blockTail = localTail (blocks q fb); blockFront = front (blocks q fb) in
      if blockFront \<noteq> blockTail
      then Some (True, drop_front fb blockFront q)
      else
        let q = upd_block fb (\<lambda>b. b\<lparr>localTail := tail b\<rparr>) q in
        if blockFront \<noteq> localTail (blocks q fb)
        then Some (True, drop_front fb blockFront q)
        else if fb \<noteq> tailBlock q
        then
          let fb = frontBlock q;
              q = upd_block fb (\<lambda>b. b\<lparr>localTail := tail b\<rparr>) q;
              blockTail = localTail (blocks q fb);
              blockFront = front (blocks q fb)
          in if blockFront \<noteq> blockTail
             then Some (True, drop_front fb blockFront q)
             else
               let nb = next_block (blocks q fb);
                   nextBlockFront = front (blocks q nb);
                   q = upd_block nb (\<lambda>b. b\<lparr>localTail := tail b\<rparr>) q;
                   nextBlockTail = localTail (blocks q nb)
               in if nextBlockFront = nextBlockTail then None
                  else Some (True, drop_front nb nextBlockFront (q\<lparr>frontBlock := nb\<rparr>))
        else Some (False, q))"

text \<open>
  \<open>size_approx\<close>: the loop over the circle of blocks, which stops when it is back at \<open>stop\<close>.
\<close>

partial_function (option) size_loop :: "'a rwq \<Rightarrow> nat \<Rightarrow> nat \<Rightarrow> c_size \<Rightarrow> c_size option" where
  "size_loop q stop i result =
     (let b = blocks q i;
          result = result + ((tail b - front b) AND sizeMask b)
      in if next_block b \<noteq> stop then size_loop q stop (next_block b) result else Some result)"

definition rwq_size_approx :: "'a rwq \<Rightarrow> c_size option" where
  "rwq_size_approx q = size_loop q (frontBlock q) (frontBlock q) 0"

section \<open>The producer\<close>

datatype AllocationMode = CanAlloc | CannotAlloc

text \<open>
  \<open>inner_enqueue\<close>; \<open>None\<close> is the failure of the assertion that the next block is empty.
\<close>

definition rwq_inner_enqueue ::
    "AllocationMode \<Rightarrow> (c_size \<Rightarrow> 'a) option \<Rightarrow> 'a \<Rightarrow> 'a rwq \<Rightarrow> (bool \<times> 'a rwq) option" where
  "rwq_inner_enqueue canAlloc mem element q =
     (let tb = tailBlock q; b = blocks q tb; blockFront = localFront b; blockTail = tail b;
          nextBlockTail = (blockTail + 1) AND sizeMask b;
          put = (\<lambda>q. upd_block tb (\<lambda>b. b\<lparr>tail := nextBlockTail, data := (data b)(blockTail := element)\<rparr>) q)
      in
      if nextBlockTail \<noteq> blockFront then Some (True, put q)
      else
        let q = upd_block tb (\<lambda>b. b\<lparr>localFront := front b\<rparr>) q in
        if nextBlockTail \<noteq> localFront (blocks q tb) then Some (True, put q)
        else if next_block (blocks q tb) \<noteq> frontBlock q
        then
          let nb = next_block (blocks q tb);
              nextBlockFront = front (blocks q nb);
              q = upd_block nb (\<lambda>b. b\<lparr>localFront := nextBlockFront\<rparr>) q;
              nextBlockTail = tail (blocks q nb)
          in if nextBlockFront \<noteq> nextBlockTail then None
             else Some (True,
               (upd_block nb (\<lambda>b. b\<lparr>tail := (nextBlockTail + 1) AND sizeMask b,
                                     data := (data b)(nextBlockTail := element)\<rparr>) q)\<lparr>tailBlock := nb\<rparr>)
        else if canAlloc = CanAlloc
        then
          let newBlockSize = (if largestBlockSize q \<ge> MAX_BLOCK_SIZE then largestBlockSize q
                              else largestBlockSize q * 2)
          in case make_block mem newBlockSize (next_block (blocks q tb)) of
               None \<Rightarrow> Some (False, q)
             | Some nb \<Rightarrow>
                 Some (True,
                   q\<lparr>blocks := ((blocks q)(fresh q :=
                         nb\<lparr>localTail := 1, tail := 1, data := (data nb)(0 := element)\<rparr>))
                       (tb := (blocks q tb)\<lparr>next_block := fresh q\<rparr>),
                     tailBlock := fresh q, largestBlockSize := newBlockSize, fresh := Suc (fresh q)\<rparr>)
        else Some (False, q))"

definition rwq_try_enqueue :: "'a \<Rightarrow> 'a rwq \<Rightarrow> (bool \<times> 'a rwq) option" where
  "rwq_try_enqueue element q = rwq_inner_enqueue CannotAlloc None element q"

definition rwq_enqueue :: "(c_size \<Rightarrow> 'a) option \<Rightarrow> 'a \<Rightarrow> 'a rwq \<Rightarrow> (bool \<times> 'a rwq) option" where
  "rwq_enqueue mem element q = rwq_inner_enqueue CanAlloc mem element q"

section \<open>Blocks\<close>

definition bsz :: "'a block \<Rightarrow> nat" where
  "bsz b = unat (sizeMask b) + 1"

abbreviation bdist :: "'a block \<Rightarrow> c_size \<Rightarrow> c_size \<Rightarrow> nat" where
  "bdist b f t \<equiv> ring_dist (bsz b) (unat f) (unat t)"

text \<open>
  The size is a power of two of at least two slots, the indices are slots, the consumer's copy
  of the tail is not past the tail, and the producer's copy of the front not past the front.
\<close>

definition block_ok :: "'a block \<Rightarrow> bool" where
  "block_ok b \<longleftrightarrow> (\<exists>k>0. bsz b = 2 ^ k) \<and>
     unat (front b) < bsz b \<and> unat (tail b) < bsz b \<and> unat (localTail b) < bsz b \<and> unat (localFront b) < bsz b \<and>
     bdist b (front b) (localTail b) \<le> bdist b (front b) (tail b) \<and>
     bdist b (front b) (tail b) \<le> bdist b (localFront b) (tail b)"

definition block_contents :: "'a block \<Rightarrow> 'a list" where
  "block_contents b =
     map (\<lambda>i. data b (of_nat ((unat (front b) + i) mod bsz b))) [0..<bdist b (front b) (tail b)]"

lemma bsz_upd [simp]:
  "bsz (b\<lparr>front := w\<rparr>) = bsz b" "bsz (b\<lparr>localTail := w\<rparr>) = bsz b" "bsz (b\<lparr>tail := w\<rparr>) = bsz b"
  "bsz (b\<lparr>localFront := w\<rparr>) = bsz b" "bsz (b\<lparr>next_block := n\<rparr>) = bsz b" "bsz (b\<lparr>data := d\<rparr>) = bsz b"
  by (simp_all add: bsz_def)

lemma block_okD:
  assumes "block_ok b"
  shows "unat (front b) < bsz b" "unat (tail b) < bsz b" "unat (localTail b) < bsz b" "unat (localFront b) < bsz b"
    "bdist b (front b) (localTail b) \<le> bdist b (front b) (tail b)"
    "bdist b (front b) (tail b) \<le> bdist b (localFront b) (tail b)"
    "\<exists>k>0. bsz b = 2 ^ k" "0 < bsz b" "2 \<le> bsz b"
proof -
  obtain k where k: "k > 0" "bsz b = 2 ^ k" using assms by (auto simp: block_ok_def)
  show "2 \<le> bsz b" using k power_increasing [of 1 k "2 :: nat"] by simp
qed (use assms in \<open>auto simp: block_ok_def\<close>)

lemma masked_index:
  assumes "bsz b = 2 ^ k"
  shows "unat (w AND sizeMask b) = unat w mod bsz b"
  using assms unat_and_mask [of "sizeMask b" k w] by (simp add: bsz_def)

lemma bsz_dvd:
  assumes "bsz b = 2 ^ k"
  shows "bsz b dvd 2 ^ 64"
proof -
  have "unat (sizeMask b) < 2 ^ LENGTH(64)" by (rule unsigned_less)
  then have "(2 :: nat) ^ k \<le> 2 ^ 64" using assms by (simp add: bsz_def)
  then have "k \<le> 64" by (rule power_le_imp_le_exp [rotated]) simp
  then show ?thesis unfolding assms by (rule le_imp_power_dvd)
qed

lemma next_index:
  assumes "block_ok b"
  shows "unat ((w + 1) AND sizeMask b) = Suc (unat w) mod bsz b"
proof -
  obtain k where k: "bsz b = 2 ^ k" using assms by (auto simp: block_ok_def)
  have "unat (w + 1) = Suc (unat w) mod 2 ^ 64" by (simp add: unat_word_ariths)
  then show ?thesis using masked_index [OF k, of "w + 1"] bsz_dvd [OF k] by (simp add: mod_mod_cancel)
qed

lemma index_diff:
  assumes "block_ok b"
  shows "unat ((tail b - front b) AND sizeMask b) = bdist b (front b) (tail b)"
proof -
  obtain k where k: "bsz b = 2 ^ k" using assms by (auto simp: block_ok_def)
  have "int (bsz b) dvd int (2 ^ 64)" using bsz_dvd [OF k] by (simp only: of_nat_dvd_iff)
  then have d': "int (bsz b) dvd 2 ^ 64" by simp
  have "int (unat (tail b - front b)) = (uint (tail b) - uint (front b)) mod 2 ^ 64"
    by (simp add: uint_word_ariths)
  then have 1: "int (unat (tail b - front b) mod bsz b) = (uint (tail b) - uint (front b)) mod int (bsz b)"
    using mod_mod_cancel [of "int (bsz b)" "2 ^ 64"] d' by (simp add: zmod_int)
  have "int (bdist b (front b) (tail b)) = (uint (tail b) - uint (front b) + int (bsz b)) mod int (bsz b)"
    using block_okD(1) [OF assms] by (simp add: ring_dist_def zmod_int of_nat_diff algebra_simps)
  then have "int (bdist b (front b) (tail b)) = (uint (tail b) - uint (front b)) mod int (bsz b)" by simp
  with 1 have "unat (tail b - front b) mod bsz b = bdist b (front b) (tail b)" by simp
  then show ?thesis using masked_index [OF k] by simp
qed

lemma contents_empty_iff:
  assumes "block_ok b"
  shows "block_contents b = [] \<longleftrightarrow> front b = tail b"
  using ring_dist_0_iff [OF block_okD(1,2) [OF assms]] by (simp add: block_contents_def word_unat_eq_iff)

lemma block_refresh_tail:
  assumes "block_ok b"
  shows "block_ok (b\<lparr>localTail := tail b\<rparr>)" "block_contents (b\<lparr>localTail := tail b\<rparr>) = block_contents b"
  using assms by (auto simp: block_ok_def block_contents_def)

lemma block_refresh_front:
  assumes "block_ok b"
  shows "block_ok (b\<lparr>localFront := front b\<rparr>)" "block_contents (b\<lparr>localFront := front b\<rparr>) = block_contents b"
  using assms by (auto simp: block_ok_def block_contents_def)

lemma block_pop:
  assumes ok: "block_ok b" and ne: "front b \<noteq> localTail b"
  defines "b' \<equiv> b\<lparr>front := (front b + 1) AND sizeMask b\<rparr>"
  shows "block_ok b'" "block_contents b = data b (front b) # block_contents b'"
proof -
  note D = block_okD [OF ok]
  have f': "unat (front b') = Suc (unat (front b)) mod bsz b" by (simp add: b'_def next_index [OF ok])
  have lt: "unat (front b) \<noteq> unat (localTail b)" using ne by (simp add: word_unat_eq_iff)
  have dl: "0 < bdist b (front b) (localTail b)" using ring_dist_0_iff [OF D(1,3)] lt by simp
  then have ft: "unat (front b) \<noteq> unat (tail b)" using D(5) ring_dist_self [OF D(2)] by (metis leD)
  have 1: "Suc (bdist b' (front b') (tail b)) = bdist b (front b) (tail b)"
    using ring_dist_pop [OF D(1,2) ft] f' by (simp add: b'_def)
  have 2: "Suc (bdist b' (front b') (localTail b)) = bdist b (front b) (localTail b)"
    using ring_dist_pop [OF D(1,3) lt] f' by (simp add: b'_def)
  show "block_ok b'"
    using D 1 2 f' unfolding block_ok_def b'_def by simp
  have idx: "(unat (front b') + i) mod bsz b = (unat (front b) + Suc i) mod bsz b" for i
    unfolding f' by (rule ring_shift)
  have z: "data b (of_nat ((unat (front b) + 0) mod bsz b)) = data b (front b)" using D(1) by simp
  have "[0..<bdist b (front b) (tail b)] = 0 # map Suc [0..<bdist b' (front b') (tail b)]"
    by (simp add: 1 [symmetric] upt_conv_Cons map_Suc_upt del: upt_Suc)
  then show "block_contents b = data b (front b) # block_contents b'"
    using z idx by (simp add: block_contents_def comp_def) (simp add: b'_def)
qed

lemma block_push:
  fixes b :: "'a block" and x :: 'a
  assumes ok: "block_ok b" and ne: "(tail b + 1) AND sizeMask b \<noteq> localFront b"
  defines "b' \<equiv> b\<lparr>tail := (tail b + 1) AND sizeMask b, data := (data b)(tail b := x)\<rparr>"
  shows "block_ok b'" "block_contents b' = block_contents b @ [x]"
proof -
  note D = block_okD [OF ok]
  have t': "unat (tail b') = Suc (unat (tail b)) mod bsz b" by (simp add: b'_def next_index [OF ok])
  have lf: "Suc (unat (tail b)) mod bsz b \<noteq> unat (localFront b)"
    using ne next_index [OF ok, of "tail b"] by (metis word_unat_eq_iff)
  then have "Suc (bdist b (localFront b) (tail b)) \<noteq> bsz b" using ring_full_iff [OF D(4,2)] by simp
  then have "Suc (bdist b (front b) (tail b)) \<noteq> bsz b" using D(6) ring_dist_less [OF D(8), of "unat (localFront b)" "unat (tail b)"] by linarith
  then have f: "Suc (unat (tail b)) mod bsz b \<noteq> unat (front b)" using ring_full_iff [OF D(1,2)] by simp
  have 1: "bdist b (front b) (tail b') = Suc (bdist b (front b) (tail b))"
    unfolding t' by (rule ring_dist_push [OF D(1,2) f])
  have 2: "bdist b (localFront b) (tail b') = Suc (bdist b (localFront b) (tail b))"
    unfolding t' by (rule ring_dist_push [OF D(4,2) lf])
  show "block_ok b'" using D 1 2 t' unfolding block_ok_def b'_def by simp
  have "of_nat ((unat (front b) + i) mod bsz b) \<noteq> tail b" if "i < bdist b (front b) (tail b)" for i
  proof -
    have "unat (sizeMask b) < 2 ^ LENGTH(64)" by (rule unsigned_less)
    then have "bsz b \<le> 2 ^ LENGTH(64)" by (simp add: bsz_def)
    then have "(unat (front b) + i) mod bsz b < 2 ^ LENGTH(64)"
      using mod_less_divisor [OF D(8), of "unat (front b) + i"] by linarith
    then show ?thesis using ring_inj [OF that D(1,2)] by (metis unat_of_nat_small)
  qed
  moreover have "of_nat ((unat (front b) + bdist b (front b) (tail b)) mod bsz b) = tail b"
    using ring_at_end [OF D(1,2)] by simp
  ultimately show "block_contents b' = block_contents b @ [x]"
    using 1 by (simp add: block_contents_def b'_def)
qed

lemma block_upd_next:
  "block_ok (b\<lparr>next_block := n\<rparr>) = block_ok b" "block_contents (b\<lparr>next_block := n\<rparr>) = block_contents b"
  by (simp_all add: block_ok_def block_contents_def)

section \<open>The ring of blocks\<close>

text \<open>
  \<open>rs\<close> are the blocks in the order of the circle from the front block; the tail block is
  number \<open>k\<close>.  Only the blocks from the front to the tail have elements, and of those only
  the front block may be empty.
\<close>

definition block_size_ok :: "c_size \<Rightarrow> bool" where
  "block_size_ok n \<longleftrightarrow> (\<exists>j. 0 < j \<and> j \<le> 10 \<and> unat n = 2 ^ j)"

definition rwq_shape :: "'a rwq \<Rightarrow> nat list \<Rightarrow> nat \<Rightarrow> bool" where
  "rwq_shape q rs k \<longleftrightarrow> distinct rs \<and> k < length rs \<and> frontBlock q = rs ! 0 \<and> tailBlock q = rs ! k \<and>
     (\<forall>i<length rs. next_block (blocks q (rs ! i)) = rs ! (Suc i mod length rs) \<and>
        rs ! i < fresh q \<and> block_ok (blocks q (rs ! i)) \<and>
        (0 < i \<longrightarrow> (front (blocks q (rs ! i)) = tail (blocks q (rs ! i)) \<longleftrightarrow> k < i))) \<and>
     block_size_ok (largestBlockSize q)"

definition rwq_contents :: "'a rwq \<Rightarrow> nat list \<Rightarrow> nat \<Rightarrow> 'a list" where
  "rwq_contents q rs k = concat (map (\<lambda>i. block_contents (blocks q (rs ! i))) [0..<Suc k])"

definition rwq_rep :: "'a rwq \<Rightarrow> 'a list \<Rightarrow> bool" where
  "rwq_rep q xs \<longleftrightarrow> (\<exists>rs k. rwq_shape q rs k \<and> xs = rwq_contents q rs k)"

lemma shapeD:
  assumes "rwq_shape q rs k"
  shows "distinct rs" "k < length rs" "0 < length rs" "frontBlock q = rs ! 0" "tailBlock q = rs ! k"
    "\<And>i. i < length rs \<Longrightarrow> next_block (blocks q (rs ! i)) = rs ! (Suc i mod length rs)"
    "\<And>i. i < length rs \<Longrightarrow> rs ! i < fresh q"
    "\<And>i. i < length rs \<Longrightarrow> block_ok (blocks q (rs ! i))"
    "\<And>i. 0 < i \<Longrightarrow> i < length rs \<Longrightarrow> (front (blocks q (rs ! i)) = tail (blocks q (rs ! i)) \<longleftrightarrow> k < i)"
    "block_size_ok (largestBlockSize q)"
  using assms unfolding rwq_shape_def by auto

lemma contents_front:
  "rwq_contents q rs k = block_contents (blocks q (rs ! 0)) @
    concat (map (\<lambda>i. block_contents (blocks q (rs ! Suc i))) [0..<k])"
proof -
  have "[0..<Suc k] = 0 # map Suc [0..<k]" by (simp add: upt_conv_Cons map_Suc_upt del: upt_Suc)
  then show ?thesis by (simp add: rwq_contents_def comp_def del: upt_Suc)
qed

lemma contents_tail:
  "rwq_contents q rs k = concat (map (\<lambda>i. block_contents (blocks q (rs ! i))) [0..<k]) @
    block_contents (blocks q (rs ! k))"
  by (simp add: rwq_contents_def)

text \<open>Replacing one block by another with the same successor.\<close>

lemma shape_upd:
  assumes sh: "rwq_shape q rs k" and j: "j < length rs"
    and ok: "block_ok b'" and nx: "next_block b' = next_block (blocks q (rs ! j))"
    and em: "0 < j \<Longrightarrow> front b' = tail b' \<longleftrightarrow> k < j"
  shows "rwq_shape (q\<lparr>blocks := (blocks q)(rs ! j := b')\<rparr>) rs k"
proof -
  note D = shapeD [OF sh]
  have eq: "i < length rs \<Longrightarrow> rs ! i = rs ! j \<longleftrightarrow> i = j" for i
    using D(1) j by (simp add: nth_eq_iff_index_eq)
  show ?thesis unfolding rwq_shape_def using D ok nx em eq by (auto simp: nx)
qed

lemma contents_upd:
  assumes sh: "rwq_shape q rs k"
  shows "rwq_contents (q\<lparr>blocks := (blocks q)(rs ! 0 := b')\<rparr>) rs k =
      block_contents b' @ concat (map (\<lambda>i. block_contents (blocks q (rs ! Suc i))) [0..<k])"
    and "rwq_contents (q\<lparr>blocks := (blocks q)(rs ! k := b')\<rparr>) rs k =
      concat (map (\<lambda>i. block_contents (blocks q (rs ! i))) [0..<k]) @ block_contents b'"
proof -
  note D = shapeD [OF sh]
  have "rs ! Suc i \<noteq> rs ! 0" if "i < k" for i
    using D(1,2,3) that by (simp add: nth_eq_iff_index_eq)
  then show "rwq_contents (q\<lparr>blocks := (blocks q)(rs ! 0 := b')\<rparr>) rs k =
      block_contents b' @ concat (map (\<lambda>i. block_contents (blocks q (rs ! Suc i))) [0..<k])"
    unfolding contents_front by (auto intro!: arg_cong [where f = concat])
  have "rs ! i \<noteq> rs ! k" if "i < k" for i
    using D(1,2) that by (simp add: nth_eq_iff_index_eq)
  then show "rwq_contents (q\<lparr>blocks := (blocks q)(rs ! k := b')\<rparr>) rs k =
      concat (map (\<lambda>i. block_contents (blocks q (rs ! i))) [0..<k]) @ block_contents b'"
    unfolding contents_tail by (auto intro!: arg_cong [where f = concat])
qed

text \<open>An update of one block that keeps its contents keeps the list.\<close>

lemma contents_upd_same:
  assumes "block_contents b' = block_contents (blocks q j)"
  shows "rwq_contents (q\<lparr>blocks := (blocks q)(j := b')\<rparr>) rs k = rwq_contents q rs k"
  using assms unfolding rwq_contents_def by (auto intro!: arg_cong [where f = concat])

lemma shape_rotate:
  assumes sh: "rwq_shape q rs k" and k: "0 < k" and em: "front (blocks q (rs ! 0)) = tail (blocks q (rs ! 0))"
  shows "rwq_shape (q\<lparr>frontBlock := rs ! 1\<rparr>) (rotate1 rs) (k - 1)"
    "rwq_contents (q\<lparr>frontBlock := rs ! 1\<rparr>) (rotate1 rs) (k - 1) = rwq_contents q rs k"
proof -
  note D = shapeD [OF sh]
  let ?n = "length rs"
  have rot: "rotate1 rs ! i = rs ! (Suc i mod ?n)" if "i < ?n" for i using that by (rule nth_rotate1)
  have pos: "1 < ?n" using D(2) k by simp
  have sm: "Suc i mod ?n < ?n" for i using D(3) by simp
  show "rwq_shape (q\<lparr>frontBlock := rs ! 1\<rparr>) (rotate1 rs) (k - 1)"
    unfolding rwq_shape_def
  proof (intro conjI allI impI)
    fix i assume "i < length (rotate1 rs)"
    then have i: "i < ?n" by simp
    show "next_block (blocks (q\<lparr>frontBlock := rs ! 1\<rparr>) (rotate1 rs ! i)) =
        rotate1 rs ! (Suc i mod length (rotate1 rs))"
      using D(6) [OF sm, of i] rot [OF i] rot [OF sm, of i] by simp
    show "rotate1 rs ! i < fresh (q\<lparr>frontBlock := rs ! 1\<rparr>)" using D(7) [OF sm] rot [OF i] by simp
    show "block_ok (blocks (q\<lparr>frontBlock := rs ! 1\<rparr>) (rotate1 rs ! i))" using D(8) [OF sm] rot [OF i] by simp
    assume "0 < i"
    show "(front (blocks (q\<lparr>frontBlock := rs ! 1\<rparr>) (rotate1 rs ! i)) =
        tail (blocks (q\<lparr>frontBlock := rs ! 1\<rparr>) (rotate1 rs ! i))) = (k - 1 < i)"
    proof (cases "Suc i = ?n")
      case True
      then show ?thesis using em rot [OF i] D(2) k by simp
    next
      case False
      then have "Suc i < ?n" using i by simp
      then show ?thesis using D(9) [of "Suc i"] rot [OF i] k by auto
    qed
  qed (use D k pos rot [of 0] rot [of "k - 1"] in auto)
  have "map (\<lambda>i. block_contents (blocks q (rotate1 rs ! i))) [0..<Suc (k - 1)] =
      map (\<lambda>i. block_contents (blocks q (rs ! Suc i))) [0..<k]"
    using D(2) k rot by auto
  moreover have "block_contents (blocks q (rs ! 0)) = []" using em contents_empty_iff [OF D(8) [OF D(3)]] by simp
  ultimately show "rwq_contents (q\<lparr>frontBlock := rs ! 1\<rparr>) (rotate1 rs) (k - 1) = rwq_contents q rs k"
    unfolding contents_front [of q rs k] by (simp add: rwq_contents_def)
qed

section \<open>The consumer\<close>

lemma upd_block_fields [simp]:
  "frontBlock (upd_block i f q) = frontBlock q" "tailBlock (upd_block i f q) = tailBlock q"
  "largestBlockSize (upd_block i f q) = largestBlockSize q" "fresh (upd_block i f q) = fresh q"
  "blocks (upd_block i f q) j = (if j = i then f (blocks q i) else blocks q j)"
  by (simp_all add: upd_block_def)

lemma refresh_tail_shape:
  assumes sh: "rwq_shape q rs k" and j: "j < length rs"
  shows "rwq_shape (upd_block (rs ! j) (\<lambda>b. b\<lparr>localTail := tail b\<rparr>) q) rs k"
    "rwq_contents (upd_block (rs ! j) (\<lambda>b. b\<lparr>localTail := tail b\<rparr>) q) rs k = rwq_contents q rs k"
proof -
  note D = shapeD [OF sh]
  note R = block_refresh_tail [OF D(8) [OF j]]
  show "rwq_shape (upd_block (rs ! j) (\<lambda>b. b\<lparr>localTail := tail b\<rparr>) q) rs k"
    unfolding upd_block_def by (rule shape_upd [OF sh j R(1)]) (use D(9) [OF _ j] in auto)
  show "rwq_contents (upd_block (rs ! j) (\<lambda>b. b\<lparr>localTail := tail b\<rparr>) q) rs k = rwq_contents q rs k"
    unfolding upd_block_def by (rule contents_upd_same [OF R(2)])
qed

lemma take_front_shape:
  assumes sh: "rwq_shape q rs k" and ne: "front (blocks q (rs ! 0)) \<noteq> localTail (blocks q (rs ! 0))"
  obtains q' where "take_front (rs ! 0) (front (blocks q (rs ! 0))) q = (hd (rwq_contents q rs k), q')"
    "rwq_shape q' rs k" "rwq_contents q' rs k = tl (rwq_contents q rs k)" "rwq_contents q rs k \<noteq> []"
proof -
  note D = shapeD [OF sh]
  let ?b = "blocks q (rs ! 0)"
  let ?b' = "?b\<lparr>front := (front ?b + 1) AND sizeMask ?b\<rparr>"
  let ?q' = "q\<lparr>blocks := (blocks q)(rs ! 0 := ?b')\<rparr>"
  note P = block_pop [OF D(8) [OF D(3)] ne]
  have sh': "rwq_shape ?q' rs k" by (rule shape_upd [OF sh D(3) P(1)]) auto
  have c: "rwq_contents q rs k = data ?b (front ?b) # rwq_contents ?q' rs k"
    unfolding contents_upd(1) [OF sh] contents_front [of q] P(2) by simp
  show thesis
    by (rule that [of ?q'], unfold take_front_def upd_block_def) (use sh' c in simp_all)
qed

lemma try_dequeue_shape:
  assumes sh: "rwq_shape q rs k"
  shows "\<exists>q' rs' k'. rwq_try_dequeue q =
      Some (if rwq_contents q rs k = [] then None else Some (hd (rwq_contents q rs k)), q') \<and>
    rwq_shape q' rs' k' \<and> rwq_contents q' rs' k' = tl (rwq_contents q rs k)"
proof -
  note D = shapeD [OF sh]
  let ?b = "blocks q (rs ! 0)"
  let ?q1 = "upd_block (rs ! 0) (\<lambda>b. b\<lparr>localTail := tail b\<rparr>) q"
  note R = refresh_tail_shape [OF sh D(3)]
  consider (shadow) "front ?b \<noteq> localTail ?b" | (front) "front ?b = localTail ?b" "front ?b \<noteq> tail ?b"
    | (single) "front ?b = localTail ?b" "front ?b = tail ?b" "k = 0"
    | (advance) "front ?b = localTail ?b" "front ?b = tail ?b" "0 < k" by blast
  then show ?thesis
  proof cases
    case shadow
    obtain q' where q': "take_front (rs ! 0) (front ?b) q = (hd (rwq_contents q rs k), q')"
      "rwq_shape q' rs k" "rwq_contents q' rs k = tl (rwq_contents q rs k)" "rwq_contents q rs k \<noteq> []"
      using take_front_shape [OF sh shadow] by blast
    then have "rwq_try_dequeue q = Some (Some (hd (rwq_contents q rs k)), q')"
      using shadow D(4) by (simp add: rwq_try_dequeue_def Let_def)
    then show ?thesis using q' by auto
  next
    case front
    have ne: "front (blocks ?q1 (rs ! 0)) \<noteq> localTail (blocks ?q1 (rs ! 0))" using front by simp
    obtain q' where q': "take_front (rs ! 0) (front ?b) ?q1 = (hd (rwq_contents q rs k), q')"
      "rwq_shape q' rs k" "rwq_contents q' rs k = tl (rwq_contents q rs k)" "rwq_contents q rs k \<noteq> []"
      using take_front_shape [OF R(1) ne] unfolding R(2) by auto
    then have "rwq_try_dequeue q = Some (Some (hd (rwq_contents q rs k)), q')"
      using front D(4) by (simp add: rwq_try_dequeue_def Let_def)
    then show ?thesis using q' by auto
  next
    case single
    then have "rwq_contents q rs k = []" using contents_empty_iff [OF D(8) [OF D(3)]] by (simp add: rwq_contents_def)
    moreover have "rwq_try_dequeue q = Some (None, ?q1)"
      using single D(4,5) by (simp add: rwq_try_dequeue_def Let_def)
    ultimately show ?thesis using R by auto
  next
    case advance
    have n1: "1 < length rs" using D(2) advance(3) by simp
    have nb: "next_block ?b = rs ! 1" using D(6) [OF D(3)] n1 by simp
    have dj: "rs ! 1 \<noteq> rs ! 0" "rs ! k \<noteq> rs ! 0" using D(1,2,3) n1 advance(3) by (simp_all add: nth_eq_iff_index_eq)
    have ne1: "front (blocks q (rs ! 1)) \<noteq> tail (blocks q (rs ! 1))" using D(9) [OF _ n1] advance(3) by simp
    let ?q2 = "upd_block (rs ! 0) (\<lambda>b. b\<lparr>localTail := tail b\<rparr>) ?q1"
    let ?q3 = "upd_block (rs ! 1) (\<lambda>b. b\<lparr>localTail := tail b\<rparr>) ?q2"
    note R2 = refresh_tail_shape [OF R(1) D(3)]
    note R3 = refresh_tail_shape [OF R2(1) n1]
    have em: "front (blocks ?q3 (rs ! 0)) = tail (blocks ?q3 (rs ! 0))" using advance dj by simp
    note S = shape_rotate [OF R3(1) advance(3) em]
    let ?q4 = "?q3\<lparr>frontBlock := rs ! 1\<rparr>"
    have r0: "rotate1 rs ! 0 = rs ! 1" using n1 nth_rotate1 [OF D(3)] by simp
    have ne: "front (blocks ?q4 (rotate1 rs ! 0)) \<noteq> localTail (blocks ?q4 (rotate1 rs ! 0))"
      using ne1 dj r0 by simp
    have same: "rwq_contents ?q4 (rotate1 rs) (k - 1) = rwq_contents q rs k"
      using S(2) R(2) R2(2) R3(2) by simp
    obtain q' where q': "take_front (rs ! 1) (front (blocks q (rs ! 1))) ?q4 = (hd (rwq_contents q rs k), q')"
      "rwq_shape q' (rotate1 rs) (k - 1)" "rwq_contents q' (rotate1 rs) (k - 1) = tl (rwq_contents q rs k)"
      "rwq_contents q rs k \<noteq> []"
      using take_front_shape [OF S(1) ne] r0 dj unfolding same by auto
    have "rwq_try_dequeue q = Some (Some (hd (rwq_contents q rs k)), q')"
      using advance(1,2) D(4,5) q'(1) ne1 nb dj by (simp add: rwq_try_dequeue_def Let_def)
    then show ?thesis using q' by auto
  qed
qed

lemma try_dequeue_rep:
  assumes "rwq_rep q xs"
  shows "\<exists>q'. rwq_try_dequeue q = Some (if xs = [] then None else Some (hd xs), q') \<and> rwq_rep q' (tl xs)"
proof -
  obtain rs k where "rwq_shape q rs k" "xs = rwq_contents q rs k" using assms by (auto simp: rwq_rep_def)
  from try_dequeue_shape [OF this(1)] this(2) show ?thesis unfolding rwq_rep_def by metis
qed

lemma pop_as_dequeue: "rwq_pop q = map_option (map_prod (\<lambda>r. r \<noteq> None) id) (rwq_try_dequeue q)"
  by (simp add: rwq_pop_def rwq_try_dequeue_def Let_def take_front_def drop_front_def)

lemma peek_as_dequeue: "map_option fst (rwq_peek q) = map_option fst (rwq_try_dequeue q)"
  by (simp add: rwq_peek_def rwq_try_dequeue_def Let_def take_front_def)

lemma peek_state:
  assumes "rwq_peek q = Some (r, q')"
  shows "q' = q \<or> q' = upd_block (frontBlock q) (\<lambda>b. b\<lparr>localTail := tail b\<rparr>) q"
  using assms by (auto simp: rwq_peek_def Let_def upd_block_def split: if_splits)

lemma peek_rep:
  assumes "rwq_rep q xs"
  shows "\<exists>q'. rwq_peek q = Some (if xs = [] then None else Some (hd xs), q') \<and> rwq_rep q' xs"
proof -
  obtain rs k where sh: "rwq_shape q rs k" "xs = rwq_contents q rs k" using assms by (auto simp: rwq_rep_def)
  obtain q' where q': "rwq_peek q = Some (if xs = [] then None else Some (hd xs), q')"
    using try_dequeue_rep [OF assms] peek_as_dequeue [of q] by (cases "rwq_peek q") auto
  note R = refresh_tail_shape [OF sh(1) shapeD(3) [OF sh(1)]]
  from peek_state [OF q'] have "rwq_shape q' rs k \<and> rwq_contents q' rs k = xs"
    using R sh unfolding shapeD(4) [OF sh(1)] by (elim disjE) simp_all
  with q' show ?thesis unfolding rwq_rep_def by blast
qed

section \<open>The producer\<close>

lemma refresh_front_shape:
  assumes sh: "rwq_shape q rs k" and j: "j < length rs"
  shows "rwq_shape (upd_block (rs ! j) (\<lambda>b. b\<lparr>localFront := front b\<rparr>) q) rs k"
    "rwq_contents (upd_block (rs ! j) (\<lambda>b. b\<lparr>localFront := front b\<rparr>) q) rs k = rwq_contents q rs k"
proof -
  note D = shapeD [OF sh]
  note R = block_refresh_front [OF D(8) [OF j]]
  show "rwq_shape (upd_block (rs ! j) (\<lambda>b. b\<lparr>localFront := front b\<rparr>) q) rs k"
    unfolding upd_block_def by (rule shape_upd [OF sh j R(1)]) (use D(9) [OF _ j] in auto)
  show "rwq_contents (upd_block (rs ! j) (\<lambda>b. b\<lparr>localFront := front b\<rparr>) q) rs k = rwq_contents q rs k"
    unfolding upd_block_def by (rule contents_upd_same [OF R(2)])
qed

abbreviation put_in :: "c_size \<Rightarrow> c_size \<Rightarrow> 'a \<Rightarrow> 'a block \<Rightarrow> 'a block" where
  "put_in nt t x b \<equiv> b\<lparr>tail := nt, data := (data b)(t := x)\<rparr>"

lemma put_shape:
  fixes q :: "'a rwq" and x :: 'a
  assumes sh: "rwq_shape q rs k"
    and ne: "(tail (blocks q (rs ! k)) + 1) AND sizeMask (blocks q (rs ! k)) \<noteq> localFront (blocks q (rs ! k))"
  defines "q' \<equiv> upd_block (rs ! k)
      (\<lambda>b. put_in ((tail (blocks q (rs ! k)) + 1) AND sizeMask (blocks q (rs ! k))) (tail (blocks q (rs ! k))) x b) q"
  shows "rwq_shape q' rs k" "rwq_contents q' rs k = rwq_contents q rs k @ [x]"
proof -
  note D = shapeD [OF sh]
  note P = block_push [OF D(8) [OF D(2)] ne, of x]
  have q': "q' = q\<lparr>blocks := (blocks q)(rs ! k := put_in ((tail (blocks q (rs ! k)) + 1) AND
      sizeMask (blocks q (rs ! k))) (tail (blocks q (rs ! k))) x (blocks q (rs ! k)))\<rparr>"
    by (simp add: q'_def upd_block_def)
  show "rwq_shape q' rs k" unfolding q'
    by (rule shape_upd [OF sh D(2) P(1)]) (use contents_empty_iff [OF P(1)] P(2) in simp_all)
  show "rwq_contents q' rs k = rwq_contents q rs k @ [x]"
    unfolding q' contents_upd(2) [OF sh] P(2) contents_tail [of q] by simp
qed

text \<open>The producer moves on to the empty block after the tail block.\<close>

lemma shape_advance:
  assumes sh: "rwq_shape q rs k" and k: "Suc k < length rs"
    and ok: "block_ok b'" and nx: "next_block b' = next_block (blocks q (rs ! Suc k))" and ne: "front b' \<noteq> tail b'"
  defines "q' \<equiv> q\<lparr>blocks := (blocks q)(rs ! Suc k := b'), tailBlock := rs ! Suc k\<rparr>"
  shows "rwq_shape q' rs (Suc k)" "rwq_contents q' rs (Suc k) = rwq_contents q rs k @ block_contents b'"
proof -
  note D = shapeD [OF sh]
  have eq: "i < length rs \<Longrightarrow> rs ! i = rs ! Suc k \<longleftrightarrow> i = Suc k" for i
    using D(1) k by (simp add: nth_eq_iff_index_eq)
  show "rwq_shape q' rs (Suc k)"
    unfolding rwq_shape_def q'_def using D ok nx ne eq k by (auto simp: nx)
  have m: "map (\<lambda>i. block_contents (blocks q' (rs ! i))) [0..<Suc k] = map (\<lambda>i. block_contents (blocks q (rs ! i))) [0..<Suc k]"
    using eq k by (auto simp: q'_def)
  have n: "blocks q' (rs ! Suc k) = b'" by (simp add: q'_def)
  show "rwq_contents q' rs (Suc k) = rwq_contents q rs k @ block_contents b'"
    unfolding contents_tail [of q' rs "Suc k"] rwq_contents_def [of q] m n ..
qed

text \<open>A new block goes in after the tail block when the circle is full.\<close>

lemma shape_extend:
  assumes sh: "rwq_shape q rs k" and k: "Suc k = length rs"
    and ok: "block_ok b'" and nx: "next_block b' = rs ! 0" and ne: "front b' \<noteq> tail b'" and sz: "block_size_ok n"
  defines "q' \<equiv> q\<lparr>blocks := ((blocks q)(fresh q := b'))(rs ! k := (blocks q (rs ! k))\<lparr>next_block := fresh q\<rparr>),
      tailBlock := fresh q, largestBlockSize := n, fresh := Suc (fresh q)\<rparr>"
  shows "rwq_shape q' (rs @ [fresh q]) (Suc k)"
    "rwq_contents q' (rs @ [fresh q]) (Suc k) = rwq_contents q rs k @ block_contents b'"
proof -
  note D = shapeD [OF sh]
  have fr: "rs ! i \<noteq> fresh q" if "i < length rs" for i using D(7) [OF that] by simp
  have eq: "i < length rs \<Longrightarrow> rs ! i = rs ! k \<longleftrightarrow> i = k" for i
    using D(1,2) by (simp add: nth_eq_iff_index_eq)
  have old: "blocks q' ((rs @ [fresh q]) ! i) =
      (if i = k then (blocks q (rs ! k))\<lparr>next_block := fresh q\<rparr> else blocks q (rs ! i))" if "i < length rs" for i
    using that eq fr by (simp add: q'_def nth_append)
  have new: "blocks q' ((rs @ [fresh q]) ! length rs) = b'" using fr [OF D(2)] by (simp add: q'_def)
  show "rwq_shape q' (rs @ [fresh q]) (Suc k)"
    unfolding rwq_shape_def
  proof (intro conjI allI impI)
    fix i assume il: "i < length (rs @ [fresh q])"
    then consider "i < k" | "i = k" | "i = length rs" using k by force
    note c = this
    show "next_block (blocks q' ((rs @ [fresh q]) ! i)) = (rs @ [fresh q]) ! (Suc i mod length (rs @ [fresh q]))"
      using c
    proof cases
      case 1
      then have "Suc i < length rs" using k by simp
      then show ?thesis using old [of i] D(6) [of i] 1 by (simp add: nth_append)
    next
      case 2
      then show ?thesis using old [of k] k by (simp add: nth_append)
    next
      case 3
      then show ?thesis using new nx D(3) by (simp add: nth_append)
    qed
    show "(rs @ [fresh q]) ! i < fresh q'" using c k D(7) [of i] by cases (auto simp: q'_def nth_append less_Suc_eq)
    show "block_ok (blocks q' ((rs @ [fresh q]) ! i))"
      using c k old [of i] new ok D(8) [of i] by cases (auto simp: block_upd_next)
    assume i0: "0 < i"
    have "front (blocks q' ((rs @ [fresh q]) ! i)) \<noteq> tail (blocks q' ((rs @ [fresh q]) ! i))"
    proof (cases "i < length rs")
      case True
      then show ?thesis using D(9) [OF i0 True] k unfolding old [OF True] by (cases "i = k") simp_all
    next
      case False
      then have "i = length rs" using il by simp
      then show ?thesis using new ne by simp
    qed
    moreover have "\<not> Suc k < i" using c k by cases simp_all
    ultimately show "(front (blocks q' ((rs @ [fresh q]) ! i)) = tail (blocks q' ((rs @ [fresh q]) ! i))) = (Suc k < i)"
      by simp
  next
    show "distinct (rs @ [fresh q])" using D(1) fr by (auto simp: in_set_conv_nth)
    show "Suc k < length (rs @ [fresh q])" using k by simp
    show "frontBlock q' = (rs @ [fresh q]) ! 0" using D(3,4) by (simp add: q'_def nth_append)
    show "tailBlock q' = (rs @ [fresh q]) ! Suc k" using k by (simp add: q'_def nth_append)
    show "block_size_ok (largestBlockSize q')" using sz by (simp add: q'_def)
  qed
  have m: "map (\<lambda>i. block_contents (blocks q' ((rs @ [fresh q]) ! i))) [0..<Suc k] =
      map (\<lambda>i. block_contents (blocks q (rs ! i))) [0..<Suc k]"
    using old k by (auto simp: block_upd_next)
  have n: "blocks q' ((rs @ [fresh q]) ! Suc k) = b'" using new k by simp
  show "rwq_contents q' (rs @ [fresh q]) (Suc k) = rwq_contents q rs k @ block_contents b'"
    unfolding contents_tail [of q' _ "Suc k"] rwq_contents_def [of q] m n ..
qed

lemma grown_size:
  assumes "block_size_ok n"
  shows "block_size_ok (if n \<ge> MAX_BLOCK_SIZE then n else n * 2)"
proof (cases "n \<ge> MAX_BLOCK_SIZE")
  case False
  obtain j where j: "0 < j" "j \<le> 10" "unat n = 2 ^ j" using assms by (auto simp: block_size_ok_def)
  have "unat n < 512" using False by (simp add: MAX_BLOCK_SIZE_def word_le_nat_alt)
  then have "(2 :: nat) ^ j < 2 ^ 9" using j by simp
  then have "j < 9" by (rule power_less_imp_less_exp [rotated]) simp
  moreover have "unat (n * 2) = 2 ^ Suc j" using j(3) \<open>unat n < 512\<close> by (simp add: unat_word_ariths)
  ultimately show ?thesis using False by (auto simp: block_size_ok_def intro: exI [of _ "Suc j"])
qed (use assms in simp)

lemma fresh_block:
  fixes d :: "c_size \<Rightarrow> 'a" and x :: 'a and nx :: nat
  assumes "block_size_ok n"
  defines "b \<equiv> \<lparr>front = 0, localTail = 1, tail = 1, localFront = 0, next_block = nx,
      data = d(0 := x), sizeMask = n - 1\<rparr>"
  shows "block_ok b" "block_contents b = [x]" "front b \<noteq> tail b" "next_block b = nx"
proof -
  obtain j where j: "0 < j" "unat n = 2 ^ j" using assms(1) by (auto simp: block_size_ok_def)
  have "n \<noteq> 0" using j by (metis unat_0 power_not_zero zero_neq_numeral)
  then have sz: "bsz b = 2 ^ j" using j by (simp add: bsz_def b_def unat_minus_one)
  then have "2 \<le> bsz b" using power_increasing [of 1 j "2 :: nat"] j by simp
  then have d1: "ring_dist (bsz b) 0 1 = 1" by (simp add: ring_dist_cases)
  show "block_ok b" using j sz d1 \<open>2 \<le> bsz b\<close> by (auto simp: block_ok_def b_def)
  show "block_contents b = [x]" using d1 by (simp add: block_contents_def) (simp add: b_def)
qed (simp_all add: b_def)

text \<open>
  The producer's outcomes: with room in the ring or with memory the element goes to the end of
  the list, otherwise the list is unchanged.
\<close>

lemma inner_enqueue_shape:
  assumes sh: "rwq_shape q rs k"
  shows "\<exists>ok q' rs' k'. rwq_inner_enqueue m mem x q = Some (ok, q') \<and> rwq_shape q' rs' k' \<and>
    rwq_contents q' rs' k' = rwq_contents q rs k @ (if ok then [x] else []) \<and>
    (m = CanAlloc \<and> mem \<noteq> None \<longrightarrow> ok)"
proof -
  note D = shapeD [OF sh]
  let ?b = "blocks q (rs ! k)"
  let ?nt = "(tail ?b + 1) AND sizeMask ?b"
  let ?q1 = "upd_block (rs ! k) (\<lambda>b. b\<lparr>localFront := front b\<rparr>) q"
  note R = refresh_front_shape [OF sh D(2)]
  consider (shadow) "?nt \<noteq> localFront ?b" | (room) "?nt = localFront ?b" "?nt \<noteq> front ?b"
    | (advance) "?nt = localFront ?b" "?nt = front ?b" "Suc k < length rs"
    | (full) "?nt = localFront ?b" "?nt = front ?b" "Suc k = length rs" using D(2) by linarith
  then show ?thesis
  proof cases
    case shadow
    note P = put_shape [OF sh shadow, of x]
    have "rwq_inner_enqueue m mem x q = Some (True, upd_block (rs ! k) (put_in ?nt (tail ?b) x) q)"
      using shadow D(5) by (simp add: rwq_inner_enqueue_def Let_def)
    then show ?thesis using P by auto
  next
    case room
    have t: "tail (blocks ?q1 (rs ! k)) = tail ?b" "sizeMask (blocks ?q1 (rs ! k)) = sizeMask ?b"
      "localFront (blocks ?q1 (rs ! k)) = front ?b" by simp_all
    have ne: "(tail (blocks ?q1 (rs ! k)) + 1) AND sizeMask (blocks ?q1 (rs ! k)) \<noteq> localFront (blocks ?q1 (rs ! k))"
      unfolding t using room by simp
    note P = put_shape [OF R(1) ne, of x, unfolded t]
    have "rwq_inner_enqueue m mem x q = Some (True, upd_block (rs ! k) (put_in ?nt (tail ?b) x) ?q1)"
      using room D(5) by (simp add: rwq_inner_enqueue_def Let_def)
    then show ?thesis using P R(2) by auto
  next
    case advance
    let ?nb = "rs ! Suc k"
    let ?q2 = "upd_block ?nb (\<lambda>b. b\<lparr>localFront := front b\<rparr>) ?q1"
    note R2 = refresh_front_shape [OF R(1) advance(3)]
    note D2 = shapeD [OF R2(1)]
    let ?c = "blocks ?q2 ?nb"
    have nb: "next_block ?b = ?nb" using D(6) [OF D(2)] advance(3) by simp
    have dj: "?nb \<noteq> rs ! k" "?nb \<noteq> rs ! 0" using D(1,2,3) advance(3) by (simp_all add: nth_eq_iff_index_eq)
    have em: "front ?c = tail ?c" using D2(9) [OF _ advance(3)] by simp
    have okc: "block_ok ?c" using D2(8) [OF advance(3)] .
    have lf: "localFront ?c = front ?c" using dj by simp
    have ne: "(tail ?c + 1) AND sizeMask ?c \<noteq> localFront ?c"
    proof
      assume "(tail ?c + 1) AND sizeMask ?c = localFront ?c"
      then have "Suc (unat (tail ?c)) mod bsz ?c = unat (tail ?c)"
        using next_index [OF okc, of "tail ?c"] lf em by simp
      then show False using ring_succ_neq [OF block_okD(2) [OF okc] block_okD(9) [OF okc]] by contradiction
    qed
    let ?c' = "put_in ((tail ?c + 1) AND sizeMask ?c) (tail ?c) x ?c"
    note P = block_push [OF okc ne, of x]
    have ne': "front ?c' \<noteq> tail ?c'" using contents_empty_iff [OF P(1)] P(2) by simp
    have ec: "block_contents ?c = []" using contents_empty_iff [OF okc] em by simp
    have nx': "next_block ?c' = next_block ?c" by simp
    note S = shape_advance [OF R2(1) advance(3) P(1) nx' ne']
    let ?q' = "?q2\<lparr>blocks := (blocks ?q2)(?nb := ?c'), tailBlock := ?nb\<rparr>"
    have c: "rwq_contents ?q' rs (Suc k) = rwq_contents q rs k @ [x]" unfolding S(2) P(2) ec R2(2) R(2) by simp
    have "rwq_inner_enqueue m mem x q =
        Some (True, ?q2\<lparr>blocks := (blocks ?q2)(?nb := ?c'), tailBlock := ?nb\<rparr>)"
      using advance D(4,5) nb dj em unfolding rwq_inner_enqueue_def Let_def by simp (simp add: upd_block_def)
    with S(1) c show ?thesis
      by (intro exI [of _ True] exI [of _ ?q'] exI [of _ rs] exI [of _ "Suc k"]) (simp only: if_True simp_thms)
  next
    case full
    let ?n = "if largestBlockSize q \<ge> MAX_BLOCK_SIZE then largestBlockSize q else largestBlockSize q * 2"
    have nb: "next_block ?b = rs ! 0" using D(6) [OF D(2)] full(3) by simp
    show ?thesis
    proof (cases "m = CanAlloc \<and> mem \<noteq> None")
      case False
      then have "rwq_inner_enqueue m mem x q = Some (False, ?q1)"
        using full nb D(4,5) by (cases m; cases mem) (auto simp: rwq_inner_enqueue_def Let_def make_block_def)
      then show ?thesis using R False by auto
    next
      case True
      then obtain raw where raw: "mem = Some raw" by auto
      have sz: "block_size_ok ?n" by (rule grown_size [OF D(10)])
      let ?new = "\<lparr>front = 0, localTail = 1, tail = 1, localFront = 0, next_block = rs ! 0,
        data = raw(0 := x), sizeMask = ?n - 1\<rparr>"
      note F = fresh_block [OF sz, of "rs ! 0" raw x]
      let ?q' = "?q1\<lparr>blocks := ((blocks ?q1)(fresh ?q1 := ?new))(rs ! k := (blocks ?q1 (rs ! k))\<lparr>next_block := fresh ?q1\<rparr>),
            tailBlock := fresh ?q1, largestBlockSize := ?n, fresh := Suc (fresh ?q1)\<rparr>"
      note S = shape_extend [OF R(1) full(3) F(1) F(4) F(3) sz]
      have c: "rwq_contents ?q' (rs @ [fresh ?q1]) (Suc k) = rwq_contents q rs k @ [x]"
        unfolding S(2) F(2) R(2) ..
      have "rwq_inner_enqueue m mem x q = Some (True, ?q')"
        using full nb D(4,5) True raw by (simp add: rwq_inner_enqueue_def Let_def make_block_def)
      with S(1) c show ?thesis
        by (intro exI [of _ True] exI [of _ ?q'] exI [of _ "rs @ [fresh ?q1]"] exI [of _ "Suc k"])
          (simp only: if_True simp_thms)
    qed
  qed
qed

lemma inner_enqueue_rep:
  assumes "rwq_rep q xs"
  shows "\<exists>ok q'. rwq_inner_enqueue m mem x q = Some (ok, q') \<and> rwq_rep q' (xs @ (if ok then [x] else [])) \<and>
    (m = CanAlloc \<and> mem \<noteq> None \<longrightarrow> ok)"
proof -
  obtain rs k where "rwq_shape q rs k" "xs = rwq_contents q rs k" using assms by (auto simp: rwq_rep_def)
  from inner_enqueue_shape [OF this(1), of m mem x] this(2) show ?thesis unfolding rwq_rep_def by metis
qed

end
