(* ===== verification/RWQueueSpec.thy ===== *)
theory RWQueueSpec
  imports RWQueue
begin

text \<open>
  What \<open>ReaderWriterQueue\<close> promises: its constructor makes an empty queue, its operations are
  those of a first-in first-out list, \<open>size_approx\<close> terminates and counts the elements.
\<close>

section \<open>The constructor\<close>

definition ring_made :: "'a rwq \<Rightarrow> nat \<Rightarrow> bool" where
  "ring_made q m \<longleftrightarrow> fresh q = m \<and> frontBlock q = 0 \<and> tailBlock q = 0 \<and>
     (\<forall>i<m. front (blocks q i) = 0 \<and> tail (blocks q i) = 0 \<and> localTail (blocks q i) = 0 \<and>
        localFront (blocks q i) = 0 \<and> sizeMask (blocks q i) = largestBlockSize q - 1 \<and>
        next_block (blocks q i) = (if Suc i = m then 0 else Suc i))"

lemma make_blocks_made:
  assumes "\<forall>i. mem i \<noteq> None" and "ring_made q m"
  shows "\<exists>q'. make_blocks mem n q = Some q' \<and> ring_made q' (m + n) \<and> largestBlockSize q' = largestBlockSize q"
  using assms(2)
proof (induction n arbitrary: q m)
  case (Suc n)
  obtain raw where raw: "mem (fresh q) = Some raw" using assms(1) by blast
  let ?b = "\<lparr>front = 0, localTail = 0, tail = 0, localFront = 0, next_block = 0, data = raw,
    sizeMask = largestBlockSize q - 1\<rparr>"
  let ?bs = "if fresh q = 0 then blocks q
    else (blocks q)(fresh q - 1 := (blocks q (fresh q - 1))\<lparr>next_block := fresh q\<rparr>)"
  let ?q = "q\<lparr>blocks := ?bs(fresh q := ?b), fresh := Suc (fresh q)\<rparr>"
  have step: "make_blocks mem (Suc n) q = make_blocks mem n ?q" by (simp add: make_block_def raw Let_def)
  have "ring_made ?q (Suc m)"
    using Suc.prems unfolding ring_made_def by (auto simp: less_Suc_eq)
  from Suc.IH [OF this] show ?case unfolding step by simp
qed auto

lemma ring_made_rep:
  assumes made: "ring_made q m" and m: "0 < m" and sz: "block_size_ok (largestBlockSize q)"
  shows "rwq_rep q []"
proof -
  obtain j where j: "0 < j" "unat (largestBlockSize q) = 2 ^ j" using sz by (auto simp: block_size_ok_def)
  have n0: "largestBlockSize q \<noteq> 0" using j by (metis unat_0 power_not_zero zero_neq_numeral)
  have ok: "block_ok (blocks q i)" if "i < m" for i
  proof -
    have "bsz (blocks q i) = 2 ^ j"
      using made that n0 j by (simp add: ring_made_def bsz_def unat_minus_one)
    then show ?thesis using made that j unfolding block_ok_def ring_made_def by auto
  qed
  have "rwq_shape q [0..<m] 0"
    unfolding rwq_shape_def using made m sz ok by (auto simp: ring_made_def)
  moreover have "block_contents (blocks q 0) = []"
    using contents_empty_iff [OF ok [OF m]] made m by (simp add: ring_made_def)
  then have "rwq_contents q [0..<m] 0 = []" using m by (simp add: rwq_contents_def)
  ultimately show ?thesis unfolding rwq_rep_def by metis
qed

lemma initial_size:
  assumes "0 < maxSize" "maxSize < 2 ^ 63"
  obtains j where "0 < j" "ceilToPow2 (maxSize + 1) = 2 ^ j" "unat (ceilToPow2 (maxSize + 1)) = 2 ^ j"
    "unat maxSize + 1 \<le> 2 ^ j"
proof -
  have u: "unat maxSize < 2 ^ 63" using assms(2) by (simp add: word_less_nat_alt)
  then have s: "unat (maxSize + 1) = unat maxSize + 1" by (simp add: unat_word_ariths)
  have p: "0 < unat maxSize" using assms(1) by (simp add: word_less_nat_alt)
  obtain m where m: "2 ^ m \<le> unat maxSize" "unat maxSize < 2 ^ Suc m" using highest_bit [OF p] by blast
  have "(2 :: nat) ^ m < 2 ^ 63" using m(1) u by (rule le_less_trans)
  then have "m < 63" by (rule power_less_imp_less_exp [rotated]) simp
  have c: "ceilToPow2 (maxSize + 1) = 2 ^ Suc m" by (rule ceilToPow2_value) (use m s in auto)
  moreover have "unat (2 ^ Suc m :: c_size) = 2 ^ Suc m" using \<open>m < 63\<close> by (intro unat_pow2) simp
  ultimately show thesis using that [of "Suc m"] m by simp
qed

lemma rwq_new_rep:
  assumes mem: "\<forall>i. mem i \<noteq> None" and sz: "0 < maxSize" "maxSize < 2 ^ 63"
  shows "\<exists>q. rwq_new mem maxSize = Some q \<and> rwq_rep q []"
proof -
  obtain j where j: "0 < j" "unat (ceilToPow2 (maxSize + 1)) = 2 ^ j" "unat maxSize + 1 \<le> 2 ^ j"
    using initial_size [OF sz] by blast
  let ?l = "ceilToPow2 (maxSize + 1)"
  let ?q = "\<lambda>l. \<lparr>blocks = (\<lambda>_. \<lparr>front = 0, localTail = 0, tail = 0, localFront = 0, next_block = 0,
                 data = (\<lambda>_. undefined), sizeMask = 0\<rparr>),
               frontBlock = 0, tailBlock = 0, largestBlockSize = l, fresh = 0\<rparr>"
  have made: "ring_made (?q l) 0" for l by (simp add: ring_made_def)
  show ?thesis
  proof (cases "?l > MAX_BLOCK_SIZE * 2")
    case True
    let ?n = "(maxSize + MAX_BLOCK_SIZE * 2 - 3) div (MAX_BLOCK_SIZE - 1)"
    have u: "unat maxSize < 2 ^ 63" using sz(2) by (simp add: word_less_nat_alt)
    have "unat (1021 + maxSize) = 1021 + unat maxSize" using u by (simp add: unat_word_ariths)
    then have n: "0 < unat ?n" by (simp add: MAX_BLOCK_SIZE_def unat_div div_greater_zero_iff)
    obtain q where q: "make_blocks mem (unat ?n) (?q MAX_BLOCK_SIZE) = Some q"
      "ring_made q (unat ?n)" "largestBlockSize q = MAX_BLOCK_SIZE"
      using make_blocks_made [OF mem made, of "unat ?n" MAX_BLOCK_SIZE] by auto
    have "block_size_ok MAX_BLOCK_SIZE" unfolding block_size_ok_def MAX_BLOCK_SIZE_def by (rule exI [of _ 9]) simp
    then have "rwq_rep q []" using ring_made_rep [OF q(2) n] q(3) by simp
    then show ?thesis using True q(1) by (simp add: rwq_new_def Let_def)
  next
    case False
    then have "2 ^ j \<le> (2 :: nat) ^ 10" using j(2) by (simp add: MAX_BLOCK_SIZE_def word_less_nat_alt)
    then have "j \<le> 10" by (rule power_le_imp_le_exp [rotated]) simp
    then have "block_size_ok ?l" using j by (auto simp: block_size_ok_def)
    moreover obtain q where q: "make_blocks mem 1 (?q ?l) = Some q" "ring_made q 1" "largestBlockSize q = ?l"
      using make_blocks_made [OF mem made, of 1 ?l] by auto
    ultimately have "rwq_rep q []" using ring_made_rep [OF q(2)] by simp
    then show ?thesis using False q(1) by (simp add: rwq_new_def Let_def)
  qed
qed

section \<open>The size\<close>

lemma size_loop_ring:
  assumes sh: "rwq_shape q rs k" and j: "j < length rs"
  shows "size_loop q (rs ! 0) (rs ! j) r =
    Some (r + of_nat (\<Sum>i\<leftarrow>[j..<length rs]. length (block_contents (blocks q (rs ! i)))))"
  using j
proof (induction "length rs - j" arbitrary: j r)
  case (Suc n)
  note D = shapeD [OF sh]
  let ?b = "blocks q (rs ! j)"
  have len: "(tail ?b - front ?b) AND sizeMask ?b = of_nat (length (block_contents ?b))"
    using index_diff [OF D(8) [OF Suc.prems]] by (simp add: block_contents_def eq_of_nat_unat)
  show ?case
  proof (cases "Suc j = length rs")
    case True
    then have "next_block ?b = rs ! 0" using D(6) [OF Suc.prems] by simp
    moreover have "[j..<length rs] = [j]" using True by (simp flip: True)
    ultimately show ?thesis using len by (subst size_loop.simps) (simp add: Let_def)
  next
    case False
    then have sj: "Suc j < length rs" using Suc.prems by simp
    then have nx: "next_block ?b = rs ! Suc j" "rs ! Suc j \<noteq> rs ! 0"
      using D(6) [OF Suc.prems] D(1,3) by (simp_all add: nth_eq_iff_index_eq)
    have "n = length rs - Suc j" using Suc.hyps(2) by simp
    note IH = Suc.hyps(1) [OF this sj]
    show ?thesis using len nx Suc.prems
      by (subst size_loop.simps) (simp add: Let_def IH upt_conv_Cons add.assoc)
  qed
qed simp

lemma contents_length:
  assumes sh: "rwq_shape q rs k"
  shows "length (rwq_contents q rs k) = (\<Sum>i\<leftarrow>[0..<length rs]. length (block_contents (blocks q (rs ! i))))"
proof -
  note D = shapeD [OF sh]
  have "[0..<length rs] = [0..<Suc k] @ [Suc k..<length rs]" using D(2) by (metis Suc_leI le0 upt_add_eq_append le_Suc_ex)
  moreover have "(\<Sum>i\<leftarrow>[Suc k..<length rs]. length (block_contents (blocks q (rs ! i)))) = 0"
  proof -
    have "block_contents (blocks q (rs ! i)) = []" if "Suc k \<le> i" "i < length rs" for i
      using D(9) [of i] contents_empty_iff [OF D(8) [OF that(2)]] that by simp
    then show ?thesis by (auto simp: sum_list_eq_0_iff)
  qed
  ultimately show ?thesis by (simp add: rwq_contents_def length_concat comp_def del: upt_Suc)
qed

lemma size_approx_rep:
  assumes "rwq_rep q xs"
  shows "rwq_size_approx q = Some (of_nat (length xs))"
proof -
  obtain rs k where sh: "rwq_shape q rs k" "xs = rwq_contents q rs k" using assms by (auto simp: rwq_rep_def)
  show ?thesis
    using size_loop_ring [OF sh(1) shapeD(3) [OF sh(1)], of 0] contents_length [OF sh(1)] sh(2) shapeD(4) [OF sh(1)]
    by (simp add: rwq_size_approx_def)
qed

section \<open>The specification: a list\<close>

text \<open>
  The public operations, their results, and what a first-in first-out list allows: the list
  after an operation with the given result, or \<open>None\<close> when that result is wrong.  An enqueue
  that may allocate and gets memory must succeed; a failed enqueue changes nothing.
\<close>

datatype 'a rwq_call =
    R_enqueue 'a "(c_size \<Rightarrow> 'a) option" | R_try_enqueue 'a | R_try_dequeue | R_peek | R_pop | R_size

datatype 'a rwq_result = R_bool bool | R_elem "'a option" | R_num c_size

fun rwq_do :: "'a rwq_call \<Rightarrow> 'a rwq \<Rightarrow> ('a rwq_result \<times> 'a rwq) option" where
  "rwq_do (R_enqueue x mem) q = map_option (map_prod R_bool id) (rwq_enqueue mem x q)"
| "rwq_do (R_try_enqueue x) q = map_option (map_prod R_bool id) (rwq_try_enqueue x q)"
| "rwq_do R_try_dequeue q = map_option (map_prod R_elem id) (rwq_try_dequeue q)"
| "rwq_do R_peek q = map_option (map_prod R_elem id) (rwq_peek q)"
| "rwq_do R_pop q = map_option (map_prod R_bool id) (rwq_pop q)"
| "rwq_do R_size q = map_option (\<lambda>n. (R_num n, q)) (rwq_size_approx q)"

fun head_opt :: "'a list \<Rightarrow> 'a option" where
  "head_opt [] = None"
| "head_opt (x # xs) = Some x"

fun fifo_spec :: "'a rwq_call \<Rightarrow> 'a rwq_result \<Rightarrow> 'a list \<Rightarrow> 'a list option" where
  "fifo_spec (R_enqueue x mem) (R_bool ok) xs =
     (if ok then Some (xs @ [x]) else if mem = None then Some xs else None)"
| "fifo_spec (R_try_enqueue x) (R_bool ok) xs = Some (if ok then xs @ [x] else xs)"
| "fifo_spec R_try_dequeue (R_elem r) xs = (if r = head_opt xs then Some (tl xs) else None)"
| "fifo_spec R_peek (R_elem r) xs = (if r = head_opt xs then Some xs else None)"
| "fifo_spec R_pop (R_bool ok) xs = (if ok = (xs \<noteq> []) then Some (tl xs) else None)"
| "fifo_spec R_size (R_num n) xs = (if n = of_nat (length xs) then Some xs else None)"
| "fifo_spec _ _ xs = None"

text \<open>A sequence of operations: the results, or \<open>None\<close> if an assertion fails; and its specification.\<close>

fun rwq_calls :: "'a rwq_call list \<Rightarrow> 'a rwq \<Rightarrow> 'a rwq_result list option" where
  "rwq_calls [] q = Some []"
| "rwq_calls (c # cs) q = (case rwq_do c q of
     None \<Rightarrow> None | Some (r, q') \<Rightarrow> map_option (Cons r) (rwq_calls cs q'))"

fun fifo_allows :: "'a rwq_call list \<Rightarrow> 'a rwq_result list \<Rightarrow> 'a list \<Rightarrow> bool" where
  "fifo_allows [] [] xs = True"
| "fifo_allows (c # cs) (r # rs) xs = (case fifo_spec c r xs of None \<Rightarrow> False | Some xs' \<Rightarrow> fifo_allows cs rs xs')"
| "fifo_allows _ _ xs = False"

lemma head_opt_alt: "head_opt xs = (if xs = [] then None else Some (hd xs))"
  by (cases xs) simp_all

lemma rwq_do_refines:
  assumes "rwq_rep q xs"
  shows "\<exists>r q' xs'. rwq_do c q = Some (r, q') \<and> fifo_spec c r xs = Some xs' \<and> rwq_rep q' xs'"
proof (cases c)
  case (R_enqueue x mem)
  obtain ok q' where "rwq_inner_enqueue CanAlloc mem x q = Some (ok, q')"
    "rwq_rep q' (xs @ (if ok then [x] else []))" "mem \<noteq> None \<longrightarrow> ok"
    using inner_enqueue_rep [OF assms, of CanAlloc mem x] by auto
  then show ?thesis using R_enqueue by (auto simp: rwq_enqueue_def split: if_splits)
next
  case (R_try_enqueue x)
  obtain ok q' where "rwq_inner_enqueue CannotAlloc None x q = Some (ok, q')"
    "rwq_rep q' (xs @ (if ok then [x] else []))"
    using inner_enqueue_rep [OF assms, of CannotAlloc None x] by auto
  then show ?thesis using R_try_enqueue by (auto simp: rwq_try_enqueue_def split: if_splits)
next
  case R_try_dequeue
  then show ?thesis using try_dequeue_rep [OF assms] by (auto simp: head_opt_alt)
next
  case R_peek
  then show ?thesis using peek_rep [OF assms] by (auto simp: head_opt_alt)
next
  case R_pop
  then show ?thesis using try_dequeue_rep [OF assms] by (auto simp: pop_as_dequeue)
next
  case R_size
  then show ?thesis using size_approx_rep [OF assms] assms by simp
qed

lemma rwq_calls_refine:
  assumes "rwq_rep q xs"
  shows "\<exists>rs. rwq_calls cs q = Some rs \<and> fifo_allows cs rs xs"
  using assms
proof (induction cs arbitrary: q xs)
  case (Cons c cs)
  obtain r q' xs' where "rwq_do c q = Some (r, q')" "fifo_spec c r xs = Some xs'" "rwq_rep q' xs'"
    using rwq_do_refines [OF Cons.prems] by blast
  then show ?case using Cons.IH [of q' xs'] by auto
qed simp

text \<open>The state after a sequence of operations.\<close>

fun rwq_after :: "'a rwq_call list \<Rightarrow> 'a rwq \<Rightarrow> 'a rwq option" where
  "rwq_after [] q = Some q"
| "rwq_after (c # cs) q = (case rwq_do c q of None \<Rightarrow> None | Some (r, q') \<Rightarrow> rwq_after cs q')"

lemma rwq_after_rep:
  assumes "rwq_rep q xs"
  shows "\<exists>q' xs'. rwq_after cs q = Some q' \<and> rwq_rep q' xs'"
  using assms
proof (induction cs arbitrary: q xs)
  case (Cons c cs)
  obtain r q' xs' where "rwq_do c q = Some (r, q')" "rwq_rep q' xs'" using rwq_do_refines [OF Cons.prems] by blast
  then show ?case using Cons.IH [of q' xs'] by auto
qed auto

section \<open>Properties\<close>

text \<open>
  C7. \<open>ReaderWriterQueue\<close> refines a first-in first-out list: for every sequence of operations on
  a new queue of any requested size no assertion fails, every result is one the list allows,
  and an enqueue that may allocate fails only when \<open>malloc\<close> does.
\<close>

theorem rwq_refines_list:
  assumes "\<forall>i. mem i \<noteq> None" and "0 < maxSize" and "maxSize < 2 ^ 63"
  shows "\<exists>q rs. rwq_new mem maxSize = Some q \<and> rwq_calls cs q = Some rs \<and> fifo_allows cs rs []"
proof -
  obtain q where "rwq_new mem maxSize = Some q" "rwq_rep q []" using rwq_new_rep [OF assms] by blast
  then show ?thesis using rwq_calls_refine [of q "[]" cs] by blast
qed

theorem rwq_refines_list_witness:
  "\<exists>q rs. rwq_new (\<lambda>_. Some (\<lambda>_. 0 :: int)) 1 = Some q \<and>
     rwq_calls [R_enqueue 5 None, R_try_enqueue 6, R_enqueue 6 (Some (\<lambda>_. 0)), R_peek, R_try_dequeue, R_pop, R_size] q = Some rs \<and>
     fifo_allows [R_enqueue 5 None, R_try_enqueue 6, R_enqueue 6 (Some (\<lambda>_. 0)), R_peek, R_try_dequeue, R_pop, R_size] rs []"
  using rwq_refines_list [of "\<lambda>_. Some (\<lambda>_. 0 :: int)" 1
    "[R_enqueue 5 None, R_try_enqueue 6, R_enqueue 6 (Some (\<lambda>_. 0)), R_peek, R_try_dequeue, R_pop, R_size]"]
  by simp

text \<open>
  C1. The types of the ring are never broken.  Every sequence of operations on a new queue runs
  to its end, and in the state it leaves the blocks form one circle of allocated, distinct
  blocks with the front block first and the tail block on it, every block has a power of two of
  slots, every index and every shadow copy of one is a slot of its block and not ahead of what it
  copies, the blocks outside the front and tail are empty, and the next block to be allocated
  has a legal size.
\<close>

theorem rwq_well_formed:
  assumes "\<forall>i. mem i \<noteq> None" and "0 < maxSize" and "maxSize < 2 ^ 63"
  shows "\<exists>q q' rs k. rwq_new mem maxSize = Some q \<and> rwq_after cs q = Some q' \<and> rwq_shape q' rs k"
proof -
  obtain q where "rwq_new mem maxSize = Some q" "rwq_rep q []" using rwq_new_rep [OF assms] by blast
  then show ?thesis using rwq_after_rep [of q "[]" cs] unfolding rwq_rep_def by blast
qed

theorem rwq_well_formed_witness:
  "\<exists>q q' rs k. rwq_new (\<lambda>_. Some (\<lambda>_. 0 :: int)) 2 = Some q \<and>
     rwq_after [R_enqueue 5 None, R_enqueue 6 (Some (\<lambda>_. 0)), R_pop, R_try_enqueue 7] q = Some q' \<and> rwq_shape q' rs k"
  using rwq_well_formed [of "\<lambda>_. Some (\<lambda>_. 0 :: int)" 2 "[R_enqueue 5 None, R_enqueue 6 (Some (\<lambda>_. 0)), R_pop, R_try_enqueue 7]"]
  by simp

text \<open>
  C33. \<open>pop\<close> and \<open>peek\<close> agree with \<open>try_dequeue\<close> in every state, reachable or not: \<open>pop\<close> leaves
  the state \<open>try_dequeue\<close> leaves and reports whether that had an element, and \<open>peek\<close> shows the
  element it would return.
\<close>

theorem rwq_consumers_agree:
  "rwq_pop q = map_option (map_prod (\<lambda>r. r \<noteq> None) id) (rwq_try_dequeue q) \<and>
   map_option fst (rwq_peek q) = map_option fst (rwq_try_dequeue q)"
  using pop_as_dequeue peek_as_dequeue by blast

text \<open>
  C32. The loop of \<open>size_approx\<close> ends, and with no operation under way its result is the exact
  number of elements, whatever the ring of blocks.
\<close>

theorem rwq_size_exact:
  assumes "rwq_rep q xs"
  shows "rwq_size_approx q = Some (of_nat (length xs))"
  using assms by (rule size_approx_rep)

theorem rwq_size_exact_witness:
  "\<exists>q. rwq_new (\<lambda>_. Some (\<lambda>_. 0 :: int)) 3 = Some q \<and> rwq_rep q [] \<and> rwq_size_approx q = Some (of_nat (length ([] :: int list)))"
proof -
  obtain q where "rwq_new (\<lambda>_. Some (\<lambda>_. 0 :: int)) 3 = Some q" "rwq_rep q []"
    using rwq_new_rep [of "\<lambda>_. Some (\<lambda>_. 0 :: int)" 3] by auto
  then show ?thesis using rwq_size_exact [of q "[]"] by blast
qed

end
