(* ===== verification/LightSema.thy ===== *)
theory LightSema
  imports HPrelude
begin

text \<open>
  \<open>LightweightSemaphore\<close> of \<open>inc/blockingconcurrentqueue.h\<close>: a count that is changed with atomic
  operations, and a kernel semaphore for the threads that find no unit.  A negative count is the
  number of threads that sleep or are about to.  Each operation is a step function; a step is
  one access to the count or to the kernel semaphore.

  The count is a value of type \<^typ>\<open>int\<close>: a unit is an element of a queue in memory and a
  negative unit a thread, so the 64 bits of \<open>ssize_t\<close> do not overflow.
\<close>

section \<open>Operations\<close>

datatype ('pc, 'r) outcome = Goto 'pc | Done 'r

text \<open>
  \<open>tryWait\<close>: the compare-and-swap is the weak one, which may fail for no reason (\<open>spurious\<close>)
  and then loads the count anew.  The result is the number of units taken.
\<close>

datatype try_pc = TW_load | TW_cas int

fun tryWait_step :: "bool \<Rightarrow> try_pc \<Rightarrow> int \<Rightarrow> (try_pc, int) outcome \<times> int" where
  "tryWait_step spurious TW_load c = (if c > 0 then Goto (TW_cas c) else Done 0, c)"
| "tryWait_step spurious (TW_cas old) c =
     (if c = old \<and> \<not> spurious then (Done 1, old - 1)
      else (if c > 0 then Goto (TW_cas c) else Done 0, c))"

fun tryWaitMany_step :: "bool \<Rightarrow> int \<Rightarrow> try_pc \<Rightarrow> int \<Rightarrow> (try_pc, int) outcome \<times> int" where
  "tryWaitMany_step spurious mx TW_load c = (if c > 0 then Goto (TW_cas c) else Done 0, c)"
| "tryWaitMany_step spurious mx (TW_cas old) c =
     (let newCount = (if old > mx then old - mx else 0) in
      if c = old \<and> \<not> spurious then (Done (old - newCount), newCount)
      else (if c > 0 then Goto (TW_cas c) else Done 0, c))"

text \<open>
  The kernel semaphore (\<open>Semaphore\<close>): \<open>wait\<close> repeats \<open>sem_wait\<close> while a signal interrupts it;
  \<open>signal\<close> posts once per unit.  The state is the value of the \<open>sem_t\<close>.
\<close>

definition Semaphore_wait :: "bool \<Rightarrow> nat \<Rightarrow> nat option" where
  "Semaphore_wait eintr s = (if eintr \<or> s = 0 then None else Some (s - 1))"

definition Semaphore_signal :: "nat \<Rightarrow> nat" where
  "Semaphore_signal s = s + 1"

text \<open>
  \<open>waitWithPartialSpinning\<close>: \<open>PS_load n\<close> has \<open>n\<close> iterations left.
\<close>

datatype spin_pc = PS_load nat | PS_cas nat int | PS_sub | PS_sleep

fun waitWithPartialSpinning_step :: "bool \<Rightarrow> spin_pc \<Rightarrow> int \<times> nat \<Rightarrow> (spin_pc, int) outcome \<times> int \<times> nat" where
  "waitWithPartialSpinning_step eintr (PS_load spin) (c, k) =
     (case spin of 0 \<Rightarrow> (Goto PS_sub, c, k)
      | Suc n \<Rightarrow> (Goto (if c > 0 then PS_cas n c else PS_load n), c, k))"
| "waitWithPartialSpinning_step eintr (PS_cas n old) (c, k) =
     (if c = old then (Done 1, old - 1, k) else (Goto (PS_load n), c, k))"
| "waitWithPartialSpinning_step eintr PS_sub (c, k) =
     (if c \<le> 0 then Goto PS_sleep else Done 1, c - 1, k)"
| "waitWithPartialSpinning_step eintr PS_sleep (c, k) =
     (case Semaphore_wait eintr k of None \<Rightarrow> (Goto PS_sleep, c, k) | Some k' \<Rightarrow> (Done 1, c, k'))"

text \<open>
  \<open>waitManyWithPartialSpinning\<close>: once it has one unit it takes what else there is up to \<open>mx\<close>.
\<close>

datatype spin_many_pc = PM_load nat | PM_cas nat int | PM_sub | PM_sleep | PM_more try_pc

definition after_first :: "int \<Rightarrow> (spin_many_pc, int) outcome" where
  "after_first mx = (if mx > 1 then Goto (PM_more TW_load) else Done 1)"

fun waitManyWithPartialSpinning_step ::
    "bool \<Rightarrow> int \<Rightarrow> spin_many_pc \<Rightarrow> int \<times> nat \<Rightarrow> (spin_many_pc, int) outcome \<times> int \<times> nat" where
  "waitManyWithPartialSpinning_step b mx (PM_load spin) (c, k) =
     (case spin of 0 \<Rightarrow> (Goto PM_sub, c, k)
      | Suc n \<Rightarrow> (Goto (if c > 0 then PM_cas n c else PM_load n), c, k))"
| "waitManyWithPartialSpinning_step b mx (PM_cas n old) (c, k) =
     (let newCount = (if old > mx then old - mx else 0) in
      if c = old then (Done (old - newCount), newCount, k) else (Goto (PM_load n), c, k))"
| "waitManyWithPartialSpinning_step b mx PM_sub (c, k) =
     (if c \<le> 0 then Goto PM_sleep else after_first mx, c - 1, k)"
| "waitManyWithPartialSpinning_step b mx PM_sleep (c, k) =
     (case Semaphore_wait b k of None \<Rightarrow> (Goto PM_sleep, c, k) | Some k' \<Rightarrow> (after_first mx, c, k'))"
| "waitManyWithPartialSpinning_step b mx (PM_more p) (c, k) =
     (case tryWaitMany_step b (mx - 1) p c of
        (Goto p', c') \<Rightarrow> (Goto (PM_more p'), c', k) | (Done r, c') \<Rightarrow> (Done (1 + r), c', k))"

text \<open>
  \<open>signal\<close>: add the units, then wake as many sleepers as there are and as there are units for.
  The number is converted to a 32-bit \<open>int\<close>.
\<close>

datatype signal_pc = SG_add | SG_post int

fun signal_step :: "int \<Rightarrow> signal_pc \<Rightarrow> int \<times> nat \<Rightarrow> (signal_pc, int) outcome \<times> int \<times> nat" where
  "signal_step n SG_add (c, k) =
     (let toRelease = (if - c < n then - c else n) in
      (if toRelease > 0 then Goto (SG_post (signed_take_bit 31 toRelease)) else Done 0, c + n, k))"
| "signal_step n (SG_post m) (c, k) =
     (if m > 0 then (Goto (SG_post (m - 1)), c, Semaphore_signal k) else (Done 0, c, k))"

definition availableApprox :: "int \<Rightarrow> int" where
  "availableApprox c = (if c > 0 then c else 0)"

section \<open>Threads\<close>

text \<open>
  What a thread calls, and where it is in the call.  \<open>wait\<close> is \<open>tryWait\<close> and, without success,
  \<open>waitWithPartialSpinning\<close>; \<open>waitMany\<close> correspondingly.  At \<open>L_done r\<close> the call has returned
  \<open>r\<close> units to the thread.
\<close>

datatype sema_call = TryWait | SWait | TryWaitMany int | WaitMany int | SSignal int

datatype sema_pc =
    L_idle | L_try try_pc | L_wait try_pc | L_spin spin_pc
  | L_tryMany int try_pc | L_waitMany int try_pc | L_spinMany int spin_many_pc
  | L_signal int signal_pc | L_done int

definition SPIN_COUNT :: nat where
  "SPIN_COUNT = 10000"

fun sema_start :: "sema_call \<Rightarrow> sema_pc" where
  "sema_start TryWait = L_try TW_load"
| "sema_start SWait = L_wait TW_load"
| "sema_start (TryWaitMany mx) = L_tryMany mx TW_load"
| "sema_start (WaitMany mx) = L_waitMany mx TW_load"
| "sema_start (SSignal n) = L_signal n SG_add"

fun finish :: "('pc \<Rightarrow> sema_pc) \<Rightarrow> ('pc, int) outcome \<Rightarrow> sema_pc" where
  "finish f (Goto p) = f p"
| "finish f (Done r) = L_done r"

fun sema_step :: "bool \<Rightarrow> sema_pc \<Rightarrow> int \<times> nat \<Rightarrow> sema_pc \<times> int \<times> nat" where
  "sema_step b L_idle s = (L_idle, s)"
| "sema_step b (L_done r) s = (L_done r, s)"
| "sema_step b (L_try p) (c, k) = (case tryWait_step b p c of (out, c') \<Rightarrow> (finish L_try out, c', k))"
| "sema_step b (L_wait p) (c, k) =
     (case tryWait_step b p c of (out, c') \<Rightarrow>
        (if out = Done 0 then L_spin (PS_load SPIN_COUNT) else finish L_wait out, c', k))"
| "sema_step b (L_spin p) s = (case waitWithPartialSpinning_step b p s of (out, s') \<Rightarrow> (finish L_spin out, s'))"
| "sema_step b (L_tryMany mx p) (c, k) =
     (case tryWaitMany_step b mx p c of (out, c') \<Rightarrow> (finish (L_tryMany mx) out, c', k))"
| "sema_step b (L_waitMany mx p) (c, k) =
     (case tryWaitMany_step b mx p c of (out, c') \<Rightarrow>
        (if out = Done 0 \<and> mx > 0 then L_spinMany mx (PM_load SPIN_COUNT) else finish (L_waitMany mx) out, c', k))"
| "sema_step b (L_spinMany mx p) s =
     (case waitManyWithPartialSpinning_step b mx p s of (out, s') \<Rightarrow> (finish (L_spinMany mx) out, s'))"
| "sema_step b (L_signal n p) s = (case signal_step n p s of (out, s') \<Rightarrow> (finish (L_signal n) out, s'))"

text \<open>
  The semaphore and its threads; \<open>given\<close> and \<open>taken\<close> record the units signalled (and the
  initial ones) and the units threads have taken away with them.
\<close>

record lsys =
  m_count :: int
  m_sema :: nat
  spcs :: "nat \<Rightarrow> sema_pc"
  given :: int
  taken :: int

datatype sema_event = SStart nat sema_call | SStep nat bool | SReturn nat

definition units_added :: "sema_pc \<Rightarrow> int" where
  "units_added p = (case p of L_signal n SG_add \<Rightarrow> n | _ \<Rightarrow> 0)"

fun sema_event_step :: "sema_event \<Rightarrow> lsys \<Rightarrow> lsys" where
  "sema_event_step (SStart t c) s =
     (if spcs s t = L_idle then s\<lparr>spcs := (spcs s)(t := sema_start c)\<rparr> else s)"
| "sema_event_step (SStep t b) s =
     (case sema_step b (spcs s t) (m_count s, m_sema s) of (p, c, k) \<Rightarrow>
        s\<lparr>m_count := c, m_sema := k, spcs := (spcs s)(t := p), given := given s + units_added (spcs s t)\<rparr>)"
| "sema_event_step (SReturn t) s =
     (case spcs s t of L_done r \<Rightarrow> s\<lparr>spcs := (spcs s)(t := L_idle), taken := taken s + r\<rparr> | _ \<Rightarrow> s)"

definition sema_init :: "int \<Rightarrow> lsys" where
  "sema_init n = \<lparr>m_count = n, m_sema = 0, spcs = (\<lambda>_. L_idle), given = n, taken = 0\<rparr>"

section \<open>The invariant\<close>

text \<open>
  Units a thread has but has not taken away, whether it sleeps, posts it still owes, and what
  its locals satisfy.
\<close>

fun held_units :: "sema_pc \<Rightarrow> int" where
  "held_units (L_done r) = r"
| "held_units (L_spinMany mx (PM_more p)) = 1"
| "held_units p = 0"

fun asleep :: "sema_pc \<Rightarrow> int" where
  "asleep (L_spin PS_sleep) = 1"
| "asleep (L_spinMany mx PM_sleep) = 1"
| "asleep p = 0"

fun owed_posts :: "sema_pc \<Rightarrow> int" where
  "owed_posts (L_signal n (SG_post m)) = m"
| "owed_posts p = 0"

fun try_ok :: "try_pc \<Rightarrow> bool" where
  "try_ok TW_load = True"
| "try_ok (TW_cas old) = (old > 0)"

fun sema_pc_ok :: "sema_pc \<Rightarrow> bool" where
  "sema_pc_ok L_idle = True"
| "sema_pc_ok (L_done r) = (r \<ge> 0)"
| "sema_pc_ok (L_try p) = try_ok p"
| "sema_pc_ok (L_wait p) = try_ok p"
| "sema_pc_ok (L_spin (PS_cas n old)) = (old > 0)"
| "sema_pc_ok (L_spin _) = True"
| "sema_pc_ok (L_tryMany mx p) = (mx \<ge> 0 \<and> try_ok p)"
| "sema_pc_ok (L_waitMany mx p) = (mx \<ge> 0 \<and> try_ok p)"
| "sema_pc_ok (L_spinMany mx (PM_cas n old)) = (mx > 0 \<and> old > 0)"
| "sema_pc_ok (L_spinMany mx (PM_more p)) = (mx > 1 \<and> try_ok p)"
| "sema_pc_ok (L_spinMany mx _) = (mx > 0)"
| "sema_pc_ok (L_signal n SG_add) = (n \<ge> 0)"
| "sema_pc_ok (L_signal n (SG_post m)) = (n \<ge> 0 \<and> m \<ge> 0)"

text \<open>
  One step of one thread: the count moves with the units, the kernel semaphore with the
  sleepers.
\<close>

definition step_law :: "sema_pc \<Rightarrow> int \<times> nat \<Rightarrow> sema_pc \<times> int \<times> nat \<Rightarrow> bool" where
  "step_law p s r = (case (s, r) of ((c, k), (p', c', k')) \<Rightarrow>
     sema_pc_ok p' \<and>
     c' + held_units p' + asleep p' = c + held_units p + asleep p + units_added p \<and>
     max 0 (- c') + int k' + owed_posts p' - asleep p' = max 0 (- c) + int k + owed_posts p - asleep p)"

lemma tryWaitMany_amount:
  "0 \<le> mx \<Longrightarrow> 0 < old \<Longrightarrow> old - (if old > mx then old - mx else 0) = min old (mx :: int)"
  by auto

lemma sema_step_law:
  assumes ok: "sema_pc_ok p" and small: "- c < 2 ^ 31"
  shows "step_law p (c, k) (sema_step b p (c, k))"
proof (cases p)
  case (L_try q)
  then show ?thesis using ok by (cases q) (auto simp: step_law_def units_added_def)
next
  case (L_wait q)
  then show ?thesis using ok by (cases q) (auto simp: step_law_def units_added_def)
next
  case (L_spin q)
  then show ?thesis using ok
    by (cases q) (auto simp: step_law_def units_added_def Semaphore_wait_def split: nat.splits option.splits)
next
  case (L_tryMany mx q)
  then show ?thesis using ok by (cases q) (auto simp: step_law_def units_added_def Let_def)
next
  case (L_waitMany mx q)
  then show ?thesis using ok by (cases q) (auto simp: step_law_def units_added_def Let_def)
next
  case (L_spinMany mx q)
  show ?thesis
  proof (cases q)
    case (PM_more r)
    then show ?thesis using ok L_spinMany by (cases r) (auto simp: step_law_def units_added_def Let_def)
  qed (use ok L_spinMany in \<open>auto simp: step_law_def units_added_def Let_def after_first_def Semaphore_wait_def
      split: nat.splits option.splits\<close>)
next
  case (L_signal n q)
  show ?thesis
  proof (cases q)
    case SG_add
    let ?r = "if - c < n then - c else n"
    have "signed_take_bit 31 ?r = ?r" if "0 < ?r"
      using that small by (intro signed_take_bit_int_eq_self) (auto split: if_splits)
    then show ?thesis using ok L_signal SG_add by (auto simp: step_law_def units_added_def Let_def)
  next
    case (SG_post m)
    then show ?thesis using ok L_signal by (auto simp: step_law_def units_added_def Semaphore_signal_def)
  qed
qed (use ok in \<open>auto simp: step_law_def units_added_def\<close>)

definition lsema_inv :: "nat \<Rightarrow> lsys \<Rightarrow> bool" where
  "lsema_inv N s \<longleftrightarrow> (\<forall>t. sema_pc_ok (spcs s t)) \<and>
     m_count s + (\<Sum>t<N. held_units (spcs s t)) + (\<Sum>t<N. asleep (spcs s t)) + taken s = given s \<and>
     max 0 (- m_count s) + int (m_sema s) + (\<Sum>t<N. owed_posts (spcs s t)) = (\<Sum>t<N. asleep (spcs s t))"

lemma asleep_bounds: "0 \<le> asleep p" "asleep p \<le> 1"
  by (induction p rule: asleep.induct) auto

lemma owed_posts_nonneg: "sema_pc_ok p \<Longrightarrow> 0 \<le> owed_posts p"
  by (induction p rule: owed_posts.induct) auto

lemma held_units_nonneg: "sema_pc_ok p \<Longrightarrow> 0 \<le> held_units p"
  by (induction p rule: held_units.induct) auto

lemma asleep_sum_le: "(\<Sum>t<N. asleep (pcs t)) \<le> int N"
  using sum_mono [of "{..<N}" "\<lambda>t. asleep (pcs t)" "\<lambda>_. 1"] asleep_bounds by simp

lemma owed_sum_nonneg: "lsema_inv N s \<Longrightarrow> 0 \<le> (\<Sum>t<N. owed_posts (spcs s t))"
  unfolding lsema_inv_def by (intro sum_nonneg) (auto intro: owed_posts_nonneg)

lemma lsema_inv_count: "lsema_inv N s \<Longrightarrow> - m_count s \<le> int N"
  using owed_sum_nonneg [of N s] asleep_sum_le [of "spcs s" N] unfolding lsema_inv_def by auto

text \<open>The threads are below \<open>N\<close>, and the arguments satisfy the assertions of the source.\<close>

fun sema_event_ok :: "nat \<Rightarrow> sema_event \<Rightarrow> bool" where
  "sema_event_ok N (SStart t c) =
     (t < N \<and> (case c of TryWaitMany mx \<Rightarrow> mx \<ge> 0 | WaitMany mx \<Rightarrow> mx \<ge> 0 | SSignal n \<Rightarrow> n \<ge> 0 | _ \<Rightarrow> True))"
| "sema_event_ok N (SStep t b) = (t < N)"
| "sema_event_ok N (SReturn t) = (t < N)"

lemmas thread_sums = sum_fun_upd [of _ _ held_units] sum_fun_upd [of _ _ asleep] sum_fun_upd [of _ _ owed_posts]

lemma lsema_inv_step:
  assumes inv: "lsema_inv N s" and N: "int N < 2 ^ 31" and ok: "sema_event_ok N e"
  shows "lsema_inv N (sema_event_step e s)"
proof (cases e)
  case (SStart t c)
  show ?thesis
  proof (cases "spcs s t = L_idle")
    case True
    have "t < N" "sema_pc_ok (sema_start c)" "held_units (sema_start c) = 0" "asleep (sema_start c) = 0"
      "owed_posts (sema_start c) = 0"
      using ok SStart by (cases c; simp)+
    then show ?thesis using inv True SStart thread_sums [of t N "spcs s" "sema_start c"]
      unfolding lsema_inv_def by simp
  qed (use inv SStart in simp)
next
  case (SStep t b)
  then have t: "t < N" using ok by simp
  obtain p c k where step: "sema_step b (spcs s t) (m_count s, m_sema s) = (p, c, k)" by (metis prod_cases3)
  have "sema_pc_ok (spcs s t)" using inv by (simp add: lsema_inv_def)
  from sema_step_law [OF this, of "m_count s" "m_sema s" b] step lsema_inv_count [OF inv] N
  have "step_law (spcs s t) (m_count s, m_sema s) (p, c, k)" by simp
  then show ?thesis using inv step SStep thread_sums [OF t, of "spcs s" p]
    unfolding lsema_inv_def step_law_def by simp
next
  case (SReturn t)
  then have t: "t < N" using ok by simp
  show ?thesis using inv SReturn thread_sums [OF t, of "spcs s" L_idle]
    unfolding lsema_inv_def by (cases "spcs s t") simp_all
qed

lemma lsema_inv_run:
  assumes "0 \<le> n" "int N < 2 ^ 31" "list_all (sema_event_ok N) es"
  shows "lsema_inv N (run sema_event_step es (sema_init n))"
proof (rule run_invariant_on [where P = "sema_event_ok N"])
  show "lsema_inv N (sema_init n)" using assms(1) by (simp add: lsema_inv_def sema_init_def)
qed (use assms in \<open>auto intro: lsema_inv_step\<close>)

text \<open>No more units are held or taken than were given.\<close>

lemma sema_units_le:
  assumes "lsema_inv N s"
  shows "taken s + (\<Sum>t<N. held_units (spcs s t)) \<le> given s"
  using assms owed_sum_nonneg [OF assms] unfolding lsema_inv_def by auto

text \<open>A thread that spins to the end without a unit.\<close>

lemma spin_run:
  assumes "m_count s = 0" "spcs s = (\<lambda>_. L_idle)(0 := L_spin (PS_load n))"
  shows "run sema_event_step (replicate n (SStep 0 False)) s = s\<lparr>spcs := (\<lambda>_. L_idle)(0 := L_spin (PS_load 0))\<rparr>"
  using assms
proof (induction n arbitrary: s)
  case 0
  then show ?case by (cases s) simp
next
  case (Suc n)
  let ?s = "s\<lparr>spcs := (\<lambda>_. L_idle)(0 := L_spin (PS_load n))\<rparr>"
  have "sema_event_step (SStep 0 False) s = ?s"
    using Suc.prems by (cases s) (simp add: units_added_def fun_eq_iff)
  then show ?case using Suc.IH [of ?s] Suc.prems by simp
qed

definition sleep_run :: "sema_event list" where
  "sleep_run = [SStart 0 SWait, SStep 0 False] @ replicate SPIN_COUNT (SStep 0 False) @ [SStep 0 False, SStep 0 False]"

lemma sleep_run_state:
  "run sema_event_step sleep_run (sema_init 0) =
    \<lparr>m_count = -1, m_sema = 0, spcs = (\<lambda>_. L_idle)(0 := L_spin PS_sleep), given = 0, taken = 0\<rparr>"
proof -
  have "run sema_event_step [SStart 0 SWait, SStep 0 False] (sema_init 0) =
      \<lparr>m_count = 0, m_sema = 0, spcs = (\<lambda>_. L_idle)(0 := L_spin (PS_load SPIN_COUNT)), given = 0, taken = 0\<rparr>"
    by (simp add: sema_init_def units_added_def)
  then show ?thesis unfolding sleep_run_def run_append by (simp add: spin_run units_added_def)
qed

lemma sleep_run_ok: "list_all (sema_event_ok 1) sleep_run"
  by (simp add: sleep_run_def list_all_iff)

section \<open>Properties\<close>

text \<open>
  Units are neither duplicated nor invented: in every interleaving of \<open>wait\<close>, \<open>tryWait\<close>,
  their bulk forms and \<open>signal\<close> by any number of threads, with weak compare-and-swaps that
  fail and interrupted system calls, the units taken are at most the units given.
\<close>

theorem light_sema_units:
  assumes "0 \<le> n" and "int N < 2 ^ 31" and "list_all (sema_event_ok N) es"
  shows "taken (run sema_event_step es (sema_init n)) +
      (\<Sum>t<N. held_units (spcs (run sema_event_step es (sema_init n)) t))
    \<le> given (run sema_event_step es (sema_init n))"
  using lsema_inv_run [OF assms] by (rule sema_units_le)

theorem light_sema_units_witness:
  "(0 :: int) \<le> 1 \<and> int 2 < 2 ^ 31 \<and> list_all (sema_event_ok 2) [SStart 0 SWait, SStep 0 False, SStep 0 False] \<and>
   taken (run sema_event_step [SStart 0 SWait, SStep 0 False, SStep 0 False] (sema_init 1)) +
      (\<Sum>t<2. held_units (spcs (run sema_event_step [SStart 0 SWait, SStep 0 False, SStep 0 False] (sema_init 1)) t))
    \<le> given (run sema_event_step [SStart 0 SWait, SStep 0 False, SStep 0 False] (sema_init 1))"
  using light_sema_units [of 1 2 "[SStart 0 SWait, SStep 0 False, SStep 0 False]"] by simp

text \<open>
  No wake-up is lost: if a thread sleeps on the kernel semaphore, nothing is posted there
  and no thread is about to post, then every unit ever given is taken or held, so there is none
  the sleeper could have had.
\<close>

theorem light_sema_no_lost_wakeup:
  assumes "0 \<le> n" and "int N < 2 ^ 31" and "list_all (sema_event_ok N) es"
    and "s = run sema_event_step es (sema_init n)"
    and "t < N" and "asleep (spcs s t) = 1" and "m_sema s = 0"
    and "list_all (\<lambda>u. owed_posts (spcs s u) = 0) [0..<N]"
  shows "taken s + (\<Sum>u<N. held_units (spcs s u)) = given s"
proof -
  have inv: "lsema_inv N s" using lsema_inv_run [OF assms(1,2,3)] assms(4) by simp
  have "(\<Sum>u<N. owed_posts (spcs s u)) = 0" using assms(8) by (auto simp: list_all_iff intro: sum.neutral)
  moreover have "0 < (\<Sum>u<N. asleep (spcs s u))"
    using assms(5,6) asleep_bounds(1) by (intro sum_pos2 [of _ t]) auto
  ultimately show ?thesis using inv assms(7) unfolding lsema_inv_def by auto
qed

theorem light_sema_no_lost_wakeup_witness:
  "(0 :: int) \<le> 0 \<and> int 1 < 2 ^ 31 \<and> list_all (sema_event_ok 1) sleep_run \<and>
   asleep (spcs (run sema_event_step sleep_run (sema_init 0)) 0) = 1 \<and>
   taken (run sema_event_step sleep_run (sema_init 0)) +
     (\<Sum>u<1. held_units (spcs (run sema_event_step sleep_run (sema_init 0)) u)) =
   given (run sema_event_step sleep_run (sema_init 0))"
  using light_sema_no_lost_wakeup [OF order_refl _ sleep_run_ok refl, of 0] sleep_run_ok
  by (simp add: sleep_run_state)

end
