(* ===== verification/CQueue.thy ===== *)
theory CQueue
  imports PowTwo
begin

text \<open>
  The run queue of the scheduler: \<open>moodycamel::ConcurrentQueue\<close> of \<open>inc/concurrentqueue.h\<close> with the
  default traits, as the library uses it (elements are pointers, no tokens, so every producer is
  an implicit one).  The operations are modelled whole, one after the other.

  Blocks, index entries and producers are named by numbers.  A compare-and-swap with nobody
  else running succeeds, and a run of the loop around it is one iteration.
\<close>

section \<open>Helpers\<close>

definition BLOCK_SIZE :: c_size where
  "BLOCK_SIZE = 32"

text \<open>\<open>circular_less_than\<close>: \<open>static_cast<T>(a - b) > static_cast<T>(1 << 63)\<close>.\<close>

definition circular_less_than :: "c_size \<Rightarrow> c_size \<Rightarrow> bool" where
  "circular_less_than a b \<longleftrightarrow> a - b > push_bit 63 1"

text \<open>The hash of a thread identifier (the finalizer of MurmurHash3).\<close>

definition hash64 :: "c_size \<Rightarrow> c_size" where
  "hash64 h =
     (let h = h XOR drop_bit 33 h;
          h = h * 0xff51afd7ed558ccd;
          h = h XOR drop_bit 33 h;
          h = h * 0xc4ceb9fe1a85ec53
      in h XOR drop_bit 33 h)"

section \<open>State\<close>

record 'a cblock =
  elements :: "nat \<Rightarrow> 'a"
  elementsCompletelyDequeued :: c_size
  freeListRefs :: c_uint
  freeListNext :: "nat option"

record index_entry =
  entry_key :: c_size
  entry_value :: "nat option"

record index_header =
  capacity :: c_size
  index_tail :: c_size
  index_slots :: "nat list"

record implicit_producer =
  tailIndex :: c_size
  headIndex :: c_size
  dequeueOptimisticCount :: c_size
  dequeueOvercommit :: c_size
  prod_tailBlock :: "nat option"
  nextBlockIndexCapacity :: c_size
  blockIndex :: "index_header option"
  entries :: "nat \<Rightarrow> index_entry"
  entry_count :: nat

text \<open>
  The initial pool is the blocks below \<open>initialBlockPoolSize\<close>; \<open>block_count\<close> is the number of
  blocks there are.  \<open>producers\<close> are in the order of their creation; the linked list from
  \<open>producerListTail\<close> on has the newest first.
\<close>

record 'a cqueue =
  cblocks :: "nat \<Rightarrow> 'a cblock"
  block_count :: nat
  freeListHead :: "nat option"
  initialBlockPoolIndex :: c_size
  initialBlockPoolSize :: c_size
  producers :: "implicit_producer list"

definition upd_cblock :: "nat \<Rightarrow> ('a cblock \<Rightarrow> 'a cblock) \<Rightarrow> 'a cqueue \<Rightarrow> 'a cqueue" where
  "upd_cblock b f q = q\<lparr>cblocks := (cblocks q)(b := f (cblocks q b))\<rparr>"

definition set_producer :: "nat \<Rightarrow> implicit_producer \<Rightarrow> 'a cqueue \<Rightarrow> 'a cqueue" where
  "set_producer i p q = q\<lparr>producers := (producers q)[i := p]\<rparr>"

definition upd_entry :: "nat \<Rightarrow> (index_entry \<Rightarrow> index_entry) \<Rightarrow> implicit_producer \<Rightarrow> implicit_producer" where
  "upd_entry e f p = p\<lparr>entries := (entries p)(e := f (entries p e))\<rparr>"

section \<open>The free list\<close>

definition REFS_MASK :: c_uint where
  "REFS_MASK = 0x7FFFFFFF"

definition SHOULD_BE_ON_FREELIST :: c_uint where
  "SHOULD_BE_ON_FREELIST = 0x80000000"

definition add_knowing_refcount_is_zero :: "nat \<Rightarrow> 'a cqueue \<Rightarrow> 'a cqueue" where
  "add_knowing_refcount_is_zero node q =
     (upd_cblock node (\<lambda>b. b\<lparr>freeListRefs := 1, freeListNext := freeListHead q\<rparr>) q)\<lparr>freeListHead := Some node\<rparr>"

definition free_list_add :: "nat \<Rightarrow> 'a cqueue \<Rightarrow> 'a cqueue" where
  "free_list_add node q =
     (let refs = freeListRefs (cblocks q node);
          q = upd_cblock node (\<lambda>b. b\<lparr>freeListRefs := refs + SHOULD_BE_ON_FREELIST\<rparr>) q
      in if refs = 0 then add_knowing_refcount_is_zero node q else q)"

text \<open>\<open>try_get\<close>: a node whose count is 0 is looked at again, until it is not the head any more.\<close>

partial_function (option) free_list_try_get :: "'a cqueue \<Rightarrow> (nat option \<times> 'a cqueue) option" where
  "free_list_try_get q = (case freeListHead q of
     None \<Rightarrow> Some (None, q)
   | Some head \<Rightarrow>
       let refs = freeListRefs (cblocks q head) in
       if refs AND REFS_MASK = 0 then free_list_try_get q
       else
         let q = upd_cblock head (\<lambda>b. b\<lparr>freeListRefs := refs + 1\<rparr>) q;
             q = q\<lparr>freeListHead := freeListNext (cblocks q head)\<rparr>
         in Some (Some head, upd_cblock head (\<lambda>b. b\<lparr>freeListRefs := freeListRefs b - 2\<rparr>) q))"

section \<open>Blocks\<close>

definition reset_empty :: "nat \<Rightarrow> 'a cqueue \<Rightarrow> 'a cqueue" where
  "reset_empty b q = upd_cblock b (\<lambda>x. x\<lparr>elementsCompletelyDequeued := 0\<rparr>) q"

definition set_empty :: "nat \<Rightarrow> 'a cqueue \<Rightarrow> bool \<times> 'a cqueue" where
  "set_empty b q =
     (let prevVal = elementsCompletelyDequeued (cblocks q b)
      in (prevVal = BLOCK_SIZE - 1, upd_cblock b (\<lambda>x. x\<lparr>elementsCompletelyDequeued := prevVal + 1\<rparr>) q))"

definition slot_of :: "c_size \<Rightarrow> nat" where
  "slot_of idx = unat (idx AND (BLOCK_SIZE - 1))"

datatype alloc_mode = Can_alloc | Cannot_alloc

definition try_get_block_from_initial_pool :: "'a cqueue \<Rightarrow> nat option \<times> 'a cqueue" where
  "try_get_block_from_initial_pool q =
     (if initialBlockPoolIndex q \<ge> initialBlockPoolSize q then (None, q)
      else let i = initialBlockPoolIndex q;
               q = q\<lparr>initialBlockPoolIndex := i + 1\<rparr>
           in (if i < initialBlockPoolSize q then Some (unat i) else None, q))"

text \<open>\<open>requisition_block\<close>; \<open>mem\<close> says whether \<open>malloc\<close> succeeds.  \<open>None\<close> overall: \<open>try_get\<close> does not return.\<close>

definition requisition_block :: "alloc_mode \<Rightarrow> bool \<Rightarrow> 'a cqueue \<Rightarrow> (nat option \<times> 'a cqueue) option" where
  "requisition_block canAlloc mem q =
     (case try_get_block_from_initial_pool q of
        (Some b, q) \<Rightarrow> Some (Some b, q)
      | (None, q) \<Rightarrow>
          (case free_list_try_get q of
             None \<Rightarrow> None
           | Some (Some b, q) \<Rightarrow> Some (Some b, q)
           | Some (None, q) \<Rightarrow>
               if canAlloc = Can_alloc \<and> mem
               then Some (Some (block_count q),
                 (upd_cblock (block_count q) (\<lambda>b. b\<lparr>elementsCompletelyDequeued := 0, freeListRefs := 0, freeListNext := None\<rparr>) q)
                   \<lparr>block_count := Suc (block_count q)\<rparr>)
               else Some (None, q)))"

section \<open>The block index of a producer\<close>

definition INVALID_BLOCK_BASE :: c_size where
  "INVALID_BLOCK_BASE = 1"

text \<open>
  \<open>new_block_index\<close>: the loop over the old index visits the positions after its tail, all
  \<open>capacity\<close> of them, up to the tail.
\<close>

definition new_block_index :: "bool \<Rightarrow> implicit_producer \<Rightarrow> implicit_producer option" where
  "new_block_index mem p =
     (if \<not> mem then None
      else
        let prevCapacity = (case blockIndex p of None \<Rightarrow> 0 | Some hdr \<Rightarrow> capacity hdr);
            entryCount = (case blockIndex p of None \<Rightarrow> nextBlockIndexCapacity p | Some hdr \<Rightarrow> prevCapacity);
            old = (case blockIndex p of None \<Rightarrow> []
                   | Some hdr \<Rightarrow> map (\<lambda>i. index_slots hdr ! unat ((index_tail hdr + 1 + of_nat i) AND (capacity hdr - 1)))
                       [0..<unat (capacity hdr)]);
            new = [entry_count p..<entry_count p + unat entryCount]
        in Some (p\<lparr>entries := (\<lambda>e. if e \<in> set new then (entries p e)\<lparr>entry_key := INVALID_BLOCK_BASE\<rparr> else entries p e),
                   entry_count := entry_count p + unat entryCount,
                   blockIndex := Some \<lparr>capacity = nextBlockIndexCapacity p,
                     index_tail = (prevCapacity - 1) AND (nextBlockIndexCapacity p - 1),
                     index_slots = old @ new\<rparr>,
                   nextBlockIndexCapacity := push_bit 1 (nextBlockIndexCapacity p)\<rparr>))"

definition next_index_slot :: "implicit_producer \<Rightarrow> c_size \<times> nat" where
  "next_index_slot p =
     (let hdr = the (blockIndex p); newTail = (index_tail hdr + 1) AND (capacity hdr - 1)
      in (newTail, index_slots hdr ! unat newTail))"

definition claim_index_slot :: "c_size \<Rightarrow> implicit_producer \<Rightarrow> nat \<times> implicit_producer" where
  "claim_index_slot blockStartIndex p =
     (case next_index_slot p of (newTail, e) \<Rightarrow>
        (e, (upd_entry e (\<lambda>x. x\<lparr>entry_key := blockStartIndex\<rparr>) p)
              \<lparr>blockIndex := Some ((the (blockIndex p))\<lparr>index_tail := newTail\<rparr>)\<rparr>))"

text \<open>\<open>None\<close> overall: the index is null, or the assertion about the new index fails.\<close>

definition insert_block_index_entry ::
    "alloc_mode \<Rightarrow> bool \<Rightarrow> c_size \<Rightarrow> implicit_producer \<Rightarrow> (nat option \<times> implicit_producer) option" where
  "insert_block_index_entry allocMode mem blockStartIndex p =
     (if blockIndex p = None then None
      else
        let e = snd (next_index_slot p) in
        if entry_key (entries p e) = INVALID_BLOCK_BASE \<or> entry_value (entries p e) = None
        then Some (map_prod Some id (claim_index_slot blockStartIndex p))
        else if allocMode = Cannot_alloc then Some (None, p)
        else (case new_block_index mem p of
                None \<Rightarrow> Some (None, p)
              | Some p \<Rightarrow>
                  if entry_key (entries p (snd (next_index_slot p))) = INVALID_BLOCK_BASE
                  then Some (map_prod Some id (claim_index_slot blockStartIndex p))
                  else None))"

definition rewind_block_index_tail :: "implicit_producer \<Rightarrow> implicit_producer" where
  "rewind_block_index_tail p =
     (let hdr = the (blockIndex p)
      in p\<lparr>blockIndex := Some (hdr\<lparr>index_tail := (index_tail hdr - 1) AND (capacity hdr - 1)\<rparr>)\<rparr>)"

text \<open>
  The division is unsigned: \<open>BLOCK_SIZE\<close> is a \<open>size_t\<close>, so the signed difference is converted
  back before it is divided.
\<close>

definition get_block_index_index_for_index :: "c_size \<Rightarrow> implicit_producer \<Rightarrow> c_size" where
  "get_block_index_index_for_index idx p =
     (let idx = idx AND NOT (BLOCK_SIZE - 1);
          hdr = the (blockIndex p);
          tailBase = entry_key (entries p (index_slots hdr ! unat (index_tail hdr)));
          offset = (idx - tailBase) div BLOCK_SIZE
      in (index_tail hdr + offset) AND (capacity hdr - 1))"

definition get_block_index_entry_for_index :: "c_size \<Rightarrow> implicit_producer \<Rightarrow> nat" where
  "get_block_index_entry_for_index idx p =
     index_slots (the (blockIndex p)) ! unat (get_block_index_index_for_index idx p)"

section \<open>Producers\<close>

text \<open>The constructor ignores the result of \<open>new_block_index\<close>: without memory the index stays null.\<close>

definition ImplicitProducer :: "bool \<Rightarrow> (nat \<Rightarrow> index_entry) \<Rightarrow> implicit_producer" where
  "ImplicitProducer mem raw =
     (let p = \<lparr>tailIndex = 0, headIndex = 0, dequeueOptimisticCount = 0, dequeueOvercommit = 0,
               prod_tailBlock = None, nextBlockIndexCapacity = 32, blockIndex = None, entries = raw, entry_count = 0\<rparr>
      in case new_block_index mem p of None \<Rightarrow> p | Some p' \<Rightarrow> p')"

definition producer_size_approx :: "implicit_producer \<Rightarrow> c_size" where
  "producer_size_approx p =
     (if circular_less_than (headIndex p) (tailIndex p) then tailIndex p - headIndex p else 0)"

text \<open>
  \<open>ImplicitProducer::enqueue\<close> for producer \<open>i\<close>.  \<open>MAX_SUBQUEUE_SIZE\<close> is the largest \<open>size_t\<close>, so
  its test is off; the constructor of a pointer does not throw.  \<open>None\<close> overall is the failure
  of an assertion, a null index or a \<open>try_get\<close> that does not return.
\<close>

definition put_element :: "nat \<Rightarrow> 'a \<Rightarrow> 'a cqueue \<Rightarrow> 'a cqueue" where
  "put_element i x q =
     (let p = producers q ! i; t = tailIndex p
      in set_producer i (p\<lparr>tailIndex := 1 + t\<rparr>)
           (upd_cblock (the (prod_tailBlock p)) (\<lambda>b. b\<lparr>elements := (elements b)(slot_of t := x)\<rparr>) q))"

definition implicit_enqueue :: "alloc_mode \<Rightarrow> bool \<times> bool \<Rightarrow> nat \<Rightarrow> 'a \<Rightarrow> 'a cqueue \<Rightarrow> (bool \<times> 'a cqueue) option" where
  "implicit_enqueue allocMode mem i x q =
     (let p = producers q ! i; currentTailIndex = tailIndex p in
      if currentTailIndex AND (BLOCK_SIZE - 1) = 0
      then
        if circular_less_than currentTailIndex (headIndex p) then None
        else if \<not> circular_less_than (headIndex p) (currentTailIndex + BLOCK_SIZE) then Some (False, q)
        else
          (case insert_block_index_entry allocMode (fst mem) currentTailIndex p of
             None \<Rightarrow> None
           | Some (None, p) \<Rightarrow> Some (False, set_producer i p q)
           | Some (Some e, p) \<Rightarrow>
               (case requisition_block allocMode (snd mem) q of
                  None \<Rightarrow> None
                | Some (None, q) \<Rightarrow>
                    Some (False, set_producer i
                      (upd_entry e (\<lambda>y. y\<lparr>entry_value := None\<rparr>) (rewind_block_index_tail p)) q)
                | Some (Some b, q) \<Rightarrow>
                    Some (True, put_element i x
                      (set_producer i ((upd_entry e (\<lambda>y. y\<lparr>entry_value := Some b\<rparr>) p)\<lparr>prod_tailBlock := Some b\<rparr>)
                        (reset_empty b q)))))
      else Some (True, put_element i x q))"

definition implicit_dequeue :: "nat \<Rightarrow> 'a cqueue \<Rightarrow> 'a option \<times> 'a cqueue" where
  "implicit_dequeue i q =
     (let p = producers q ! i; overcommit = dequeueOvercommit p in
      if circular_less_than (dequeueOptimisticCount p - overcommit) (tailIndex p)
      then
        let myDequeueCount = dequeueOptimisticCount p;
            p = p\<lparr>dequeueOptimisticCount := myDequeueCount + 1\<rparr>
        in if circular_less_than (myDequeueCount - overcommit) (tailIndex p)
           then
             let idx = headIndex p;
                 p = p\<lparr>headIndex := idx + 1\<rparr>;
                 e = get_block_index_entry_for_index idx p;
                 b = the (entry_value (entries p e));
                 x = elements (cblocks q b) (slot_of idx)
             in (case set_empty b q of
                   (True, q) \<Rightarrow>
                     (Some x, free_list_add b (set_producer i (upd_entry e (\<lambda>y. y\<lparr>entry_value := None\<rparr>) p) q))
                 | (False, q) \<Rightarrow> (Some x, set_producer i p q))
           else (None, set_producer i (p\<lparr>dequeueOvercommit := overcommit + 1\<rparr>) q)
      else (None, q))"

section \<open>The queue\<close>

text \<open>
  The first loop of \<open>try_dequeue\<close>: the best of the first three non-empty producers, and whether
  there was any.
\<close>

fun best_producer :: "(nat \<times> implicit_producer) list \<Rightarrow> nat \<Rightarrow> nat option \<Rightarrow> c_size \<Rightarrow> nat \<times> nat option" where
  "best_producer [] nonEmptyCount best bestSize = (nonEmptyCount, best)"
| "best_producer ((i, p) # ps) nonEmptyCount best bestSize =
     (if \<not> nonEmptyCount < 3 then (nonEmptyCount, best)
      else
        let size = producer_size_approx p in
        if size > 0
        then (if size > bestSize
              then best_producer ps (Suc nonEmptyCount) (Some i) size
              else best_producer ps (Suc nonEmptyCount) best bestSize)
        else best_producer ps nonEmptyCount best bestSize)"

fun dequeue_from :: "nat list \<Rightarrow> 'a cqueue \<Rightarrow> 'a option \<times> 'a cqueue" where
  "dequeue_from [] q = (None, q)"
| "dequeue_from (i # is) q = (case implicit_dequeue i q of
     (Some x, q) \<Rightarrow> (Some x, q) | (None, q) \<Rightarrow> dequeue_from is q)"

definition cq_try_dequeue :: "'a cqueue \<Rightarrow> 'a option \<times> 'a cqueue" where
  "cq_try_dequeue q =
     (case best_producer (rev (zip [0..<length (producers q)] (producers q))) 0 None 0 of (nonEmptyCount, best) \<Rightarrow>
        if nonEmptyCount > 0
        then (case implicit_dequeue (the best) q of
                (Some x, q) \<Rightarrow> (Some x, q)
              | (None, q) \<Rightarrow> dequeue_from (filter (\<lambda>i. Some i \<noteq> best) (rev [0..<length (producers q)])) q)
        else (None, q))"

definition cq_size_approx :: "'a cqueue \<Rightarrow> c_size" where
  "cq_size_approx q = sum_list (map producer_size_approx (producers q))"

text \<open>
  The constructor with the pool of initial blocks (empty without memory), and a new implicit producer (\<open>create\<close> and
  \<open>add_producer\<close>); \<open>mem\<close> says whether there is memory for the producer and for its index.
\<close>

definition populate_initial_block_list :: "bool \<Rightarrow> c_size \<Rightarrow> c_size" where
  "populate_initial_block_list mem blockCount = (if blockCount = 0 then 0 else if mem then blockCount else 0)"

definition cq_new :: "bool \<Rightarrow> (nat \<Rightarrow> nat \<Rightarrow> 'a) \<Rightarrow> c_size \<Rightarrow> 'a cqueue" where
  "cq_new mem raw cap =
     (let n = populate_initial_block_list mem (cap div BLOCK_SIZE + (if cap AND (BLOCK_SIZE - 1) = 0 then 0 else 1))
      in \<lparr>cblocks = (\<lambda>b. \<lparr>elements = raw b, elementsCompletelyDequeued = 0, freeListRefs = 0, freeListNext = None\<rparr>),
          block_count = unat n, freeListHead = None, initialBlockPoolIndex = 0, initialBlockPoolSize = n,
          producers = []\<rparr>)"

definition add_producer :: "bool \<times> bool \<Rightarrow> (nat \<Rightarrow> index_entry) \<Rightarrow> 'a cqueue \<Rightarrow> bool \<times> 'a cqueue" where
  "add_producer mem raw q =
     (if fst mem then (True, q\<lparr>producers := producers q @ [ImplicitProducer (snd mem) raw]\<rparr>) else (False, q))"

end
