(* ===== verification/CQIndex.thy ===== *)
theory CQIndex
  imports CQueue
begin

text \<open>
  The block index of an implicit producer: positions on its ring, and what inserting, rewinding,
  growing and looking up do to them.  Element numbers are counted without wrap-around; the
  indices of the source are these numbers modulo \<open>2 ^ 64\<close>.
\<close>

section \<open>Words\<close>

lemma unat_neg_of_nat:
  assumes "0 < d" "d < 2 ^ 64"
  shows "unat (- (of_nat d :: c_size)) = 2 ^ 64 - d"
proof -
  have "unat (of_nat d :: c_size) = d" using assms by (intro unat_of_nat_small) simp
  then have "unat (0 - (of_nat d :: c_size)) = 2 ^ 64 - d"
    using assms by (simp only: unat_sub_if_size word_size) simp
  then show ?thesis by simp
qed

lemma of_nat_diff_word: "a \<le> b \<Longrightarrow> of_nat a - of_nat b = - (of_nat (b - a) :: c_size)"
  by (simp add: of_nat_diff)

lemma circular_less_than_of_nat:
  assumes "a \<le> b" "b - a < 2 ^ 64"
  shows "circular_less_than (of_nat a) (of_nat b) \<longleftrightarrow> a < b \<and> b - a < 2 ^ 63"
proof (cases "a = b")
  case False
  then have "unat (- (of_nat (b - a) :: c_size)) = 2 ^ 64 - (b - a)" using assms by (intro unat_neg_of_nat) simp_all
  then show ?thesis
    using False assms
    by (auto simp: circular_less_than_def of_nat_diff_word word_less_nat_alt push_bit_eq_mult simp del: of_nat_diff)
qed (simp add: circular_less_than_def)

lemma not_circular_less_than:
  assumes "a \<le> b" "b - a < 2 ^ 63"
  shows "\<not> circular_less_than (of_nat b) (of_nat a)"
proof -
  have "unat (of_nat (b - a) :: c_size) = b - a" using assms by (intro unat_of_nat_small) simp
  moreover have "of_nat b - of_nat a = (of_nat (b - a) :: c_size)" using assms by (simp add: of_nat_diff)
  ultimately show ?thesis
    using assms by (simp add: circular_less_than_def word_less_nat_alt push_bit_eq_mult del: of_nat_diff)
qed

lemma slot_of_nat: "slot_of (of_nat i) = i mod 32"
proof -
  have "unat (BLOCK_SIZE - 1) + 1 = 2 ^ 5" by (simp add: BLOCK_SIZE_def)
  from unat_and_mask [OF this, of "of_nat i"] show ?thesis
    by (simp add: slot_of_def unat_of_nat mod_mod_cancel)
qed

lemma block_start_iff: "of_nat i AND (BLOCK_SIZE - 1) = 0 \<longleftrightarrow> i mod 32 = 0"
  using slot_of_nat [of i] by (simp add: slot_of_def word_unat_eq_iff)

lemma block_base: "of_nat i AND NOT (BLOCK_SIZE - 1) = (of_nat (32 * (i div 32)) :: c_size)"
proof -
  have split: "x = (x AND m) + (x AND NOT m)" for x m :: c_size
  proof -
    have "(x AND m) + (x AND NOT m) = (x AND m) OR (x AND NOT m)"
      by (rule disjunctive_add) (auto simp: bit_simps)
    also have "\<dots> = x" by (rule bit_eqI) (auto simp: bit_simps)
    finally show ?thesis by simp
  qed
  have "(of_nat i :: c_size) = (of_nat i AND (BLOCK_SIZE - 1)) + (of_nat i AND NOT (BLOCK_SIZE - 1))"
    by (rule split)
  moreover have "of_nat i AND (BLOCK_SIZE - 1) = (of_nat (i mod 32) :: c_size)"
    using slot_of_nat [of i] by (intro eq_of_nat_unat) (simp add: slot_of_def)
  moreover have "(of_nat i :: c_size) = of_nat (i mod 32) + of_nat (32 * (i div 32))"
    by (simp only: flip: of_nat_add) simp
  ultimately show ?thesis by simp
qed

text \<open>Masking with a power of two less one is the remainder, and \<open>2 ^ 64\<close> is a multiple of it.\<close>

lemma masked:
  assumes "unat (cap :: c_size) = 2 ^ c"
  shows "unat (w AND (cap - 1)) = unat w mod 2 ^ c"
proof -
  have "cap \<noteq> 0" using assms by (metis unat_0 power_not_zero zero_neq_numeral)
  then have "unat (cap - 1) + 1 = 2 ^ c" using assms by (simp add: unat_minus_one)
  then show ?thesis by (rule unat_and_mask)
qed

lemma mod_64_mod: "c \<le> 64 \<Longrightarrow> n mod 2 ^ 64 mod 2 ^ c = (n :: nat) mod 2 ^ c"
  by (simp add: le_imp_power_dvd mod_mod_cancel del: power_numeral)

lemma masked_of_nat:
  assumes "unat (cap :: c_size) = 2 ^ c" "c \<le> 64"
  shows "unat (of_nat n AND (cap - 1)) = n mod 2 ^ c"
  using masked [OF assms(1), of "of_nat n"] mod_64_mod [OF assms(2), of n] by (simp add: unat_of_nat)

section \<open>The ring\<close>

definition header_ok :: "index_header \<Rightarrow> nat \<Rightarrow> bool" where
  "header_ok hdr n \<longleftrightarrow> (\<exists>c\<ge>5. c \<le> 58 \<and> unat (capacity hdr) = 2 ^ c) \<and>
     length (index_slots hdr) = unat (capacity hdr) \<and> distinct (index_slots hdr) \<and>
     set (index_slots hdr) \<subseteq> {..<n} \<and> unat (index_tail hdr) < unat (capacity hdr)"

text \<open>The entry \<open>d\<close> places before the tail.\<close>

definition ring_pos :: "index_header \<Rightarrow> nat \<Rightarrow> nat" where
  "ring_pos hdr d = (unat (index_tail hdr) + unat (capacity hdr) - d) mod unat (capacity hdr)"

definition ring_slot :: "index_header \<Rightarrow> nat \<Rightarrow> nat" where
  "ring_slot hdr d = index_slots hdr ! ring_pos hdr d"

lemma header_okE:
  assumes "header_ok hdr n"
  obtains c where "5 \<le> c" "c \<le> 58" "unat (capacity hdr) = 2 ^ c" "0 < unat (capacity hdr)"
    "length (index_slots hdr) = unat (capacity hdr)" "distinct (index_slots hdr)"
    "set (index_slots hdr) \<subseteq> {..<n}" "unat (index_tail hdr) < unat (capacity hdr)"
  using assms by (auto simp: header_ok_def)

lemma header_ok_pos: "header_ok hdr n \<Longrightarrow> 0 < unat (capacity hdr)"
  by (auto elim: header_okE)

lemma ring_pos_cases:
  assumes "header_ok hdr n" "d \<le> unat (capacity hdr)"
  shows "ring_pos hdr d = (if d \<le> unat (index_tail hdr) then unat (index_tail hdr) - d
    else unat (index_tail hdr) + unat (capacity hdr) - d)"
proof -
  obtain c where t: "unat (index_tail hdr) < unat (capacity hdr)" using assms(1) by (auto elim: header_okE)
  show ?thesis
  proof (cases "d \<le> unat (index_tail hdr)")
    case True
    then have "unat (index_tail hdr) + unat (capacity hdr) - d = unat (index_tail hdr) - d + unat (capacity hdr)"
      by simp
    then have "ring_pos hdr d = (unat (index_tail hdr) - d) mod unat (capacity hdr)"
      unfolding ring_pos_def by (simp only: mod_add_self2)
    then show ?thesis using True t by simp
  qed (use assms(2) t in \<open>simp add: ring_pos_def\<close>)
qed

lemma ring_pos_less: "header_ok hdr n \<Longrightarrow> ring_pos hdr d < unat (capacity hdr)"
  using header_ok_pos by (simp add: ring_pos_def)

lemma ring_slot_inj:
  assumes ok: "header_ok hdr n" and d: "d < unat (capacity hdr)" "d' < unat (capacity hdr)"
  shows "ring_slot hdr d = ring_slot hdr d' \<longleftrightarrow> d = d'"
proof -
  obtain c where "length (index_slots hdr) = unat (capacity hdr)" "distinct (index_slots hdr)"
    using ok by (auto elim: header_okE)
  then have "ring_slot hdr d = ring_slot hdr d' \<longleftrightarrow> ring_pos hdr d = ring_pos hdr d'"
    using ring_pos_less [OF ok] by (simp add: ring_slot_def nth_eq_iff_index_eq)
  also have "\<dots> \<longleftrightarrow> d = d'" using d by (auto simp: ring_pos_cases [OF ok] split: if_splits)
  finally show ?thesis .
qed

lemma ring_slot_less:
  assumes ok: "header_ok hdr n"
  shows "ring_slot hdr d < n"
proof -
  obtain c where "length (index_slots hdr) = unat (capacity hdr)" "set (index_slots hdr) \<subseteq> {..<n}"
    using ok by (auto elim: header_okE)
  moreover have "index_slots hdr ! ring_pos hdr d \<in> set (index_slots hdr)"
    using ring_pos_less [OF ok, of d] calculation(1) by (intro nth_mem) simp
  ultimately show ?thesis unfolding ring_slot_def by blast
qed

section \<open>Inserting and rewinding\<close>

definition advanced :: "index_header \<Rightarrow> index_header" where
  "advanced hdr = hdr\<lparr>index_tail := (index_tail hdr + 1) AND (capacity hdr - 1)\<rparr>"

lemma advanced_tail:
  assumes ok: "header_ok hdr n"
  shows "unat (index_tail (advanced hdr)) = Suc (unat (index_tail hdr)) mod unat (capacity hdr)"
proof -
  obtain c where c: "unat (capacity hdr) = 2 ^ c" "c \<le> 58" using ok by (auto elim: header_okE)
  have "index_tail hdr + 1 = of_nat (Suc (unat (index_tail hdr)))" by simp
  then show ?thesis using masked_of_nat [OF c(1), of "Suc (unat (index_tail hdr))"] c by (simp add: advanced_def add.commute [of _ 1])
qed

lemma advanced_ok:
  assumes ok: "header_ok hdr n"
  shows "header_ok (advanced hdr) n"
  using ok advanced_tail [OF ok] header_ok_pos [OF ok] by (auto simp: header_ok_def advanced_def)

lemma advanced_capacity [simp]: "capacity (advanced hdr) = capacity hdr"
  by (simp add: advanced_def)

lemma ring_slot_advanced:
  assumes ok: "header_ok hdr n"
  shows "ring_slot (advanced hdr) 0 = ring_slot hdr (unat (capacity hdr) - 1)"
    and "Suc d < unat (capacity hdr) \<Longrightarrow> ring_slot (advanced hdr) (Suc d) = ring_slot hdr d"
proof -
  have t: "unat (index_tail hdr) < unat (capacity hdr)" using ok by (auto elim: header_okE)
  have a: "unat (index_tail (advanced hdr)) = (if Suc (unat (index_tail hdr)) = unat (capacity hdr) then 0 else Suc (unat (index_tail hdr)))"
    using advanced_tail [OF ok] t by (simp add: ring_succ_cases)
  have s: "index_slots (advanced hdr) = index_slots hdr" by (simp add: advanced_def)
  have "ring_pos (advanced hdr) 0 = ring_pos hdr (unat (capacity hdr) - 1)"
    using t a by (auto simp: ring_pos_cases [OF ok] ring_pos_cases [OF advanced_ok [OF ok]])
  then show "ring_slot (advanced hdr) 0 = ring_slot hdr (unat (capacity hdr) - 1)"
    by (simp add: ring_slot_def s)
  show "ring_slot (advanced hdr) (Suc d) = ring_slot hdr d" if "Suc d < unat (capacity hdr)"
  proof -
    have "ring_pos (advanced hdr) (Suc d) = ring_pos hdr d"
      using that t a by (auto simp: ring_pos_cases [OF ok] ring_pos_cases [OF advanced_ok [OF ok]])
    then show ?thesis by (simp add: ring_slot_def s)
  qed
qed

lemma claim_index_slot_eq:
  assumes "blockIndex p = Some hdr" "header_ok hdr n"
  shows "claim_index_slot b p = (ring_slot (advanced hdr) 0,
    (upd_entry (ring_slot (advanced hdr) 0) (\<lambda>x. x\<lparr>entry_key := b\<rparr>) p)\<lparr>blockIndex := Some (advanced hdr)\<rparr>)"
proof -
  have "ring_pos (advanced hdr) 0 = unat (index_tail (advanced hdr))"
    using ring_pos_cases [OF advanced_ok [OF assms(2)], of 0] by simp
  then have "next_index_slot p = (index_tail (advanced hdr), ring_slot (advanced hdr) 0)"
    using assms(1) by (simp add: next_index_slot_def ring_slot_def Let_def) (simp add: advanced_def)
  then show ?thesis using assms(1) by (simp add: claim_index_slot_def advanced_def)
qed

lemma rewind_advanced:
  assumes "blockIndex p = Some (advanced hdr)" "header_ok hdr n"
  shows "rewind_block_index_tail p = p\<lparr>blockIndex := Some hdr\<rparr>"
proof -
  obtain c where c: "unat (capacity hdr) = 2 ^ c" "c \<le> 58" "unat (index_tail hdr) < unat (capacity hdr)"
    using assms(2) by (auto elim: header_okE)
  let ?a = "index_tail (advanced hdr)"
  have "unat ((?a - 1) AND (capacity hdr - 1)) = unat (?a - 1) mod 2 ^ c" by (rule masked [OF c(1)])
  also have "\<dots> = unat (index_tail hdr)"
  proof (cases "Suc (unat (index_tail hdr)) = 2 ^ c")
    case True
    then have "?a = 0" using advanced_tail [OF assms(2)] c by (simp add: unat_eq_zero)
    then have "unat (?a - 1) = 2 ^ 64 - 1" using unat_neg_of_nat [of 1] by simp
    moreover have "(2 ^ 64 - 1) mod 2 ^ c = (2 ^ c - 1 :: nat)"
      using take_bit_of_mask [of c 64, where 'a = nat] c(2)
      by (simp add: take_bit_eq_mod mask_eq_exp_minus_1 min_def)
    ultimately show ?thesis using True by simp
  next
    case False
    then have "unat ?a = Suc (unat (index_tail hdr))" using advanced_tail [OF assms(2)] c by (simp add: ring_succ_cases)
    then have "unat (?a - 1) = unat (index_tail hdr)" by (subst unat_minus_one) auto
    then show ?thesis using c by simp
  qed
  finally have "(?a - 1) AND (capacity hdr - 1) = index_tail hdr" by (simp add: word_unat_eq_iff)
  then show ?thesis using assms(1) by (simp add: rewind_block_index_tail_def Let_def) (simp add: advanced_def)
qed

section \<open>Growing\<close>

text \<open>The index after \<open>new_block_index\<close> of a producer with index \<open>hdr\<close> and \<open>n\<close> entries.\<close>

definition grown :: "index_header \<Rightarrow> nat \<Rightarrow> index_header" where
  "grown hdr n = \<lparr>capacity = 2 * capacity hdr, index_tail = (capacity hdr - 1) AND (2 * capacity hdr - 1),
     index_slots = map (\<lambda>i. index_slots hdr ! unat ((index_tail hdr + 1 + of_nat i) AND (capacity hdr - 1)))
       [0..<unat (capacity hdr)] @ [n..<n + unat (capacity hdr)]\<rparr>"

lemma new_block_index_eq:
  assumes "blockIndex p = Some hdr" "nextBlockIndexCapacity p = 2 * capacity hdr"
  shows "new_block_index True p = Some (p\<lparr>
    entries := (\<lambda>e. if entry_count p \<le> e \<and> e < entry_count p + unat (capacity hdr)
      then (entries p e)\<lparr>entry_key := INVALID_BLOCK_BASE\<rparr> else entries p e),
    entry_count := entry_count p + unat (capacity hdr), blockIndex := Some (grown hdr (entry_count p)),
    nextBlockIndexCapacity := 2 * capacity (grown hdr (entry_count p))\<rparr>)"
  using assms by (simp add: new_block_index_def grown_def push_bit_eq_mult mult.commute Let_def)

lemma grown_capacity:
  assumes ok: "header_ok hdr n" and small: "unat (capacity hdr) < 2 ^ 58"
  shows "unat (capacity (grown hdr n)) = 2 * unat (capacity hdr)"
  using small by (simp add: grown_def unat_word_ariths)

lemma grown_tail:
  assumes ok: "header_ok hdr n" and small: "unat (capacity hdr) < 2 ^ 58"
  shows "unat (index_tail (grown hdr n)) = unat (capacity hdr) - 1"
proof -
  obtain c where c: "unat (capacity hdr) = 2 ^ c" "0 < unat (capacity hdr)" using ok by (auto elim: header_okE)
  have c2: "unat (2 * capacity hdr) = 2 ^ Suc c" using small c by (simp add: unat_word_ariths)
  have "capacity hdr \<noteq> 0" using c(2) by auto
  then have "unat (capacity hdr - 1) = 2 ^ c - 1" using c(1) by (simp add: unat_minus_one)
  then have "unat ((capacity hdr - 1) AND (2 * capacity hdr - 1)) = (2 ^ c - 1) mod 2 ^ Suc c"
    using masked [OF c2, of "capacity hdr - 1"] by simp
  also have "\<dots> = 2 ^ c - 1" by (intro mod_less) (simp add: less_imp_diff_less)
  finally show ?thesis using c by (simp add: grown_def)
qed

lemma grown_old_slot:
  assumes ok: "header_ok hdr n" and i: "i < unat (capacity hdr)"
  shows "index_slots (grown hdr n) ! i = index_slots hdr ! ((unat (index_tail hdr) + 1 + i) mod unat (capacity hdr))"
proof -
  obtain c where c: "unat (capacity hdr) = 2 ^ c" "c \<le> 58" using ok by (auto elim: header_okE)
  have "index_tail hdr + 1 + of_nat i = of_nat (unat (index_tail hdr) + 1 + i)" by simp
  then have "unat ((index_tail hdr + 1 + of_nat i) AND (capacity hdr - 1)) = (unat (index_tail hdr) + 1 + i) mod 2 ^ c"
    using masked_of_nat [OF c(1), of "unat (index_tail hdr) + 1 + i"] c(2) by (simp only:)
  then show ?thesis using i c by (simp add: grown_def nth_append)
qed

lemma grown_new_slot:
  "i < unat (capacity hdr) \<Longrightarrow> index_slots (grown hdr n) ! (unat (capacity hdr) + i) = n + i"
  by (simp add: grown_def nth_append)

lemma grown_ok:
  assumes ok: "header_ok hdr n" and small: "unat (capacity hdr) < 2 ^ 58"
  shows "header_ok (grown hdr n) (n + unat (capacity hdr))"
proof -
  obtain c where c: "5 \<le> c" "c \<le> 58" "unat (capacity hdr) = 2 ^ c" "0 < unat (capacity hdr)"
    and sl: "length (index_slots hdr) = unat (capacity hdr)" "distinct (index_slots hdr)" "set (index_slots hdr) \<subseteq> {..<n}"
    using ok by (auto elim: header_okE)
  let ?m = "unat (capacity hdr)" and ?t = "unat (index_tail hdr)"
  have "(2 :: nat) ^ c < 2 ^ 58" using small c by simp
  then have c58: "c < 58" by (rule power_less_imp_less_exp [rotated]) simp
  have old: "take ?m (index_slots (grown hdr n)) = map (\<lambda>i. index_slots hdr ! ((?t + 1 + i) mod ?m)) [0..<?m]"
  proof (rule nth_equalityI)
    show len: "length (take ?m (index_slots (grown hdr n))) =
        length (map (\<lambda>i. index_slots hdr ! ((?t + 1 + i) mod ?m)) [0..<?m])" by (simp add: grown_def)
    fix i assume "i < length (take ?m (index_slots (grown hdr n)))"
    then have "i < ?m" using len by simp
    then show "take ?m (index_slots (grown hdr n)) ! i = map (\<lambda>i. index_slots hdr ! ((?t + 1 + i) mod ?m)) [0..<?m] ! i"
      using grown_old_slot [OF ok, of i] by simp
  qed
  have perm: "(?t + 1 + i) mod ?m \<noteq> (?t + 1 + j) mod ?m" if "i < j" "j < ?m" for i j
  proof
    assume "(?t + 1 + i) mod ?m = (?t + 1 + j) mod ?m"
    then have "?m dvd (?t + 1 + j) - (?t + 1 + i)" using that by (subst mod_eq_dvd_iff_nat [symmetric]) auto
    then show False using that by (auto dest: dvd_imp_le)
  qed
  have dist: "distinct (map (\<lambda>i. index_slots hdr ! ((?t + 1 + i) mod ?m)) [0..<?m])"
    unfolding distinct_map using sl(1,2) c(4) perm
    by (auto simp: inj_on_def nth_eq_iff_index_eq) (metis linorder_neqE_nat)
  have sub: "set (map (\<lambda>i. index_slots hdr ! ((?t + 1 + i) mod ?m)) [0..<?m]) \<subseteq> {..<n}"
    using sl(1,3) c(4) by (auto intro!: subsetD [OF sl(3)] nth_mem)
  have split: "index_slots (grown hdr n) = map (\<lambda>i. index_slots hdr ! ((?t + 1 + i) mod ?m)) [0..<?m] @ [n..<n + ?m]"
  proof -
    have "drop ?m (index_slots (grown hdr n)) = [n..<n + ?m]" by (simp add: grown_def)
    then show ?thesis using append_take_drop_id [of ?m "index_slots (grown hdr n)"] unfolding old by simp
  qed
  note cap' = grown_capacity [OF ok small] and t' = grown_tail [OF ok small]
  show ?thesis unfolding header_ok_def
  proof (intro conjI)
    show "\<exists>k\<ge>5. k \<le> 58 \<and> unat (capacity (grown hdr n)) = 2 ^ k"
      using cap' c c58 by (intro exI [of _ "Suc c"]) simp
    show "length (index_slots (grown hdr n)) = unat (capacity (grown hdr n))" unfolding cap' by (simp add: grown_def)
    show "distinct (index_slots (grown hdr n))" unfolding split using dist sub by auto
    show "set (index_slots (grown hdr n)) \<subseteq> {..<n + ?m}" unfolding split using sub by auto
    show "unat (index_tail (grown hdr n)) < unat (capacity (grown hdr n))" unfolding cap' t' using c(4) by simp
  qed
qed

lemma ring_slot_grown:
  assumes ok: "header_ok hdr n" and small: "unat (capacity hdr) < 2 ^ 58"
  shows "d < unat (capacity hdr) \<Longrightarrow> ring_slot (grown hdr n) d = ring_slot hdr d"
    and "unat (capacity hdr) \<le> d \<Longrightarrow> d < 2 * unat (capacity hdr) \<Longrightarrow>
      n \<le> ring_slot (grown hdr n) d \<and> ring_slot (grown hdr n) d < n + unat (capacity hdr)"
proof -
  let ?m = "unat (capacity hdr)" and ?t = "unat (index_tail hdr)"
  have m: "0 < ?m" using ok by (rule header_ok_pos)
  note ok' = grown_ok [OF ok small] and cap' = grown_capacity [OF ok small] and t' = grown_tail [OF ok small]
  show "ring_slot (grown hdr n) d = ring_slot hdr d" if d: "d < ?m"
  proof -
    have "ring_pos (grown hdr n) d = ?m - 1 - d" using d m by (simp add: ring_pos_cases [OF ok'] cap' t')
    moreover have "?t + 1 + (?m - 1 - d) = ?t + ?m - d" using d m by simp
    ultimately show ?thesis using grown_old_slot [OF ok, of "?m - 1 - d"] d m
      by (simp add: ring_slot_def ring_pos_def)
  qed
  show "n \<le> ring_slot (grown hdr n) d \<and> ring_slot (grown hdr n) d < n + ?m" if d: "?m \<le> d" "d < 2 * ?m"
  proof -
    let ?j = "2 * ?m - 1 - d"
    have j: "?j < ?m" using d m by simp
    have pos: "ring_pos (grown hdr n) d = ?m + ?j" using d m by (simp add: ring_pos_cases [OF ok'] cap' t')
    show ?thesis using j unfolding ring_slot_def pos grown_new_slot [OF j] by simp
  qed
qed

section \<open>Looking up\<close>

text \<open>
  The unsigned division gives \<open>2 ^ 59 - d\<close> for a block \<open>d\<close> places back, which the mask
  reduces to the right position, since the capacity divides \<open>2 ^ 59\<close>.
\<close>

lemma lookup_slot:
  assumes hdr: "blockIndex p = Some hdr" and ok: "header_ok hdr n"
    and key: "entry_key (entries p (ring_slot hdr 0)) = of_nat (32 * l)"
    and i: "i div 32 \<le> l" "l - i div 32 < unat (capacity hdr)"
  shows "get_block_index_entry_for_index (of_nat i) p = ring_slot hdr (l - i div 32)"
proof -
  obtain c where c: "unat (capacity hdr) = 2 ^ c" "c \<le> 58" "unat (index_tail hdr) < unat (capacity hdr)"
    using ok by (auto elim: header_okE)
  let ?d = "l - i div 32" and ?t = "unat (index_tail hdr)"
  have "(2 :: nat) ^ c \<le> 2 ^ 58" using c(2) by (intro power_increasing) simp_all
  then have d58: "?d < 2 ^ 58" using i(2) c(1) by simp
  have base: "index_slots hdr ! unat (index_tail hdr) = ring_slot hdr 0"
    using ring_pos_cases [OF ok, of 0] by (simp add: ring_slot_def)
  have diff: "of_nat (32 * (i div 32)) - of_nat (32 * l) = - (of_nat (32 * ?d) :: c_size)"
    using of_nat_diff_word [of "32 * (i div 32)" "32 * l"] i(1) by (simp add: diff_mult_distrib2)
  have off: "unat ((of_nat (32 * (i div 32)) - of_nat (32 * l)) div BLOCK_SIZE) = (if ?d = 0 then 0 else 2 ^ 59 - ?d)"
  proof (cases "?d = 0")
    case False
    then have "unat (- (of_nat (32 * ?d) :: c_size)) = 2 ^ 64 - 32 * ?d" using d58 by (intro unat_neg_of_nat) simp_all
    then have "unat (- (of_nat (32 * ?d) :: c_size) div BLOCK_SIZE) = (2 ^ 64 - 32 * ?d) div 32"
      by (simp add: unat_div BLOCK_SIZE_def)
    also have "2 ^ 64 - 32 * ?d = 32 * (2 ^ 59 - ?d)" by (simp add: diff_mult_distrib2)
    finally show ?thesis unfolding diff using False by simp
  next
    case True
    then have "l = i div 32" using i(1) by simp
    then show ?thesis by (simp add: BLOCK_SIZE_def)
  qed
  have "unat (get_block_index_index_for_index (of_nat i) p) = ring_pos hdr ?d"
  proof -
    let ?o = "(of_nat (32 * (i div 32)) - of_nat (32 * l)) div BLOCK_SIZE :: c_size"
    have "get_block_index_index_for_index (of_nat i) p = (index_tail hdr + ?o) AND (capacity hdr - 1)"
      using hdr key base block_base [of i] by (simp add: get_block_index_index_for_index_def Let_def)
    then have u: "unat (get_block_index_index_for_index (of_nat i) p) = (?t + unat ?o) mod 2 ^ c"
      using masked [OF c(1), of "index_tail hdr + ?o"] mod_64_mod [of c "?t + unat ?o"] c(2)
      by (simp add: unat_word_ariths)
    show ?thesis
    proof (cases "?d = 0")
      case True
      then show ?thesis using u off c by (simp add: ring_pos_cases [OF ok])
    next
      case False
      have "(2 :: nat) ^ 59 = 2 ^ c * 2 ^ (59 - c)" using c(2) by (simp flip: power_add del: power_numeral)
      then obtain r where r: "(2 :: nat) ^ 59 = 2 ^ c * Suc r" by (metis gr0_implies_Suc zero_less_power zero_less_numeral)
      have off': "unat ?o = 2 ^ 59 - ?d" unfolding off using False by (rule if_not_P)
      have "?t + unat ?o = ?t + 2 ^ 59 - ?d" unfolding off' using d58 by (intro Nat.add_diff_assoc) simp
      also have "\<dots> = (?t + 2 ^ c - ?d) + r * 2 ^ c" unfolding r using i(2) c(1) by (simp add: algebra_simps)
      finally have "(?t + unat ?o) mod 2 ^ c = (?t + 2 ^ c - ?d) mod 2 ^ c" by simp
      then show ?thesis using u c(1) by (simp add: ring_pos_def)
    qed
  qed
  then show ?thesis using hdr by (simp add: get_block_index_entry_for_index_def ring_slot_def)
qed

section \<open>The hash\<close>

definition xor_shift :: "c_size \<Rightarrow> c_size" where
  "xor_shift h = h XOR drop_bit 33 h"

lemma xor_shift_involution: "xor_shift (xor_shift h) = h"
  by (rule bit_eqI) (auto simp: xor_shift_def bit_simps)

text \<open>The inverse multiplies with the inverses of the two odd constants.\<close>

definition hash64_inverse :: "c_size \<Rightarrow> c_size" where
  "hash64_inverse h = xor_shift (xor_shift (xor_shift h * 0x9cb4b2f8129337db) * 0x4f74430c22a54005)"

lemma hash64_alt: "hash64 h = xor_shift (xor_shift (xor_shift h * 0xff51afd7ed558ccd) * 0xc4ceb9fe1a85ec53)"
  by (simp add: hash64_def xor_shift_def Let_def)

text \<open>
  The hash of thread identifiers loses nothing: it has an inverse, so two threads never
  have the same hash.
\<close>

theorem hash64_round_trip: "hash64_inverse (hash64 h) = h"
proof -
  have c: "(0xff51afd7ed558ccd :: c_size) * 0x4f74430c22a54005 = 1" "(0xc4ceb9fe1a85ec53 :: c_size) * 0x9cb4b2f8129337db = 1" by simp_all
  show ?thesis unfolding hash64_alt hash64_inverse_def by (simp only: xor_shift_involution mult.assoc c mult_1_right)
qed

end
