(* ===== verification/CQHash.thy ===== *)
theory CQHash
  imports CQIndex
begin

text \<open>
  The implicit producers of threads: \<open>get_or_add_implicit_producer\<close> of \<open>inc/concurrentqueue.h\<close>
  finds the producer of the calling thread in a chain of hash tables with linear probing, or
  makes one and enters it, growing the table when it is half full.  This theory has the tables;
  the operations run one after the other.

  Threads are identified by the address of a thread-local variable, which is not null.  The
  library is built without \<open>MOODYCAMEL_CPP11_THREAD_LOCAL_SUPPORTED\<close>, so entries are never
  given up and producers never recycled.
\<close>

section \<open>Tables\<close>

type_synonym thread_id = c_size

definition invalid_thread_id :: thread_id where
  "invalid_thread_id = 0"

definition hash_thread_id :: "thread_id \<Rightarrow> c_size" where
  "hash_thread_id tid = hash64 tid"

record ImplicitProducerKVP =
  kvp_key :: thread_id
  kvp_value :: "nat option"

record ImplicitProducerHash =
  hash_capacity :: c_size
  hash_entries :: "ImplicitProducerKVP list"

text \<open>
  The loops that probe a table: the first stops at the identifier (its position) or at an empty
  entry (\<open>None\<close>), the second at an empty entry.
\<close>

partial_function (option) probe_id ::
    "thread_id \<Rightarrow> ImplicitProducerHash \<Rightarrow> c_size \<Rightarrow> nat option option" where
  "probe_id tid hash idx =
     (let idx = idx AND (hash_capacity hash - 1);
          probedKey = kvp_key (hash_entries hash ! unat idx)
      in if probedKey = tid then Some (Some (unat idx))
         else if probedKey = invalid_thread_id then Some None
         else probe_id tid hash (idx + 1))"

partial_function (option) probe_empty :: "ImplicitProducerHash \<Rightarrow> c_size \<Rightarrow> nat option" where
  "probe_empty hash idx =
     (let idx = idx AND (hash_capacity hash - 1)
      in if kvp_key (hash_entries hash ! unat idx) = invalid_thread_id then Some (unat idx)
         else probe_empty hash (idx + 1))"

text \<open>Entering an identifier with its producer.\<close>

definition enter_id :: "thread_id \<Rightarrow> nat option \<Rightarrow> ImplicitProducerHash \<Rightarrow> ImplicitProducerHash option" where
  "enter_id tid v hash = (case probe_empty hash (hash_thread_id tid) of
     None \<Rightarrow> None
   | Some i \<Rightarrow> Some (hash\<lparr>hash_entries := (hash_entries hash)[i := \<lparr>kvp_key = tid, kvp_value = v\<rparr>]\<rparr>))"

text \<open>The loop over the tables, the newest first: the number of the table and the producer.\<close>

fun search_hashes :: "thread_id \<Rightarrow> ImplicitProducerHash list \<Rightarrow> nat \<Rightarrow> (nat \<times> nat option) option option" where
  "search_hashes tid [] n = Some None"
| "search_hashes tid (hash # hashes) n = (case probe_id tid hash (hash_thread_id tid) of
     None \<Rightarrow> None
   | Some (Some i) \<Rightarrow> Some (Some (n, kvp_value (hash_entries hash ! i)))
   | Some None \<Rightarrow> search_hashes tid hashes (Suc n))"

text \<open>An empty table, and the capacity of the next one.\<close>

definition new_hash :: "c_size \<Rightarrow> ImplicitProducerHash" where
  "new_hash cap = \<lparr>hash_capacity = cap,
     hash_entries = replicate (unat cap) \<lparr>kvp_key = invalid_thread_id, kvp_value = None\<rparr>\<rparr>"

partial_function (option) grow_capacity :: "c_size \<Rightarrow> c_size \<Rightarrow> c_size option" where
  "grow_capacity newCount newCapacity =
     (if newCount \<ge> drop_bit 1 newCapacity then grow_capacity newCount (push_bit 1 newCapacity) else Some newCapacity)"

definition INITIAL_IMPLICIT_PRODUCER_HASH_SIZE :: c_size where
  "INITIAL_IMPLICIT_PRODUCER_HASH_SIZE = 32"

section \<open>Linear probing\<close>

definition start_of :: "nat \<Rightarrow> thread_id \<Rightarrow> nat" where
  "start_of n tid = unat (hash_thread_id tid) mod n"

abbreviation key_at :: "ImplicitProducerHash \<Rightarrow> nat \<Rightarrow> thread_id" where
  "key_at hash i \<equiv> kvp_key (hash_entries hash ! i)"

definition hash_keys :: "ImplicitProducerHash \<Rightarrow> thread_id set" where
  "hash_keys hash = kvp_key ` set (hash_entries hash) - {0}"

text \<open>
  A table: a power of two of entries, identifiers once, every one reached from its start over
  entries in use, and at least one entry empty.
\<close>

definition table_ok :: "ImplicitProducerHash \<Rightarrow> bool" where
  "table_ok hash \<longleftrightarrow> (let n = length (hash_entries hash) in
     (\<exists>c\<ge>5. c < 64 \<and> n = 2 ^ c) \<and> unat (hash_capacity hash) = n \<and>
     (\<forall>i<n. \<forall>j<n. key_at hash i = key_at hash j \<longrightarrow> key_at hash i \<noteq> 0 \<longrightarrow> i = j) \<and>
     (\<forall>i<n. key_at hash i \<noteq> 0 \<longrightarrow>
        (\<exists>d<n. i = (start_of n (key_at hash i) + d) mod n \<and>
           (\<forall>j<d. key_at hash ((start_of n (key_at hash i) + j) mod n) \<noteq> 0))) \<and>
     (\<exists>i<n. key_at hash i = 0))"

abbreviation hash_size :: "ImplicitProducerHash \<Rightarrow> nat" where
  "hash_size hash \<equiv> length (hash_entries hash)"

lemma table_okD:
  assumes "table_ok hash"
  shows "\<exists>c\<ge>5. c < 64 \<and> hash_size hash = 2 ^ c" "unat (hash_capacity hash) = hash_size hash"
    "\<And>i j. i < hash_size hash \<Longrightarrow> j < hash_size hash \<Longrightarrow> key_at hash i = key_at hash j \<Longrightarrow> key_at hash i \<noteq> 0 \<Longrightarrow> i = j"
    "\<And>i. i < hash_size hash \<Longrightarrow> key_at hash i \<noteq> 0 \<Longrightarrow>
       \<exists>d<hash_size hash. i = (start_of (hash_size hash) (key_at hash i) + d) mod hash_size hash \<and>
         (\<forall>j<d. key_at hash ((start_of (hash_size hash) (key_at hash i) + j) mod hash_size hash) \<noteq> 0)"
    "\<exists>i<hash_size hash. key_at hash i = 0"
  using assms unfolding table_ok_def Let_def by blast+

text \<open>Positions along a probe.\<close>

lemma probe_position:
  assumes "unat (cap :: c_size) = n" "n = 2 ^ c" "c < 64"
  shows "unat (w AND (cap - 1)) = unat w mod n"
    "unat ((w AND (cap - 1)) + 1) mod n = Suc (unat w) mod n"
proof -
  show m: "unat (w AND (cap - 1)) = unat w mod n" using masked [of cap c w] assms by simp
  have "(2 :: nat) ^ c \<le> 2 ^ 63" using assms(3) by (intro power_increasing) simp_all
  then have "n < 2 ^ 64" using assms(2) by simp
  moreover have "unat w mod n < n" using assms(2) by simp
  ultimately have "Suc (unat (w AND (cap - 1))) < 2 ^ LENGTH(64)" unfolding m by simp
  then have "unat ((w AND (cap - 1)) + 1) = Suc (unat (w AND (cap - 1)))" by (simp add: unat_word_ariths)
  then show "unat ((w AND (cap - 1)) + 1) mod n = Suc (unat w) mod n" unfolding m by (simp add: mod_Suc_eq)
qed

lemma probe_id_run:
  assumes cap: "unat (hash_capacity hash) = n" "n = 2 ^ c" "c < 64"
    and path: "\<forall>j<d. key_at hash ((p + j) mod n) \<noteq> tid \<and> key_at hash ((p + j) mod n) \<noteq> 0"
    and stop: "key_at hash ((p + d) mod n) = tid \<or> key_at hash ((p + d) mod n) = 0"
    and w: "unat w mod n = p mod n"
  shows "probe_id tid hash w =
    Some (if key_at hash ((p + d) mod n) = tid then Some ((p + d) mod n) else None)"
  using path stop w
proof (induction d arbitrary: p w)
  case 0
  then show ?case using probe_position(1) [OF cap, of w]
    by (subst probe_id.simps) (auto simp: Let_def invalid_thread_id_def)
next
  case (Suc d)
  have here: "key_at hash (p mod n) \<noteq> tid" "key_at hash (p mod n) \<noteq> 0" using Suc.prems(1) by (auto dest: spec [of _ 0])
  have "\<forall>j<d. key_at hash ((Suc p + j) mod n) \<noteq> tid \<and> key_at hash ((Suc p + j) mod n) \<noteq> 0"
    using Suc.prems(1) by (auto dest: spec [of _ "Suc j" for j])
  moreover have "unat ((w AND (hash_capacity hash - 1)) + 1) mod n = Suc p mod n"
    using probe_position(2) [OF cap, of w] Suc.prems(3) by (metis mod_Suc_eq)
  ultimately have "probe_id tid hash ((w AND (hash_capacity hash - 1)) + 1) =
      Some (if key_at hash ((Suc p + d) mod n) = tid then Some ((Suc p + d) mod n) else None)"
    using Suc.prems(2) by (intro Suc.IH) simp_all
  moreover have "unat (w AND (hash_capacity hash - 1)) = p mod n" using probe_position(1) [OF cap] Suc.prems(3) by simp
  ultimately show ?case using here by (subst probe_id.simps) (simp add: Let_def invalid_thread_id_def)
qed

lemma probe_empty_run:
  assumes cap: "unat (hash_capacity hash) = n" "n = 2 ^ c" "c < 64"
    and path: "\<forall>j<d. key_at hash ((p + j) mod n) \<noteq> 0" and stop: "key_at hash ((p + d) mod n) = 0"
    and w: "unat w mod n = p mod n"
  shows "probe_empty hash w = Some ((p + d) mod n)"
  using path stop w
proof (induction d arbitrary: p w)
  case 0
  then show ?case using probe_position(1) [OF cap, of w]
    by (subst probe_empty.simps) (simp add: Let_def invalid_thread_id_def)
next
  case (Suc d)
  have "key_at hash (p mod n) \<noteq> 0" using Suc.prems(1) by (auto dest: spec [of _ 0])
  moreover have "\<forall>j<d. key_at hash ((Suc p + j) mod n) \<noteq> 0" using Suc.prems(1) by (auto dest: spec [of _ "Suc j" for j])
  moreover have "unat ((w AND (hash_capacity hash - 1)) + 1) mod n = Suc p mod n"
    using probe_position(2) [OF cap, of w] Suc.prems(3) by (metis mod_Suc_eq)
  ultimately have "probe_empty hash ((w AND (hash_capacity hash - 1)) + 1) = Some ((Suc p + d) mod n)"
    using Suc.prems(2) by (intro Suc.IH) simp_all
  moreover have "unat (w AND (hash_capacity hash - 1)) = p mod n" using probe_position(1) [OF cap] Suc.prems(3) by simp
  ultimately show ?case using \<open>key_at hash (p mod n) \<noteq> 0\<close>
    by (subst probe_empty.simps) (simp add: Let_def invalid_thread_id_def)
qed

section \<open>Finding and entering\<close>

lemma ring_reach: "i < (n :: nat) \<Longrightarrow> \<exists>d<n. (p mod n + d) mod n = i"
proof -
  assume i: "i < n"
  have p: "p mod n < n" using i by simp
  show ?thesis
  proof (cases "p mod n \<le> i")
    case True
    then show ?thesis using i by (intro exI [of _ "i - p mod n"]) simp
  next
    case False
    then have "p mod n + (n + i - p mod n) = n + i" using p by simp
    then show ?thesis using i False p by (intro exI [of _ "n + i - p mod n"]) simp
  qed
qed

lemma first_empty:
  assumes "\<exists>i<(n :: nat). f i = (0 :: thread_id)" and p: "p < n"
  shows "\<exists>d<n. f ((p + d) mod n) = 0 \<and> (\<forall>j<d. f ((p + j) mod n) \<noteq> 0)"
proof -
  obtain i where i: "i < n" "f i = 0" using assms by blast
  obtain d where d: "d < n" "(p + d) mod n = i" using ring_reach [OF i(1), of p] p by auto
  define l where "l = (LEAST d. f ((p + d) mod n) = 0)"
  have "f ((p + l) mod n) = 0" unfolding l_def using d i by (metis (mono_tags, lifting) LeastI)
  moreover have "l \<le> d" unfolding l_def using d i by (intro Least_le) simp
  moreover have "f ((p + j) mod n) \<noteq> 0" if "j < l" for j using that not_less_Least unfolding l_def by blast
  ultimately show ?thesis using d(1) le_less_trans by blast
qed

lemma hash_keys_iff: "tid \<noteq> 0 \<Longrightarrow> tid \<in> hash_keys hash \<longleftrightarrow> (\<exists>i<hash_size hash. key_at hash i = tid)"
  unfolding hash_keys_def by (fastforce simp: in_set_conv_nth image_iff)

lemma start_less: "0 < n \<Longrightarrow> start_of n tid < n"
  by (simp add: start_of_def)

lemma ring_position_eq:
  assumes "j \<le> d" "d < (n :: nat)" "(p + j) mod n = (p + d) mod n"
  shows "j = d"
proof -
  have "n dvd (p + d) - (p + j)" using assms mod_eq_dvd_iff_nat [of "p + j" "p + d" n] by simp
  then show ?thesis using assms(1,2) nat_dvd_not_less [of "d - j" n] by (cases "j = d") auto
qed

lemma probe_id_ok:
  assumes ok: "table_ok hash" and tid: "tid \<noteq> 0"
  shows "\<exists>r. probe_id tid hash (hash_thread_id tid) = Some r \<and>
    (case r of None \<Rightarrow> tid \<notin> hash_keys hash | Some i \<Rightarrow> i < hash_size hash \<and> key_at hash i = tid)"
proof -
  note D = table_okD [OF ok]
  obtain c where c: "c < 64" "hash_size hash = 2 ^ c" using D(1) by blast
  let ?n = "hash_size hash" and ?p = "start_of (hash_size hash) tid"
  have n: "0 < ?n" using c by simp
  have w: "unat (hash_thread_id tid) mod ?n = ?p mod ?n" by (simp add: start_of_def)
  note run = probe_id_run [OF D(2) c(2,1) _ _ w, of _ tid]
  show ?thesis
  proof (cases "tid \<in> hash_keys hash")
    case True
    then obtain i where i: "i < ?n" "key_at hash i = tid" using hash_keys_iff [OF tid] by blast
    obtain d where d: "d < ?n" "i = (?p + d) mod ?n" "\<forall>j<d. key_at hash ((?p + j) mod ?n) \<noteq> 0"
      using D(4) [OF i(1)] i(2) tid by blast
    have "key_at hash ((?p + j) mod ?n) \<noteq> tid" if "j < d" for j
    proof
      assume "key_at hash ((?p + j) mod ?n) = tid"
      then have "(?p + j) mod ?n = i" using D(3) [of "(?p + j) mod ?n" i] i n tid by simp
      then show False using ring_position_eq [of j d ?n ?p] that d(1,2) by simp
    qed
    then have "probe_id tid hash (hash_thread_id tid) = Some (Some i)" using run [of d] d i by simp
    then show ?thesis using i by simp
  next
    case False
    then have no: "key_at hash i \<noteq> tid" if "i < ?n" for i using that hash_keys_iff [OF tid] by blast
    obtain d where d: "d < ?n" "key_at hash ((?p + d) mod ?n) = 0" "\<forall>j<d. key_at hash ((?p + j) mod ?n) \<noteq> 0"
      using first_empty [OF D(5) start_less [OF n]] by blast
    then have "probe_id tid hash (hash_thread_id tid) = Some None" using run [of d] no n tid by simp
    then show ?thesis using False by simp
  qed
qed

definition hash_pairs :: "ImplicitProducerHash \<Rightarrow> (thread_id \<times> nat option) set" where
  "hash_pairs hash = {(key_at hash i, kvp_value (hash_entries hash ! i)) | i. i < hash_size hash \<and> key_at hash i \<noteq> 0}"

lemma hash_keys_pairs: "hash_keys hash = fst ` hash_pairs hash"
proof (rule set_eqI)
  fix k
  show "k \<in> hash_keys hash \<longleftrightarrow> k \<in> fst ` hash_pairs hash"
  proof (cases "k = 0")
    case True
    then show ?thesis by (auto simp: hash_keys_def hash_pairs_def)
  next
    case False
    then show ?thesis unfolding hash_keys_iff [OF False] by (auto simp: hash_pairs_def image_iff)
  qed
qed

lemma used_entries:
  assumes "table_ok hash"
  shows "card {i. i < hash_size hash \<and> key_at hash i \<noteq> 0} = card (hash_keys hash)"
proof -
  have "bij_betw (key_at hash) {i. i < hash_size hash \<and> key_at hash i \<noteq> 0} (hash_keys hash)"
    using table_okD(3) [OF assms] hash_keys_iff [of _ hash]
    by (intro bij_betwI') (auto simp: hash_keys_def image_iff in_set_conv_nth)
  then show ?thesis by (rule bij_betw_same_card)
qed

lemma another_empty:
  assumes ok: "table_ok hash" and room: "Suc (card (hash_keys hash)) < hash_size hash"
  shows "\<exists>k<hash_size hash. key_at hash k = 0 \<and> k \<noteq> i"
proof (rule ccontr)
  let ?U = "{i. i < hash_size hash \<and> key_at hash i \<noteq> 0}"
  assume "\<not> (\<exists>k<hash_size hash. key_at hash k = 0 \<and> k \<noteq> i)"
  then have "{..<hash_size hash} \<subseteq> insert i ?U" by auto
  then have "hash_size hash \<le> card (insert i ?U)" using card_mono [of "insert i ?U" "{..<hash_size hash}"] by simp
  also have "\<dots> \<le> Suc (card (hash_keys hash))" unfolding used_entries [OF ok, symmetric] by (rule card_insert_le_m1) simp_all
  finally show False using room by simp
qed

lemma enter_id_ok:
  assumes ok: "table_ok hash" and tid: "tid \<noteq> 0" "tid \<notin> hash_keys hash"
    and room: "Suc (card (hash_keys hash)) < hash_size hash"
  shows "\<exists>hash'. enter_id tid v hash = Some hash' \<and> table_ok hash' \<and> hash_pairs hash' = insert (tid, v) (hash_pairs hash) \<and>
    hash_size hash' = hash_size hash"
proof -
  note D = table_okD [OF ok]
  obtain c where c: "c < 64" "hash_size hash = 2 ^ c" using D(1) by blast
  let ?n = "hash_size hash"
  have n: "0 < ?n" using c by simp
  obtain d where d: "d < ?n" "key_at hash ((start_of ?n tid + d) mod ?n) = 0"
      "\<forall>j<d. key_at hash ((start_of ?n tid + j) mod ?n) \<noteq> 0"
    using first_empty [OF D(5) start_less [OF n]] by blast
  define i where "i = (start_of ?n tid + d) mod ?n"
  have i: "i < ?n" "key_at hash i = 0" using n d by (simp_all add: i_def)
  let ?h = "hash\<lparr>hash_entries := (hash_entries hash)[i := \<lparr>kvp_key = tid, kvp_value = v\<rparr>]\<rparr>"
  have "probe_empty hash (hash_thread_id tid) = Some i"
    unfolding i_def using d by (intro probe_empty_run [OF D(2) c(2,1)]) (simp_all add: start_of_def)
  then have en: "enter_id tid v hash = Some ?h" by (simp add: enter_id_def)
  have key: "key_at ?h k = (if k = i then tid else key_at hash k)" if "k < ?n" for k
    using that i(1) by simp
  have used: "key_at ?h k \<noteq> 0" if "k < ?n" "key_at hash k \<noteq> 0" for k using that key i(2) tid by auto
  have old: "key_at hash k \<noteq> tid" if "k < ?n" for k using that tid hash_keys_iff by blast
  have "k = l" if "k < ?n" "l < ?n" "key_at ?h k = key_at ?h l" "key_at ?h k \<noteq> 0" for k l
    using that key old D(3) [of k l] by (auto split: if_splits)
  moreover have "\<exists>d<?n. k = (start_of ?n (key_at ?h k) + d) mod ?n \<and>
      (\<forall>j<d. key_at ?h ((start_of ?n (key_at ?h k) + j) mod ?n) \<noteq> 0)" if k: "k < ?n" "key_at ?h k \<noteq> 0" for k
  proof (cases "k = i")
    case True
    then have kt: "key_at ?h k = tid" using key k by simp
    have "key_at ?h ((start_of ?n tid + j) mod ?n) \<noteq> 0" if "j < d" for j using used [of "(start_of ?n tid + j) mod ?n"] d(3) that n by simp
    then show ?thesis unfolding kt using True d(1) i_def by blast
  next
    case False
    then have kk: "key_at ?h k = key_at hash k" using key k by simp
    then obtain e where "e < ?n" "k = (start_of ?n (key_at hash k) + e) mod ?n"
        "\<forall>j<e. key_at hash ((start_of ?n (key_at hash k) + j) mod ?n) \<noteq> 0"
      using D(4) [OF k(1)] k(2) by auto
    then show ?thesis unfolding kk using used n by (intro exI [of _ e]) simp
  qed
  moreover have "\<exists>k<?n. key_at ?h k = 0" using another_empty [OF ok room, of i] key by auto
  ultimately have "table_ok ?h" unfolding table_ok_def Let_def using D(1,2) by simp
  moreover have "hash_pairs ?h = insert (tid, v) (hash_pairs hash)"
  proof (rule set_eqI)
    fix x
    have "x \<in> hash_pairs ?h \<longleftrightarrow> (\<exists>k<?n. key_at ?h k \<noteq> 0 \<and> x = (key_at ?h k, kvp_value (hash_entries ?h ! k)))"
      by (auto simp: hash_pairs_def)
    also have "\<dots> \<longleftrightarrow> x = (tid, v) \<or> (\<exists>k<?n. key_at hash k \<noteq> 0 \<and> x = (key_at hash k, kvp_value (hash_entries hash ! k)))"
      using i tid(1) by (auto simp: nth_list_update split: if_splits)
    also have "\<dots> \<longleftrightarrow> x \<in> insert (tid, v) (hash_pairs hash)" by (auto simp: hash_pairs_def)
    finally show "x \<in> hash_pairs ?h \<longleftrightarrow> x \<in> insert (tid, v) (hash_pairs hash)" .
  qed
  ultimately show ?thesis using en by simp
qed

lemma new_hash_ok:
  assumes "unat cap = 2 ^ c" "5 \<le> c" "c < 64"
  shows "table_ok (new_hash cap)" "hash_pairs (new_hash cap) = {}" "hash_size (new_hash cap) = 2 ^ c"
proof -
  have z: "i < 2 ^ c \<Longrightarrow> key_at (new_hash cap) i = 0" for i by (simp add: new_hash_def assms(1) invalid_thread_id_def)
  show sz: "hash_size (new_hash cap) = 2 ^ c" by (simp add: new_hash_def assms)
  show "hash_pairs (new_hash cap) = {}" using z by (auto simp: hash_pairs_def sz)
  have "hash_capacity (new_hash cap) = cap" by (simp add: new_hash_def)
  then show "table_ok (new_hash cap)" unfolding table_ok_def Let_def sz using assms z by (auto intro: exI [of _ 0])
qed

end
