(* ===== verification/CQPool.thy ===== *)
theory CQPool
  imports CQueue
begin

text \<open>
  The blocks of a queue that no producer uses: the rest of the initial pool and the free list,
  a chain of blocks with reference count 1.  \<open>free_list_add\<close> and \<open>requisition_block\<close> move a
  block between the pool and the set of blocks in use.
\<close>

primrec free_chain :: "(nat \<Rightarrow> nat option) \<Rightarrow> nat option \<Rightarrow> nat list \<Rightarrow> bool" where
  "free_chain nx h [] \<longleftrightarrow> h = None"
| "free_chain nx h (b # bs) \<longleftrightarrow> h = Some b \<and> free_chain nx (nx b) bs"

lemma free_chain_cong: "(\<And>b. b \<in> set bs \<Longrightarrow> nx b = nx' b) \<Longrightarrow> free_chain nx h bs = free_chain nx' h bs"
  by (induction bs arbitrary: h) auto

text \<open>
  \<open>pool_ok q fs used\<close>: \<open>fs\<close> are the blocks of the free list in order and \<open>used\<close> the blocks in
  use.
\<close>

definition pool_ok :: "'a cqueue \<Rightarrow> nat list \<Rightarrow> nat set \<Rightarrow> bool" where
  "pool_ok q fs used \<longleftrightarrow>
     free_chain (\<lambda>b. freeListNext (cblocks q b)) (freeListHead q) fs \<and> distinct fs \<and> set fs \<inter> used = {} \<and>
     (\<forall>b\<in>set fs. freeListRefs (cblocks q b) = 1) \<and> (\<forall>b\<in>used. freeListRefs (cblocks q b) = 0) \<and>
     unat (initialBlockPoolIndex q) \<le> unat (initialBlockPoolSize q) \<and>
     unat (initialBlockPoolSize q) \<le> block_count q \<and>
     (\<forall>b\<in>set fs \<union> used. b < block_count q \<and>
        (b < unat (initialBlockPoolIndex q) \<or> unat (initialBlockPoolSize q) \<le> b)) \<and>
     (\<forall>b. unat (initialBlockPoolIndex q) \<le> b \<and> b < unat (initialBlockPoolSize q) \<longrightarrow> freeListRefs (cblocks q b) = 0)"

lemma pool_okD:
  assumes "pool_ok q fs used"
  shows "free_chain (\<lambda>b. freeListNext (cblocks q b)) (freeListHead q) fs" "distinct fs" "set fs \<inter> used = {}"
    "\<And>b. b \<in> set fs \<Longrightarrow> freeListRefs (cblocks q b) = 1" "\<And>b. b \<in> used \<Longrightarrow> freeListRefs (cblocks q b) = 0"
    "unat (initialBlockPoolIndex q) \<le> unat (initialBlockPoolSize q)"
    "unat (initialBlockPoolSize q) \<le> block_count q"
    "\<And>b. b \<in> set fs \<union> used \<Longrightarrow> b < block_count q"
    "\<And>b. b \<in> set fs \<union> used \<Longrightarrow> b < unat (initialBlockPoolIndex q) \<or> unat (initialBlockPoolSize q) \<le> b"
    "\<And>b. unat (initialBlockPoolIndex q) \<le> b \<Longrightarrow> b < unat (initialBlockPoolSize q) \<Longrightarrow> freeListRefs (cblocks q b) = 0"
  using assms unfolding pool_ok_def by blast+

text \<open>The pool does not look at producers, elements or counts of dequeued elements.\<close>

lemma pool_ok_cong:
  assumes "\<And>b. freeListRefs (cblocks q' b) = freeListRefs (cblocks q b)"
    "\<And>b. freeListNext (cblocks q' b) = freeListNext (cblocks q b)"
    "freeListHead q' = freeListHead q" "block_count q' = block_count q"
    "initialBlockPoolIndex q' = initialBlockPoolIndex q" "initialBlockPoolSize q' = initialBlockPoolSize q"
  shows "pool_ok q' fs used = pool_ok q fs used"
  unfolding pool_ok_def by (simp add: assms)

lemma upd_cblock_fields [simp]:
  "block_count (upd_cblock b f q) = block_count q" "freeListHead (upd_cblock b f q) = freeListHead q"
  "initialBlockPoolIndex (upd_cblock b f q) = initialBlockPoolIndex q"
  "initialBlockPoolSize (upd_cblock b f q) = initialBlockPoolSize q" "producers (upd_cblock b f q) = producers q"
  "cblocks (upd_cblock b f q) c = (if c = b then f (cblocks q b) else cblocks q c)"
  by (simp_all add: upd_cblock_def)

lemma set_producer_fields [simp]:
  "block_count (set_producer i p q) = block_count q" "freeListHead (set_producer i p q) = freeListHead q"
  "initialBlockPoolIndex (set_producer i p q) = initialBlockPoolIndex q"
  "initialBlockPoolSize (set_producer i p q) = initialBlockPoolSize q"
  "cblocks (set_producer i p q) = cblocks q" "producers (set_producer i p q) = (producers q)[i := p]"
  by (simp_all add: set_producer_def)

lemma pool_ok_set_producer [simp]: "pool_ok (set_producer i p q) fs used = pool_ok q fs used"
  by (rule pool_ok_cong) simp_all

text \<open>Giving a block back.\<close>

lemma free_list_add_ok:
  assumes ok: "pool_ok q fs used" and b: "b \<in> used"
  shows "pool_ok (free_list_add b q) (b # fs) (used - {b})"
    "producers (free_list_add b q) = producers q"
    "c \<noteq> b \<Longrightarrow> cblocks (free_list_add b q) c = cblocks q c"
proof -
  note D = pool_okD [OF ok]
  have bf: "b \<notin> set fs" using D(3) b by auto
  have nb: "\<not> (unat (initialBlockPoolIndex q) \<le> b \<and> b < unat (initialBlockPoolSize q))" using D(9) [of b] b by auto
  have q': "cblocks (free_list_add b q) c =
      (if c = b then (cblocks q b)\<lparr>freeListRefs := 1, freeListNext := freeListHead q\<rparr> else cblocks q c)"
    "freeListHead (free_list_add b q) = Some b" for c
    using D(5) [OF b] by (simp_all add: free_list_add_def add_knowing_refcount_is_zero_def Let_def)
  have same: "block_count (free_list_add b q) = block_count q"
    "initialBlockPoolIndex (free_list_add b q) = initialBlockPoolIndex q"
    "initialBlockPoolSize (free_list_add b q) = initialBlockPoolSize q"
    by (simp_all add: free_list_add_def add_knowing_refcount_is_zero_def Let_def)
  show "producers (free_list_add b q) = producers q"
    by (simp add: free_list_add_def add_knowing_refcount_is_zero_def Let_def)
  show "c \<noteq> b \<Longrightarrow> cblocks (free_list_add b q) c = cblocks q c" using q' by simp
  have "free_chain (\<lambda>c. freeListNext (cblocks (free_list_add b q) c)) (freeListHead q) fs"
    using D(1) bf by (subst free_chain_cong [where nx' = "\<lambda>c. freeListNext (cblocks q c)"]) (auto simp: q')
  then show "pool_ok (free_list_add b q) (b # fs) (used - {b})"
    using ok bf b nb unfolding pool_ok_def same q'(2) by (auto simp: q'(1))
qed

text \<open>Getting a block.\<close>

lemma free_list_try_get_ok:
  assumes ok: "pool_ok q fs used"
  shows "\<exists>q'. free_list_try_get q = Some (case fs of [] \<Rightarrow> None | b # bs \<Rightarrow> Some b, q') \<and>
    pool_ok q' (tl fs) (used \<union> set (take 1 fs)) \<and> producers q' = producers q \<and>
    (\<forall>c. c \<notin> set (take 1 fs) \<longrightarrow> cblocks q' c = cblocks q c)"
proof (cases fs)
  case Nil
  then have "freeListHead q = None" using pool_okD(1) [OF ok] by simp
  then have "free_list_try_get q = Some (None, q)" by (subst free_list_try_get.simps) simp
  then show ?thesis using ok Nil by simp
next
  case (Cons b bs)
  note D = pool_okD [OF ok]
  have h: "freeListHead q = Some b" and ch: "free_chain (\<lambda>c. freeListNext (cblocks q c)) (freeListNext (cblocks q b)) bs"
    using D(1) Cons by simp_all
  have r: "freeListRefs (cblocks q b) = 1" using D(4) Cons by simp
  let ?q' = "(upd_cblock b (\<lambda>x. x\<lparr>freeListRefs := 0\<rparr>) q)\<lparr>freeListHead := freeListNext (cblocks q b)\<rparr>"
  have get: "free_list_try_get q = Some (Some b, ?q')"
    using h r by (subst free_list_try_get.simps) (simp add: Let_def REFS_MASK_def upd_cblock_def)
  have "free_chain (\<lambda>c. freeListNext (cblocks ?q' c)) (freeListHead ?q') bs"
    using ch by (subst free_chain_cong [where nx' = "\<lambda>c. freeListNext (cblocks q c)"]) auto
  then have "pool_ok ?q' bs (insert b used)"
    using ok unfolding pool_ok_def Cons by auto
  then show ?thesis using get Cons by auto
qed

lemma requisition_block_ok:
  assumes ok: "pool_ok q fs used"
  shows "\<exists>r q' fs'. requisition_block m mem q = Some (r, q') \<and> producers q' = producers q \<and>
    (\<forall>c\<in>used. cblocks q' c = cblocks q c) \<and>
    (case r of None \<Rightarrow> pool_ok q' fs' used \<and> \<not> (m = Can_alloc \<and> mem)
     | Some b \<Rightarrow> b \<notin> used \<and> pool_ok q' fs' (insert b used))"
proof (cases "initialBlockPoolIndex q < initialBlockPoolSize q")
  case True
  note D = pool_okD [OF ok]
  let ?b = "unat (initialBlockPoolIndex q)"
  let ?q' = "q\<lparr>initialBlockPoolIndex := initialBlockPoolIndex q + 1\<rparr>"
  have lt: "?b < unat (initialBlockPoolSize q)" using True by (simp add: word_less_nat_alt)
  have nu: "?b \<notin> set fs \<union> used" using D(9) [of ?b] lt by auto
  have "unat (initialBlockPoolSize q) < 2 ^ LENGTH(64)" by (rule unsigned_less)
  then have s: "unat (initialBlockPoolIndex q + 1) = Suc ?b" using lt by (simp add: unat_word_ariths)
  have "pool_ok ?q' fs (insert ?b used)"
    using ok nu lt unfolding pool_ok_def by (auto simp: s intro: less_SucI)
  moreover have "requisition_block m mem q = Some (Some ?b, ?q')"
    using True not_le [THEN iffD2, OF True] by (simp add: requisition_block_def try_get_block_from_initial_pool_def Let_def)
  ultimately show ?thesis using nu by (intro exI [of _ "Some ?b"] exI [of _ ?q'] exI [of _ fs]) simp
next
  case False
  then have pool: "try_get_block_from_initial_pool q = (None, q)"
    by (simp add: try_get_block_from_initial_pool_def)
  show ?thesis
  proof (cases fs)
    case (Cons b bs)
    obtain q' where q': "free_list_try_get q = Some (Some b, q')" "pool_ok q' bs (insert b used)"
      "producers q' = producers q" "\<And>c. c \<noteq> b \<Longrightarrow> cblocks q' c = cblocks q c"
      using free_list_try_get_ok [OF ok] Cons by auto
    have "b \<notin> used" using pool_okD(3) [OF ok] Cons by auto
    moreover have "requisition_block m mem q = Some (Some b, q')" using pool q'(1) by (simp add: requisition_block_def)
    moreover have "\<forall>c\<in>used. cblocks q' c = cblocks q c" using q'(4) \<open>b \<notin> used\<close> by metis
    ultimately show ?thesis using q' by (intro exI [of _ "Some b"] exI [of _ q'] exI [of _ bs]) simp
  next
    case Nil
    obtain q' where q': "free_list_try_get q = Some (None, q')" "pool_ok q' [] used"
      "producers q' = producers q" "\<And>c. cblocks q' c = cblocks q c"
      using free_list_try_get_ok [OF ok] Nil by auto
    note D = pool_okD [OF q'(2)]
    show ?thesis
    proof (cases "m = Can_alloc \<and> mem")
      case True
      let ?n = "block_count q'"
      let ?q = "(upd_cblock ?n (\<lambda>b. b\<lparr>elementsCompletelyDequeued := 0, freeListRefs := 0, freeListNext := None\<rparr>) q')
        \<lparr>block_count := Suc ?n\<rparr>"
      have nu: "?n \<notin> used" using D(8) by auto
      have "pool_ok ?q [] (insert ?n used)" using q'(2) nu unfolding pool_ok_def by (auto simp: less_Suc_eq)
      moreover have "requisition_block m mem q = Some (Some ?n, ?q)"
        using pool q'(1) True by (simp add: requisition_block_def)
      ultimately show ?thesis using nu q'
        by (intro exI [of _ "Some ?n"] exI [of _ ?q] exI [of _ "[]"]) auto
    next
      case False
      then have "requisition_block m mem q = Some (None, q')" using pool q'(1) by (auto simp: requisition_block_def)
      then show ?thesis using q' False by (intro exI [of _ None] exI [of _ q'] exI [of _ "[]"]) auto
    qed
  qed
qed

end
