(* ===== verification/CQProducer.thy ===== *)
theory CQProducer
  imports CQIndex CQPool
begin

text \<open>
  The invariant of an implicit producer and what \<open>enqueue\<close> and \<open>dequeue\<close> do to its elements.
  \<open>h\<close> and \<open>t\<close> are the numbers of the elements dequeued and enqueued so far, \<open>blk j\<close> the block
  that holds the elements \<open>32 * j, \<dots>, 32 * j + 31\<close>.
\<close>

section \<open>Invariant\<close>

text \<open>Blocks started, the first block in use, and the number of blocks in use.\<close>

abbreviation started :: "nat \<Rightarrow> nat" where
  "started t \<equiv> (t + 31) div 32"

abbreviation live :: "nat \<Rightarrow> nat \<Rightarrow> nat set" where
  "live h t \<equiv> {h div 32..<started t}"

definition entry_free :: "implicit_producer \<Rightarrow> nat \<Rightarrow> bool" where
  "entry_free p e \<longleftrightarrow> entry_key (entries p e) = INVALID_BLOCK_BASE \<or> entry_value (entries p e) = None"

definition index_ok :: "implicit_producer \<Rightarrow> index_header \<Rightarrow> nat \<Rightarrow> nat \<Rightarrow> (nat \<Rightarrow> nat) \<Rightarrow> bool" where
  "index_ok p hdr n m blk \<longleftrightarrow> n \<le> m \<and> n \<le> unat (capacity hdr) \<and>
     (\<forall>d<n. entries p (ring_slot hdr d) = \<lparr>entry_key = of_nat (32 * (m - 1 - d)), entry_value = Some (blk (m - 1 - d))\<rparr>) \<and>
     (\<forall>d<unat (capacity hdr). n \<le> d \<longrightarrow> entry_free p (ring_slot hdr d))"

definition prod_ok :: "implicit_producer \<Rightarrow> nat \<Rightarrow> nat \<Rightarrow> (nat \<Rightarrow> nat) \<Rightarrow> bool" where
  "prod_ok p h t blk \<longleftrightarrow> h \<le> t \<and> 32 * started t - h < 2 ^ 63 \<and>
     headIndex p = of_nat h \<and> tailIndex p = of_nat t \<and>
     dequeueOptimisticCount p = of_nat h \<and> dequeueOvercommit p = 0 \<and>
     (\<exists>hdr. blockIndex p = Some hdr \<and> header_ok hdr (entry_count p) \<and>
        nextBlockIndexCapacity p = 2 * capacity hdr \<and> index_ok p hdr (started t - h div 32) (started t) blk) \<and>
     inj_on blk (live h t) \<and>
     (t mod 32 \<noteq> 0 \<longrightarrow> prod_tailBlock p = Some (blk (t div 32)))"

text \<open>The count of elements completely dequeued from each block in use.\<close>

definition counts_ok :: "'a cqueue \<Rightarrow> nat \<Rightarrow> nat \<Rightarrow> (nat \<Rightarrow> nat) \<Rightarrow> bool" where
  "counts_ok q h t blk \<longleftrightarrow>
     (\<forall>j\<in>live h t. elementsCompletelyDequeued (cblocks q (blk j)) = of_nat (h - 32 * j))"

definition prod_contents :: "'a cqueue \<Rightarrow> nat \<Rightarrow> nat \<Rightarrow> (nat \<Rightarrow> nat) \<Rightarrow> 'a list" where
  "prod_contents q h t blk = map (\<lambda>i. elements (cblocks q (blk (i div 32))) (i mod 32)) [h..<t]"

abbreviation prod_blocks :: "nat \<Rightarrow> nat \<Rightarrow> (nat \<Rightarrow> nat) \<Rightarrow> nat set" where
  "prod_blocks h t blk \<equiv> blk ` live h t"

lemma prod_frame:
  assumes "\<And>b. b \<in> prod_blocks h t blk \<Longrightarrow> cblocks q' b = cblocks q b"
  shows "counts_ok q' h t blk = counts_ok q h t blk" "prod_contents q' h t blk = prod_contents q h t blk"
proof -
  show "counts_ok q' h t blk = counts_ok q h t blk" using assms by (auto simp: counts_ok_def)
  have "i div 32 \<in> live h t" if "i \<in> set [h..<t]" for i
  proof -
    have "h div 32 \<le> i div 32" "i div 32 < (t + 31) div 32" using that by (auto intro: div_le_mono)
    then show ?thesis by simp
  qed
  then show "prod_contents q' h t blk = prod_contents q h t blk"
    using assms unfolding prod_contents_def by (intro map_cong) auto
qed

lemma prod_okD:
  assumes "prod_ok p h t blk"
  shows "h \<le> t" "32 * started t - h < 2 ^ 63" "headIndex p = of_nat h" "tailIndex p = of_nat t"
    "dequeueOptimisticCount p = of_nat h" "dequeueOvercommit p = 0" "inj_on blk (live h t)"
    "t mod 32 \<noteq> 0 \<Longrightarrow> prod_tailBlock p = Some (blk (t div 32))"
    "\<exists>hdr. blockIndex p = Some hdr \<and> header_ok hdr (entry_count p) \<and>
        nextBlockIndexCapacity p = 2 * capacity hdr \<and> index_ok p hdr (started t - h div 32) (started t) blk"
  using assms unfolding prod_ok_def by blast+

lemma index_okD:
  assumes "index_ok p hdr n m blk"
  shows "n \<le> m" "n \<le> unat (capacity hdr)"
    "\<And>d. d < n \<Longrightarrow> entries p (ring_slot hdr d) = \<lparr>entry_key = of_nat (32 * (m - 1 - d)), entry_value = Some (blk (m - 1 - d))\<rparr>"
    "\<And>d. d < unat (capacity hdr) \<Longrightarrow> n \<le> d \<Longrightarrow> entry_free p (ring_slot hdr d)"
  using assms unfolding index_ok_def by blast+

section \<open>Inserting a block into the index\<close>

lemma key_not_invalid: "of_nat (32 * k) \<noteq> INVALID_BLOCK_BASE"
proof
  assume "of_nat (32 * k) = INVALID_BLOCK_BASE"
  then have "slot_of (of_nat (32 * k)) = slot_of INVALID_BLOCK_BASE" by simp
  then show False unfolding slot_of_nat by (simp add: slot_of_def BLOCK_SIZE_def INVALID_BLOCK_BASE_def)
qed

lemma index_ok_grown:
  assumes hdr: "blockIndex p = Some hdr" "header_ok hdr (entry_count p)" "nextBlockIndexCapacity p = 2 * capacity hdr"
    and ix: "index_ok p hdr n m blk" and small: "unat (capacity hdr) < 2 ^ 58"
  obtains p1 where "new_block_index True p = Some p1" "blockIndex p1 = Some (grown hdr (entry_count p))"
    "header_ok (grown hdr (entry_count p)) (entry_count p1)"
    "nextBlockIndexCapacity p1 = 2 * capacity (grown hdr (entry_count p))"
    "index_ok p1 (grown hdr (entry_count p)) n m blk"
    "tailIndex p1 = tailIndex p" "headIndex p1 = headIndex p" "dequeueOptimisticCount p1 = dequeueOptimisticCount p"
    "dequeueOvercommit p1 = dequeueOvercommit p" "prod_tailBlock p1 = prod_tailBlock p"
    "entry_key (entries p1 (ring_slot (grown hdr (entry_count p)) (2 * unat (capacity hdr) - 1))) = INVALID_BLOCK_BASE"
proof -
  let ?c = "unat (capacity hdr)" and ?n = "entry_count p" and ?g = "grown hdr (entry_count p)"
  note I = index_okD [OF ix]
  let ?p1 = "p\<lparr>entries := (\<lambda>e. if ?n \<le> e \<and> e < ?n + ?c
      then (entries p e)\<lparr>entry_key := INVALID_BLOCK_BASE\<rparr> else entries p e),
    entry_count := ?n + ?c, blockIndex := Some ?g, nextBlockIndexCapacity := 2 * capacity ?g\<rparr>"
  note g = new_block_index_eq [OF hdr(1,3)] grown_ok [OF hdr(2) small] grown_capacity [OF hdr(2) small]
  have old: "entries ?p1 (ring_slot ?g d) = entries p (ring_slot hdr d)" if "d < ?c" for d
    using ring_slot_grown(1) [OF hdr(2) small that] ring_slot_less [OF hdr(2), of d] by simp
  have new: "entry_key (entries ?p1 (ring_slot ?g d)) = INVALID_BLOCK_BASE" if "?c \<le> d" "d < 2 * ?c" for d
    using ring_slot_grown(2) [OF hdr(2) small that] by simp
  have "index_ok ?p1 ?g n m blk"
    unfolding index_ok_def
  proof (intro conjI allI impI)
    show "n \<le> m" "n \<le> unat (capacity ?g)" using I g(3) by simp_all
    show "entries ?p1 (ring_slot ?g d) = \<lparr>entry_key = of_nat (32 * (m - 1 - d)), entry_value = Some (blk (m - 1 - d))\<rparr>"
      if "d < n" for d
      using I(2) I(3) [of d] that old [of d] by simp
    show "entry_free ?p1 (ring_slot ?g d)" if "d < unat (capacity ?g)" "n \<le> d" for d
    proof (cases "d < ?c")
      case True
      then show ?thesis using I(4) [OF True that(2)] old [OF True] by (simp add: entry_free_def)
    next
      case False
      then show ?thesis using new [of d] that g(3) by (simp add: entry_free_def)
    qed
  qed
  then show thesis using that [of ?p1] g new [of "2 * ?c - 1"] header_ok_pos [OF hdr(2)] by simp
qed

lemma insert_entry_cases:
  assumes hdr: "blockIndex p = Some hdr" "header_ok hdr (entry_count p)" "nextBlockIndexCapacity p = 2 * capacity hdr"
    and ix: "index_ok p hdr n m blk" and small: "n < 2 ^ 58"
  obtains (fail) "insert_block_index_entry md mem b p = Some (None, p)" "\<not> (md = Can_alloc \<and> mem)"
  | (ok) hdr1 p1 where
    "insert_block_index_entry md mem b p = Some (Some (ring_slot (advanced hdr1) 0),
       (upd_entry (ring_slot (advanced hdr1) 0) (\<lambda>x. x\<lparr>entry_key := b\<rparr>) p1)\<lparr>blockIndex := Some (advanced hdr1)\<rparr>)"
    "blockIndex p1 = Some hdr1" "header_ok hdr1 (entry_count p1)" "nextBlockIndexCapacity p1 = 2 * capacity hdr1"
    "index_ok p1 hdr1 n m blk" "n < unat (capacity hdr1)"
    "tailIndex p1 = tailIndex p" "headIndex p1 = headIndex p" "dequeueOptimisticCount p1 = dequeueOptimisticCount p"
    "dequeueOvercommit p1 = dequeueOvercommit p" "prod_tailBlock p1 = prod_tailBlock p"
proof -
  note I = index_okD [OF ix]
  let ?c = "unat (capacity hdr)"
  have pos: "0 < ?c" using hdr(2) by (rule header_ok_pos)
  have cl: "claim_index_slot b p' = (ring_slot (advanced h') 0,
      (upd_entry (ring_slot (advanced h') 0) (\<lambda>x. x\<lparr>entry_key := b\<rparr>) p')\<lparr>blockIndex := Some (advanced h')\<rparr>)"
    if "blockIndex p' = Some h'" "header_ok h' (entry_count p')" for p' h'
    using claim_index_slot_eq [OF that] .
  have nxt: "snd (next_index_slot p') = ring_slot h' (unat (capacity h') - 1)"
    if "blockIndex p' = Some h'" "header_ok h' (entry_count p')" for p' h'
    using cl [OF that] ring_slot_advanced(1) [OF that(2)] by (simp add: claim_index_slot_def split: prod.splits)
  note nx = nxt [OF hdr(1,2)]
  show thesis
  proof (cases "n < ?c")
    case True
    then have "entry_free p (ring_slot hdr (?c - 1))" using I(4) [of "?c - 1"] pos by simp
    then have "insert_block_index_entry md mem b p = Some (map_prod Some id (claim_index_slot b p))"
      unfolding insert_block_index_entry_def Let_def nx entry_free_def by (simp add: hdr(1))
    then show thesis using ok [of hdr p] hdr ix True cl [OF hdr(1,2)] by simp
  next
    case False
    then have n: "n = ?c" using I(2) by simp
    then have "entries p (ring_slot hdr (?c - 1)) = \<lparr>entry_key = of_nat (32 * (m - 1 - (?c - 1))), entry_value = Some (blk (m - 1 - (?c - 1)))\<rparr>"
      using I(3) [of "?c - 1"] pos by simp
    then have taken: "\<not> entry_free p (ring_slot hdr (?c - 1))"
      using key_not_invalid [of "m - 1 - (?c - 1)"] by (simp add: entry_free_def)
    show thesis
    proof (cases "md = Can_alloc \<and> mem")
      case False
      then have "insert_block_index_entry md mem b p = Some (None, p)"
        using taken hdr(1) unfolding insert_block_index_entry_def Let_def nx entry_free_def
        by (cases md) (auto simp: new_block_index_def)
      then show thesis using fail False by blast
    next
      case True
      have sm: "?c < 2 ^ 58" using n small by simp
      obtain p1 where p1: "new_block_index True p = Some p1" "blockIndex p1 = Some (grown hdr (entry_count p))"
        "header_ok (grown hdr (entry_count p)) (entry_count p1)"
        "nextBlockIndexCapacity p1 = 2 * capacity (grown hdr (entry_count p))"
        "index_ok p1 (grown hdr (entry_count p)) n m blk"
        "tailIndex p1 = tailIndex p" "headIndex p1 = headIndex p" "dequeueOptimisticCount p1 = dequeueOptimisticCount p"
        "dequeueOvercommit p1 = dequeueOvercommit p" "prod_tailBlock p1 = prod_tailBlock p"
        "entry_key (entries p1 (ring_slot (grown hdr (entry_count p)) (2 * ?c - 1))) = INVALID_BLOCK_BASE"
        using index_ok_grown [OF hdr ix sm] by blast
      have "entry_key (entries p1 (snd (next_index_slot p1))) = INVALID_BLOCK_BASE"
        using nxt [OF p1(2,3)] p1(11) grown_capacity [OF hdr(2) sm] by simp
      then have "insert_block_index_entry md mem b p = Some (map_prod Some id (claim_index_slot b p1))"
        using taken True p1(1) hdr(1) unfolding insert_block_index_entry_def Let_def nx entry_free_def by auto
      moreover have "n < unat (capacity (grown hdr (entry_count p)))"
        using n pos grown_capacity [OF hdr(2) sm] by simp
      ultimately show thesis using ok [of "grown hdr (entry_count p)" p1] p1 cl [OF p1(2,3)] by simp
    qed
  qed
qed

section \<open>Dequeue\<close>

lemma started_ge: "t \<le> 32 * started t"
  by linarith

lemma next_block: "h mod 32 = 31 \<Longrightarrow> Suc h div 32 = Suc (h div 32)" "h mod 32 \<noteq> 31 \<Longrightarrow> Suc h div 32 = h div 32"
  by (simp_all add: div_Suc mod_Suc)

lemma live_less: "h < t \<Longrightarrow> h div 32 < started t"
  by linarith

lemma dequeue_empty:
  assumes "prod_ok (producers q ! i) h h blk"
  shows "implicit_dequeue i q = (None, q)"
proof -
  note D = prod_okD [OF assms]
  have "\<not> circular_less_than (of_nat h) (of_nat h)" using circular_less_than_of_nat [of h h] by simp
  then show ?thesis using D by (simp add: implicit_dequeue_def Let_def)
qed

lemma head_entry:
  assumes ok: "prod_ok p h t blk" and lt: "h < t" and hdr: "blockIndex p = Some hdr"
    "header_ok hdr (entry_count p)" "index_ok p hdr (started t - h div 32) (started t) blk"
    and p': "entries p' = entries p" "blockIndex p' = blockIndex p"
  shows "get_block_index_entry_for_index (of_nat h) p' = ring_slot hdr (started t - 1 - h div 32)"
    "entries p (ring_slot hdr (started t - 1 - h div 32)) =
      \<lparr>entry_key = of_nat (32 * (h div 32)), entry_value = Some (blk (h div 32))\<rparr>"
proof -
  note I = index_okD [OF hdr(3)]
  have l: "h div 32 < started t" using lt by (rule live_less)
  have "entry_key (entries p' (ring_slot hdr 0)) = of_nat (32 * (started t - 1))"
    using I(3) [of 0] l by (simp add: p')
  then show "get_block_index_entry_for_index (of_nat h) p' = ring_slot hdr (started t - 1 - h div 32)"
    using l I(2) hdr(1) by (intro lookup_slot [OF _ hdr(2)]) (auto simp: p')
  show "entries p (ring_slot hdr (started t - 1 - h div 32)) =
      \<lparr>entry_key = of_nat (32 * (h div 32)), entry_value = Some (blk (h div 32))\<rparr>"
    using I(3) [of "started t - 1 - h div 32"] l by simp
qed

lemma index_ok_release:
  assumes hdr: "header_ok hdr (entry_count p)" and ix: "index_ok p hdr (Suc n) m blk"
  shows "index_ok (upd_entry (ring_slot hdr n) (\<lambda>y. y\<lparr>entry_value := None\<rparr>) p) hdr n m blk"
proof -
  note I = index_okD [OF ix]
  have ne: "d < unat (capacity hdr) \<Longrightarrow> ring_slot hdr d = ring_slot hdr n \<longleftrightarrow> d = n" for d
    using ring_slot_inj [OF hdr] I(2) by simp
  show ?thesis
    unfolding index_ok_def
  proof (intro conjI allI impI)
    show "n \<le> m" "n \<le> unat (capacity hdr)" using I by simp_all
    fix d
    show "entries (upd_entry (ring_slot hdr n) (\<lambda>y. y\<lparr>entry_value := None\<rparr>) p) (ring_slot hdr d) =
        \<lparr>entry_key = of_nat (32 * (m - 1 - d)), entry_value = Some (blk (m - 1 - d))\<rparr>" if "d < n"
      using that ne [of d] I(2) I(3) [of d] by (simp add: upd_entry_def)
    show "entry_free (upd_entry (ring_slot hdr n) (\<lambda>y. y\<lparr>entry_value := None\<rparr>) p) (ring_slot hdr d)"
      if "d < unat (capacity hdr)" "n \<le> d"
      using that ne [of d] I(4) [of d] by (cases "d = n") (auto simp: upd_entry_def entry_free_def)
  qed
qed

lemma index_ok_cong:
  assumes "entries p' = entries p"
  shows "index_ok p' hdr n m blk = index_ok p hdr n m blk"
  using assms by (simp add: index_ok_def entry_free_def)

lemma contents_head:
  assumes "h < t"
  shows "prod_contents q h t blk = elements (cblocks q (blk (h div 32))) (h mod 32) # prod_contents q (Suc h) t blk"
  using assms by (simp add: prod_contents_def upt_conv_Cons)

lemma dequeue_ok:
  assumes ok: "prod_ok (producers q ! i) h t blk" and cnt: "counts_ok q h t blk" and lt: "h < t"
    and pool: "pool_ok q fs used" and sub: "prod_blocks h t blk \<subseteq> used" and i: "i < length (producers q)"
  shows "\<exists>q' p' fs'. implicit_dequeue i q = (Some (elements (cblocks q (blk (h div 32))) (h mod 32)), q') \<and>
    producers q' = (producers q)[i := p'] \<and> prod_ok p' (Suc h) t blk \<and> counts_ok q' (Suc h) t blk \<and>
    prod_contents q' (Suc h) t blk = prod_contents q (Suc h) t blk \<and>
    pool_ok q' fs' (used - (prod_blocks h t blk - prod_blocks (Suc h) t blk)) \<and>
    (\<forall>b. b \<notin> prod_blocks h t blk \<longrightarrow> cblocks q' b = cblocks q b)"
proof -
  let ?p = "producers q ! i" and ?j = "h div 32" and ?m = "started t"
  note D = prod_okD [OF ok]
  obtain hdr where hdr: "blockIndex ?p = Some hdr" "header_ok hdr (entry_count ?p)"
    "nextBlockIndexCapacity ?p = 2 * capacity hdr" "index_ok ?p hdr (?m - ?j) ?m blk" using D(9) by blast
  have l: "?j < ?m" using lt by (rule live_less)
  have jl: "?j \<in> live h t" using l by simp
  let ?b = "blk ?j" and ?e = "ring_slot hdr (?m - 1 - ?j)"
  have bu: "?b \<in> used" using sub jl by blast
  let ?p1 = "?p\<lparr>dequeueOptimisticCount := of_nat h + 1, headIndex := of_nat h + 1\<rparr>"
  have circ: "circular_less_than (of_nat h) (of_nat t)"
  proof -
    have "t - h < 2 ^ 63" using D(2) started_ge [of t] by linarith
    then show ?thesis using circular_less_than_of_nat [of h t] lt by simp
  qed
  have e: "get_block_index_entry_for_index (of_nat h) ?p1 = ?e" "entry_value (entries ?p ?e) = Some ?b"
    using head_entry [OF ok lt hdr(1,2,4), of ?p1] by simp_all
  have prev: "elementsCompletelyDequeued (cblocks q ?b) = of_nat (h mod 32)"
  proof -
    have "elementsCompletelyDequeued (cblocks q ?b) = of_nat (h - 32 * ?j)" using cnt jl unfolding counts_ok_def by blast
    then show ?thesis by (simp only: minus_mult_div_eq_mod)
  qed
  let ?q1 = "upd_cblock ?b (\<lambda>x. x\<lparr>elementsCompletelyDequeued := of_nat (h mod 32) + 1\<rparr>) q"
  have full: "of_nat (h mod 32) = BLOCK_SIZE - 1 \<longleftrightarrow> h mod 32 = 31"
  proof -
    have "unat (of_nat (h mod 32) :: c_size) = h mod 32"
    proof (rule unat_of_nat_small)
      have "h mod 32 < 32" by simp
      also have "(32 :: nat) < 2 ^ LENGTH(64)" by simp
      finally show "h mod 32 < 2 ^ LENGTH(64)" .
    qed
    then show ?thesis by (simp add: BLOCK_SIZE_def word_unat_eq_iff)
  qed
  have se: "set_empty ?b q = (h mod 32 = 31, ?q1)" using prev full by (simp add: set_empty_def Let_def)
  have pool1: "pool_ok ?q1 fs used" using pool by (subst pool_ok_cong [where q = q]) simp_all
  have next_live: "j \<in> live (Suc h) t \<Longrightarrow> j \<in> live h t" for j by (auto intro: order_trans [OF div_le_mono])
  have injD: "j \<in> live h t \<Longrightarrow> blk j = ?b \<longleftrightarrow> j = ?j" for j using inj_on_eq_iff [OF D(7) _ jl] by blast
  have cnt1: "elementsCompletelyDequeued (cblocks ?q1 (blk j)) = of_nat (Suc h - 32 * j)" if j: "j \<in> live (Suc h) t" for j
  proof (cases "j = ?j")
    case True
    have "Suc h - 32 * ?j = Suc (h mod 32)" using div_mult_mod_eq [of h 32] by linarith
    then show ?thesis using True by simp
  next
    case False
    then have "blk j \<noteq> ?b" using injD [OF next_live [OF j]] by simp
    moreover have "h - 32 * j = 0" "Suc h - 32 * j = 0"
    proof -
      have "?j < j" using False next_live [OF j] by simp
      then have "Suc h \<le> 32 * j" using div_mult_mod_eq [of h 32] by linarith
      then show "h - 32 * j = 0" "Suc h - 32 * j = 0" by simp_all
    qed
    ultimately show ?thesis using cnt next_live [OF j] by (simp add: counts_ok_def)
  qed
  have hd1: "of_nat h + 1 = (of_nat (Suc h) :: c_size)" by simp
  have bound: "32 * ?m - Suc h < 2 ^ 63" using D(2) by linarith
  show ?thesis
  proof (cases "h mod 32 = 31")
    case True
    let ?p' = "upd_entry ?e (\<lambda>y. y\<lparr>entry_value := None\<rparr>) ?p1"
    let ?q' = "free_list_add ?b (set_producer i ?p' ?q1)"
    have j': "Suc h div 32 = Suc ?j" using True by (rule next_block)
    have deq: "implicit_dequeue i q = (Some (elements (cblocks q ?b) (h mod 32)), ?q')"
      using D(3,4,5,6) circ e se True by (simp add: implicit_dequeue_def Let_def slot_of_nat)
    have pool2: "pool_ok (set_producer i ?p' ?q1) fs used" using pool1 by simp
    note F = free_list_add_ok [OF pool2 bu]
    have "index_ok ?p hdr (Suc (?m - Suc ?j)) ?m blk" using hdr(4) l by (simp add: Suc_diff_Suc)
    from index_ok_release [OF hdr(2) this]
    have "index_ok ?p' hdr (?m - Suc ?j) ?m blk"
      by (subst index_ok_cong [where p = "upd_entry (ring_slot hdr (?m - Suc ?j)) (\<lambda>y. y\<lparr>entry_value := None\<rparr>) ?p"])
        (simp_all add: upd_entry_def)
    then have "prod_ok ?p' (Suc h) t blk"
      unfolding prod_ok_def j' using D lt hdr bound inj_on_subset [OF D(7)] by (auto simp: upd_entry_def)
    moreover have "cblocks ?q' c = cblocks ?q1 c" if "c \<noteq> ?b" for c using F(3) that by simp
    moreover have nb: "blk j \<noteq> ?b" if "j \<in> live (Suc h) t" for j
      using injD [OF next_live [OF that]] that j' by auto
    ultimately have "prod_ok ?p' (Suc h) t blk" "counts_ok ?q' (Suc h) t blk"
      using cnt1 by (auto simp: counts_ok_def)
    moreover have "prod_blocks h t blk - prod_blocks (Suc h) t blk = {?b}"
    proof -
      have "live h t = insert ?j (live (Suc h) t)" using l j' by auto
      moreover have "?b \<notin> prod_blocks (Suc h) t blk" using nb by (metis imageE)
      ultimately show ?thesis by auto
    qed
    moreover have "elements (cblocks ?q' c) = elements (cblocks q c)" for c
      by (simp add: free_list_add_def add_knowing_refcount_is_zero_def Let_def)
    ultimately show ?thesis using deq F i jl
      by (intro exI [of _ ?q'] exI [of _ ?p'] exI [of _ "?b # fs"]) (auto simp: prod_contents_def)
  next
    case False
    let ?q' = "set_producer i ?p1 ?q1"
    have j': "Suc h div 32 = ?j" using False by (rule next_block)
    have deq: "implicit_dequeue i q = (Some (elements (cblocks q ?b) (h mod 32)), ?q')"
      using D(3,4,5,6) circ e se False by (simp add: implicit_dequeue_def Let_def slot_of_nat)
    have "index_ok ?p1 hdr (?m - ?j) ?m blk" using hdr(4) by (subst index_ok_cong [where p = ?p]) simp_all
    then have "prod_ok ?p1 (Suc h) t blk"
      unfolding prod_ok_def j' using D lt hdr bound by auto
    moreover have "counts_ok ?q' (Suc h) t blk" using cnt1 by (auto simp: counts_ok_def)
    moreover have "used - (prod_blocks h t blk - prod_blocks (Suc h) t blk) = used" by (simp add: j')
    ultimately show ?thesis using deq pool1 i jl
      by (intro exI [of _ ?q'] exI [of _ ?p1] exI [of _ fs]) (auto simp: prod_contents_def)
  qed
qed

section \<open>Enqueue\<close>

lemma started_Suc: "started (Suc t) = Suc (t div 32)"
proof -
  have "Suc t + 31 = t + 32" by simp
  then show ?thesis by simp
qed

lemma started_cases: "started t = (if t mod 32 = 0 then t div 32 else Suc (t div 32))"
proof -
  have "t + 31 = (t mod 32 + 31) + t div 32 * 32" by simp
  then have "started t = t div 32 + (t mod 32 + 31) div 32" by (simp only: div_mult_self1)
  moreover have "(t mod 32 + 31) div 32 = (if t mod 32 = 0 then 0 else 1)"
    using mod_less_divisor [of 32 t] by (auto intro!: div_nat_eqI)
  ultimately show ?thesis by simp
qed

lemma put_element_ok:
  fixes q :: "'a cqueue" and x :: 'a
  assumes p: "tailIndex (producers q ! i) = of_nat t" "prod_tailBlock (producers q ! i) = Some (blk (t div 32))"
    and i: "i < length (producers q)" and inj: "inj_on blk (live h (Suc t))" and ht: "h \<le> t"
    and tl: "t div 32 \<in> live h (Suc t)"
  defines "q' \<equiv> put_element i x q"
  shows "producers q' = (producers q)[i := (producers q ! i)\<lparr>tailIndex := of_nat (Suc t)\<rparr>]"
    "prod_contents q' h (Suc t) blk = prod_contents q h t blk @ [x]"
    "counts_ok q' h (Suc t) blk = counts_ok q h (Suc t) blk"
    "pool_ok q' fs used = pool_ok q fs used"
    "b \<noteq> blk (t div 32) \<Longrightarrow> cblocks q' b = cblocks q b"
proof -
  let ?b = "blk (t div 32)"
  have q': "q' = set_producer i ((producers q ! i)\<lparr>tailIndex := of_nat (Suc t)\<rparr>)
      (upd_cblock ?b (\<lambda>b. b\<lparr>elements := (elements b)(t mod 32 := x)\<rparr>) q)"
    by (simp add: q'_def put_element_def Let_def p slot_of_nat)
  show "producers q' = (producers q)[i := (producers q ! i)\<lparr>tailIndex := of_nat (Suc t)\<rparr>]" by (simp add: q')
  show "b \<noteq> ?b \<Longrightarrow> cblocks q' b = cblocks q b" by (simp add: q')
  have "elementsCompletelyDequeued (cblocks q' c) = elementsCompletelyDequeued (cblocks q c)" for c by (simp add: q')
  then show "counts_ok q' h (Suc t) blk = counts_ok q h (Suc t) blk" unfolding counts_ok_def by (simp only:)
  show "pool_ok q' fs used = pool_ok q fs used" by (rule pool_ok_cong) (simp_all add: q')
  have "elements (cblocks q' (blk (k div 32))) (k mod 32) = elements (cblocks q (blk (k div 32))) (k mod 32)"
    if k: "h \<le> k" "k < t" for k
  proof (cases "blk (k div 32) = ?b")
    case True
    have "h div 32 \<le> k div 32" "k div 32 \<le> t div 32" using k by (simp_all add: div_le_mono)
    then have "k div 32 \<in> live h (Suc t)" unfolding started_Suc by simp
    then have eq: "k div 32 = t div 32" using True inj_on_eq_iff [OF inj _ tl] by blast
    then have "k mod 32 \<noteq> t mod 32" using k(2) div_mult_mod_eq [of k 32] div_mult_mod_eq [of t 32] by linarith
    then show ?thesis using True eq by (simp add: q')
  qed (simp add: q')
  then have "prod_contents q' h t blk = prod_contents q h t blk" by (simp add: prod_contents_def)
  moreover have "prod_contents q' h (Suc t) blk = prod_contents q' h t blk @ [elements (cblocks q' ?b) (t mod 32)]"
    using ht by (simp add: prod_contents_def)
  ultimately show "prod_contents q' h (Suc t) blk = prod_contents q h t blk @ [x]" by (simp add: q')
qed

lemma index_ok_inserted:
  assumes hdr: "header_ok hdr (entry_count p)" and ix: "index_ok p hdr n m blk" and n: "n < unat (capacity hdr)"
    and p': "entries p' = (entries p)(ring_slot (advanced hdr) 0 := \<lparr>entry_key = of_nat (32 * m), entry_value = Some b\<rparr>)"
  shows "index_ok p' (advanced hdr) (Suc n) (Suc m) (blk(m := b))"
proof -
  note I = index_okD [OF ix] and R = ring_slot_advanced [OF hdr]
  let ?c = "unat (capacity hdr)"
  have ne: "ring_slot hdr d \<noteq> ring_slot (advanced hdr) 0" if "Suc d < ?c" for d
    unfolding R(1) using ring_slot_inj [OF hdr, of d "?c - 1"] that by simp
  show ?thesis
    unfolding index_ok_def
  proof (intro conjI allI impI)
    show "Suc n \<le> Suc m" "Suc n \<le> unat (capacity (advanced hdr))" using I(1) n by simp_all
    fix d
    show "entries p' (ring_slot (advanced hdr) d) =
        \<lparr>entry_key = of_nat (32 * (Suc m - 1 - d)), entry_value = Some ((blk(m := b)) (Suc m - 1 - d))\<rparr>" if d: "d < Suc n"
    proof (cases d)
      case (Suc e)
      then have e: "e < n" "Suc e < ?c" using d n by simp_all
      have "m - 1 - e \<noteq> m" using e I(1) by simp
      then show ?thesis using Suc R(2) [OF e(2)] ne [OF e(2)] I(3) [OF e(1)] p' by simp
    qed (simp add: p')
    show "entry_free p' (ring_slot (advanced hdr) d)" if d: "d < unat (capacity (advanced hdr))" "Suc n \<le> d"
    proof -
      obtain e where e: "d = Suc e" "n \<le> e" using d(2) by (cases d) auto
      then have "Suc e < ?c" using d(1) by simp
      then show ?thesis using e R(2) ne I(4) [of e] p' by (simp add: entry_free_def)
    qed
  qed
qed

lemma index_ok_rewound:
  assumes hdr: "header_ok hdr (entry_count p)" and ix: "index_ok p hdr n m blk" and n: "n < unat (capacity hdr)"
    and p': "entries p' = (entries p)(ring_slot (advanced hdr) 0 := y)" "entry_value y = None"
  shows "index_ok p' hdr n m blk"
proof -
  note I = index_okD [OF ix] and R = ring_slot_advanced [OF hdr]
  let ?c = "unat (capacity hdr)"
  have ne: "d < ?c \<Longrightarrow> ring_slot hdr d = ring_slot (advanced hdr) 0 \<longleftrightarrow> d = ?c - 1" for d
    unfolding R(1) using ring_slot_inj [OF hdr, of d "?c - 1"] by simp
  show ?thesis
    unfolding index_ok_def
  proof (intro conjI allI impI)
    show "n \<le> m" "n \<le> ?c" using I by simp_all
    fix d
    show "entries p' (ring_slot hdr d) = \<lparr>entry_key = of_nat (32 * (m - 1 - d)), entry_value = Some (blk (m - 1 - d))\<rparr>"
      if "d < n" using that n ne [of d] I(3) [OF that] p' by simp
    show "entry_free p' (ring_slot hdr d)" if "d < ?c" "n \<le> d"
      using that ne [of d] I(4) [OF that] p' by (auto simp: entry_free_def)
  qed
qed

text \<open>What an enqueue leaves: \<open>t'\<close> and \<open>blk'\<close> describe the producer after it.\<close>

definition enqueued :: "'a cqueue \<Rightarrow> nat \<Rightarrow> nat \<Rightarrow> nat \<Rightarrow> (nat \<Rightarrow> nat) \<Rightarrow> nat set \<Rightarrow> 'a list \<Rightarrow> 'a cqueue \<Rightarrow>
    nat \<Rightarrow> (nat \<Rightarrow> nat) \<Rightarrow> bool" where
  "enqueued q i h t blk used xs q' t' blk' \<longleftrightarrow>
     (\<exists>p'. producers q' = (producers q)[i := p'] \<and> prod_ok p' h t' blk') \<and> counts_ok q' h t' blk' \<and>
     prod_contents q' h t' blk' = prod_contents q h t blk @ xs \<and>
     (\<exists>fs'. pool_ok q' fs' (used \<union> prod_blocks h t' blk')) \<and> prod_blocks h t blk \<subseteq> prod_blocks h t' blk' \<and>
     (\<forall>b \<in> used - prod_blocks h t blk. cblocks q' b = cblocks q b \<and> b \<notin> prod_blocks h t' blk')"

lemma enqueue_inside:
  assumes ok: "prod_ok (producers q ! i) h t blk" and cnt: "counts_ok q h t blk"
    and pool: "pool_ok q fs used" and sub: "prod_blocks h t blk \<subseteq> used" and i: "i < length (producers q)"
    and t: "t mod 32 \<noteq> 0"
  shows "\<exists>q'. implicit_enqueue md mem i x q = Some (True, q') \<and> enqueued q i h t blk used [x] q' (Suc t) blk"
proof -
  note D = prod_okD [OF ok]
  have st: "started (Suc t) = started t" "t div 32 < started t" using t started_Suc [of t] started_cases [of t] by simp_all
  have tl: "t div 32 \<in> live h (Suc t)" unfolding st(1) using st(2) D(1) by (simp add: div_le_mono)
  have inj: "inj_on blk (live h (Suc t))" using D(7) unfolding st(1) .
  note P = put_element_ok [OF D(4) D(8) [OF t] i inj D(1) tl, where x = x]
  let ?q' = "put_element i x q" and ?p' = "(producers q ! i)\<lparr>tailIndex := of_nat (Suc t)\<rparr>"
  have enq: "implicit_enqueue md mem i x q = Some (True, ?q')"
    using D(4) t block_start_iff [of t] by (simp add: implicit_enqueue_def Let_def)
  obtain hdr where hdr: "blockIndex (producers q ! i) = Some hdr" "header_ok hdr (entry_count (producers q ! i))"
    "nextBlockIndexCapacity (producers q ! i) = 2 * capacity hdr"
    "index_ok (producers q ! i) hdr (started t - h div 32) (started t) blk" using D(9) by blast
  have "index_ok ?p' hdr (started t - h div 32) (started t) blk"
    using hdr(4) by (subst index_ok_cong [where p = "producers q ! i"]) simp_all
  moreover have "Suc t mod 32 \<noteq> 0 \<longrightarrow> prod_tailBlock ?p' = Some (blk (Suc t div 32))"
  proof
    assume "Suc t mod 32 \<noteq> 0"
    then have "Suc t div 32 = t div 32" by (simp add: div_Suc)
    then show "prod_tailBlock ?p' = Some (blk (Suc t div 32))" using D(8) [OF t] by simp
  qed
  ultimately have "prod_ok ?p' h (Suc t) blk"
    unfolding prod_ok_def st(1) using D(1-3,5-7) hdr by auto
  moreover have "counts_ok ?q' h (Suc t) blk" using P(3) cnt unfolding counts_ok_def st(1) by (simp only:)
  moreover have "used \<union> prod_blocks h (Suc t) blk = used" unfolding st(1) using sub by auto
  then have "pool_ok ?q' fs (used \<union> prod_blocks h (Suc t) blk)" using P(4) [of fs used] pool by simp
  moreover have "cblocks ?q' b = cblocks q b" if "b \<notin> prod_blocks h t blk" for b
    using P(5) [of b] that tl unfolding st(1) by blast
  ultimately have "enqueued q i h t blk used [x] ?q' (Suc t) blk"
    unfolding enqueued_def using P(1,2) st(1) by auto
  then show ?thesis using enq by blast
qed

lemma enqueued_none:
  assumes cnt: "counts_ok q h t blk" and sub: "prod_blocks h t blk \<subseteq> used"
    and q': "producers q' = (producers q)[i := p']" "prod_ok p' h t blk" "pool_ok q' fs' used"
    "\<forall>c\<in>used. cblocks q' c = cblocks q c"
  shows "enqueued q i h t blk used [] q' t blk"
proof -
  have same: "cblocks q' b = cblocks q b" if "b \<in> prod_blocks h t blk" for b using that sub q'(4) by blast
  have "used \<union> prod_blocks h t blk = used" using sub by auto
  moreover note prod_frame [where q = q and q' = q', OF same]
  ultimately show ?thesis using cnt q' unfolding enqueued_def by auto
qed

text \<open>A new block \<open>b\<close> becomes block number \<open>m\<close> of the producer.\<close>

lemma inj_on_extend:
  assumes "inj_on f A" "a \<notin> A" "b \<notin> f ` A"
  shows "inj_on (f(a := b)) (insert a A)"
  using assms by (auto simp: inj_on_def)

lemma image_extend: "a \<notin> A \<Longrightarrow> (f(a := b)) ` insert a A = insert b (f ` A)"
  by auto

lemma new_block_ok:
  assumes ok: "prod_ok p0 h t blk" and t: "t mod 32 = 0" and room: "t + 32 - h < 2 ^ 63"
    and p1: "blockIndex p1 = Some hdr1" "header_ok hdr1 (entry_count p1)" "nextBlockIndexCapacity p1 = 2 * capacity hdr1"
    "index_ok p1 hdr1 (t div 32 - h div 32) (t div 32) blk" "t div 32 - h div 32 < unat (capacity hdr1)"
    "headIndex p1 = of_nat h" "dequeueOptimisticCount p1 = of_nat h" "dequeueOvercommit p1 = 0"
    and b: "b \<notin> prod_blocks h t blk"
  defines "p4 \<equiv> ((upd_entry (ring_slot (advanced hdr1) 0) (\<lambda>y. y\<lparr>entry_value := Some b\<rparr>)
      ((upd_entry (ring_slot (advanced hdr1) 0) (\<lambda>y. y\<lparr>entry_key := of_nat t\<rparr>) p1)\<lparr>blockIndex := Some (advanced hdr1)\<rparr>))
        \<lparr>prod_tailBlock := Some b\<rparr>)\<lparr>tailIndex := of_nat (Suc t)\<rparr>"
  shows "prod_ok p4 h (Suc t) (blk(t div 32 := b))" "inj_on (blk(t div 32 := b)) (live h (Suc t))"
    "live h (Suc t) = insert (t div 32) (live h t)"
proof -
  note D = prod_okD [OF ok]
  let ?m = "t div 32" and ?n = "t div 32 - h div 32"
  have st: "started t = ?m" "started (Suc t) = Suc ?m" using t started_Suc [of t] started_cases [of t] by simp_all
  have hm: "h div 32 \<le> ?m" using D(1) by (simp add: div_le_mono)
  show lv: "live h (Suc t) = insert ?m (live h t)" unfolding st using hm by auto
  have mn: "?m \<notin> live h t" unfolding st by simp
  show inj: "inj_on (blk(?m := b)) (live h (Suc t))" unfolding lv by (rule inj_on_extend [OF D(7) mn b])
  have t32: "t = 32 * ?m" using t div_mult_mod_eq [of t 32] by linarith
  have "entries p4 = (entries p1)(ring_slot (advanced hdr1) 0 := \<lparr>entry_key = of_nat (32 * ?m), entry_value = Some b\<rparr>)"
    unfolding t32 [symmetric] by (cases "entries p1 (ring_slot (advanced hdr1) 0)") (simp add: p4_def upd_entry_def)
  from index_ok_inserted [OF p1(2,4,5) this]
  have ix: "index_ok p4 (advanced hdr1) (started (Suc t) - h div 32) (started (Suc t)) (blk(?m := b))"
    unfolding st using hm by (simp add: Suc_diff_le)
  have bound: "32 * started (Suc t) - h < 2 ^ 63" unfolding st using room t32 by simp
  have "Suc t div 32 = ?m" using t by (simp add: div_Suc mod_Suc)
  then have tb: "prod_tailBlock p4 = Some ((blk(?m := b)) (Suc t div 32))" by (simp add: p4_def)
  have flds: "headIndex p4 = of_nat h" "tailIndex p4 = of_nat (Suc t)" "dequeueOptimisticCount p4 = of_nat h"
    "dequeueOvercommit p4 = 0" "blockIndex p4 = Some (advanced hdr1)" "entry_count p4 = entry_count p1"
    "nextBlockIndexCapacity p4 = 2 * capacity (advanced hdr1)"
    using p1 by (simp_all add: p4_def upd_entry_def)
  show "prod_ok p4 h (Suc t) (blk(?m := b))"
    unfolding prod_ok_def flds using D(1) bound ix inj tb advanced_ok [OF p1(2)] by auto
qed

lemma failed_block_ok:
  assumes ok: "prod_ok p0 h t blk" and t: "t mod 32 = 0"
    and p1: "blockIndex p1 = Some hdr1" "header_ok hdr1 (entry_count p1)" "nextBlockIndexCapacity p1 = 2 * capacity hdr1"
    "index_ok p1 hdr1 (t div 32 - h div 32) (t div 32) blk" "t div 32 - h div 32 < unat (capacity hdr1)"
    "headIndex p1 = of_nat h" "dequeueOptimisticCount p1 = of_nat h" "dequeueOvercommit p1 = 0" "tailIndex p1 = of_nat t"
  shows "prod_ok (upd_entry (ring_slot (advanced hdr1) 0) (\<lambda>y. y\<lparr>entry_value := None\<rparr>)
      (rewind_block_index_tail ((upd_entry (ring_slot (advanced hdr1) 0) (\<lambda>y. y\<lparr>entry_key := of_nat t\<rparr>) p1)
        \<lparr>blockIndex := Some (advanced hdr1)\<rparr>))) h t blk"
proof -
  note D = prod_okD [OF ok]
  have st: "started t = t div 32" using t started_cases [of t] by simp
  let ?e = "ring_slot (advanced hdr1) 0"
  let ?p2 = "(upd_entry ?e (\<lambda>y. y\<lparr>entry_key := of_nat t\<rparr>) p1)\<lparr>blockIndex := Some (advanced hdr1)\<rparr>"
  have "rewind_block_index_tail ?p2 = ?p2\<lparr>blockIndex := Some hdr1\<rparr>"
    by (rule rewind_advanced [OF _ p1(2)]) simp
  moreover define p3 where "p3 = upd_entry ?e (\<lambda>y. y\<lparr>entry_value := None\<rparr>) (?p2\<lparr>blockIndex := Some hdr1\<rparr>)"
  moreover have "entries p3 = (entries p1)(?e := (entries p1 ?e)\<lparr>entry_key := of_nat t, entry_value := None\<rparr>)"
    by (simp add: p3_def upd_entry_def)
  from index_ok_rewound [OF p1(2,4,5) this]
  have "index_ok p3 hdr1 (started t - h div 32) (started t) blk" unfolding st by simp
  moreover have "headIndex p3 = of_nat h" "tailIndex p3 = of_nat t" "dequeueOptimisticCount p3 = of_nat h"
    "dequeueOvercommit p3 = 0" "blockIndex p3 = Some hdr1" "entry_count p3 = entry_count p1"
    "nextBlockIndexCapacity p3 = 2 * capacity hdr1"
    using p1 by (simp_all add: p3_def upd_entry_def)
  ultimately show ?thesis unfolding prod_ok_def using D(1,2,7) t p1(2) by auto
qed

text \<open>The enqueue that needs a new block.\<close>

lemma reset_empty_ok:
  "producers (reset_empty b q) = producers q" "c \<noteq> b \<Longrightarrow> cblocks (reset_empty b q) c = cblocks q c"
  "elementsCompletelyDequeued (cblocks (reset_empty b q) b) = 0"
  "pool_ok (reset_empty b q) fs used = pool_ok q fs used"
proof -
  show "pool_ok (reset_empty b q) fs used = pool_ok q fs used" by (rule pool_ok_cong) (simp_all add: reset_empty_def)
qed (simp_all add: reset_empty_def)

lemma contents_other_block:
  assumes "t mod 32 = 0" "\<And>c. c \<in> prod_blocks h t blk \<Longrightarrow> cblocks q' c = cblocks q c"
  shows "prod_contents q' h t (blk(t div 32 := b)) = prod_contents q h t blk"
proof -
  have "k div 32 \<noteq> t div 32" if "k < t" for k
    using that assms(1) div_mult_mod_eq [of t 32] by linarith
  then have "prod_contents q' h t (blk(t div 32 := b)) = prod_contents q' h t blk"
    unfolding prod_contents_def by (intro map_cong) auto
  then show ?thesis using prod_frame(2) [OF assms(2)] by simp
qed

lemma counts_new_block:
  assumes lv: "live h (Suc t) = insert (t div 32) (live h t)" and t: "t mod 32 = 0" and ht: "h \<le> t"
    and cnt: "counts_ok q h t blk" and new: "elementsCompletelyDequeued (cblocks q' b) = 0"
    and old: "\<And>c. c \<in> prod_blocks h t blk \<Longrightarrow> cblocks q' c = cblocks q c"
  shows "counts_ok q' h (Suc t) (blk(t div 32 := b))"
  unfolding counts_ok_def lv
proof
  fix j assume j: "j \<in> insert (t div 32) (live h t)"
  show "elementsCompletelyDequeued (cblocks q' ((blk(t div 32 := b)) j)) = of_nat (h - 32 * j)"
  proof (cases "j = t div 32")
    case True
    then have "h - 32 * j = 0" using t ht div_mult_mod_eq [of t 32] by linarith
    then show ?thesis using True new by simp
  next
    case False
    then have "j \<in> live h t" using j by blast
    then show ?thesis using False cnt old [of "blk j"] unfolding counts_ok_def by simp
  qed
qed

lemma enqueue_new_block:
  assumes ok: "prod_ok (producers q ! i) h t blk" and cnt: "counts_ok q h t blk"
    and sub: "prod_blocks h t blk \<subseteq> used" and i: "i < length (producers q)"
    and t: "t mod 32 = 0" and room: "t + 32 - h < 2 ^ 63"
    and p1: "blockIndex p1 = Some hdr1" "header_ok hdr1 (entry_count p1)" "nextBlockIndexCapacity p1 = 2 * capacity hdr1"
    "index_ok p1 hdr1 (t div 32 - h div 32) (t div 32) blk" "t div 32 - h div 32 < unat (capacity hdr1)"
    "headIndex p1 = of_nat h" "dequeueOptimisticCount p1 = of_nat h" "dequeueOvercommit p1 = 0" "tailIndex p1 = of_nat t"
    and q1: "producers q1 = producers q" "\<forall>c\<in>used. cblocks q1 c = cblocks q c"
    and b: "b \<notin> used" "pool_ok q1 fs1 (insert b used)"
  defines "p3 \<equiv> (upd_entry (ring_slot (advanced hdr1) 0) (\<lambda>y. y\<lparr>entry_value := Some b\<rparr>)
      ((upd_entry (ring_slot (advanced hdr1) 0) (\<lambda>y. y\<lparr>entry_key := of_nat t\<rparr>) p1)\<lparr>blockIndex := Some (advanced hdr1)\<rparr>))
        \<lparr>prod_tailBlock := Some b\<rparr>"
  shows "enqueued q i h t blk used [x] (put_element i x (set_producer i p3 (reset_empty b q1))) (Suc t) (blk(t div 32 := b))"
proof -
  let ?m = "t div 32" and ?q2 = "set_producer i p3 (reset_empty b q1)"
  let ?blk = "blk(?m := b)" and ?q' = "put_element i x ?q2"
  have bn: "b \<notin> prod_blocks h t blk" using b sub by blast
  note N = new_block_ok [OF ok t room p1(1-8) bn, folded p3_def]
  have p3: "producers ?q2 ! i = p3" using i q1(1) by (simp add: reset_empty_ok)
  have "tailIndex p3 = of_nat t" "prod_tailBlock p3 = Some (?blk ?m)" using p1(9) by (simp_all add: p3_def upd_entry_def)
  moreover have "i < length (producers ?q2)" using i q1(1) by (simp add: reset_empty_ok)
  moreover have "?m \<in> live h (Suc t)" unfolding N(3) by simp
  moreover note ht = prod_okD(1) [OF ok]
  ultimately have P: "producers ?q' = (producers ?q2)[i := p3\<lparr>tailIndex := of_nat (Suc t)\<rparr>]"
    "prod_contents ?q' h (Suc t) ?blk = prod_contents ?q2 h t ?blk @ [x]"
    "counts_ok ?q' h (Suc t) ?blk = counts_ok ?q2 h (Suc t) ?blk" "\<And>fs u. pool_ok ?q' fs u = pool_ok ?q2 fs u"
    "\<And>c. c \<noteq> b \<Longrightarrow> cblocks ?q' c = cblocks ?q2 c"
    using put_element_ok [where q = ?q2 and i = i and blk = ?blk and h = h and t = t and x = x] N(2) unfolding p3
    by simp_all
  have old: "cblocks ?q2 c = cblocks q c" if "c \<in> used" for c
    using that b(1) q1(2) reset_empty_ok(2) [of c b q1] by auto
  then have old': "cblocks ?q2 c = cblocks q c" if "c \<in> prod_blocks h t blk" for c using that sub by blast
  have "elementsCompletelyDequeued (cblocks ?q2 b) = 0" by (simp add: reset_empty_ok)
  from counts_new_block [OF N(3) t ht cnt this old'] have "counts_ok ?q' h (Suc t) ?blk" unfolding P(3) by simp
  moreover from contents_other_block [OF t old'] have "prod_contents ?q' h (Suc t) ?blk = prod_contents q h t blk @ [x]"
    unfolding P(2) by simp
  moreover have pb: "prod_blocks h (Suc t) ?blk = insert b (prod_blocks h t blk)"
    unfolding N(3) by (rule image_extend) (simp add: started_cases t)
  then have "used \<union> prod_blocks h (Suc t) ?blk = insert b used" using sub by auto
  then have "pool_ok ?q' fs1 (used \<union> prod_blocks h (Suc t) ?blk)" using b(2) by (simp only: P(4)) (simp add: reset_empty_ok)
  moreover have "producers ?q' = (producers q)[i := p3\<lparr>tailIndex := of_nat (Suc t)\<rparr>]"
    unfolding P(1) by (simp add: reset_empty_ok q1(1))
  moreover have "cblocks ?q' c = cblocks q c \<and> c \<notin> prod_blocks h (Suc t) ?blk" if "c \<in> used - prod_blocks h t blk" for c
    using that old [of c] P(5) [of c] b(1) unfolding pb by auto
  ultimately show ?thesis unfolding enqueued_def pb using N(1) by blast
qed

lemma enqueue_boundary:
  assumes ok: "prod_ok (producers q ! i) h t blk" and cnt: "counts_ok q h t blk"
    and pool: "pool_ok q fs used" and sub: "prod_blocks h t blk \<subseteq> used" and i: "i < length (producers q)"
    and t: "t mod 32 = 0"
  shows "\<exists>r q' blk'. implicit_enqueue md mem i x q = Some (r, q') \<and>
    enqueued q i h t blk used (if r then [x] else []) q' (if r then Suc t else t) blk' \<and>
    (md = Can_alloc \<and> mem = (True, True) \<and> t + 32 - h < 2 ^ 63 \<longrightarrow> r)"
proof -
  note D = prod_okD [OF ok]
  let ?p = "producers q ! i" and ?m = "t div 32"
  have st: "started t = ?m" using t started_cases [of t] by simp
  have t32: "t = 32 * ?m" using t div_mult_mod_eq [of t 32] by linarith
  have bnd: "t - h < 2 ^ 63" using D(2) t32 unfolding st by linarith
  have tail: "tailIndex ?p = of_nat t" "headIndex ?p = of_nat h" "(of_nat t + BLOCK_SIZE :: c_size) = of_nat (t + 32)"
    using D(3,4) by (simp_all add: BLOCK_SIZE_def)
  have a1: "(of_nat t :: c_size) AND (BLOCK_SIZE - 1) = 0" using t block_start_iff [of t] by simp
  have a2: "\<not> circular_less_than (of_nat t) (of_nat h)" using not_circular_less_than [OF D(1) bnd] .
  have a3: "circular_less_than (of_nat h) (of_nat (t + 32)) \<longleftrightarrow> t + 32 - h < 2 ^ 63"
    using circular_less_than_of_nat [of h "t + 32"] D(1) bnd by simp
  have stay: "enqueued q i h t blk used [] q t blk"
    by (rule enqueued_none [OF cnt sub _ ok pool]) (simp_all add: i)
  show ?thesis
  proof (cases "t + 32 - h < 2 ^ 63")
    case False
    then have "implicit_enqueue md mem i x q = Some (False, q)"
      using a1 a2 a3 unfolding implicit_enqueue_def Let_def tail by simp
    then show ?thesis using stay False by (intro exI [of _ False] exI [of _ q] exI [of _ blk]) simp
  next
    case room: True
    obtain hdr where hdr: "blockIndex ?p = Some hdr" "header_ok hdr (entry_count ?p)"
      "nextBlockIndexCapacity ?p = 2 * capacity hdr" "index_ok ?p hdr (?m - h div 32) ?m blk"
      using D(9) unfolding st by blast
    have "h mod 32 < 32" by simp
    then have "?m - h div 32 < 2 ^ 58" using room t32 D(1) div_mult_mod_eq [of h 32] by simp
    from hdr this show ?thesis
    proof (cases rule: insert_entry_cases [where md = md and mem = "fst mem" and b = "of_nat t"])
      case fail
      then have "implicit_enqueue md mem i x q = Some (False, set_producer i ?p q)"
        using a1 a2 a3 room unfolding implicit_enqueue_def Let_def tail by simp
      moreover have "set_producer i ?p q = q" by (simp add: set_producer_def)
      ultimately show ?thesis using stay fail by (intro exI [of _ False] exI [of _ q] exI [of _ blk]) auto
    next
      case (ok hdr1 p1)
      have p1: "headIndex p1 = of_nat h" "dequeueOptimisticCount p1 = of_nat h" "dequeueOvercommit p1 = 0"
        "tailIndex p1 = of_nat t" using ok(7-10) D(3-6) by simp_all
      note start = a1 a2 a3 room ok(1)
      obtain r q1 fs1 where R: "requisition_block md (snd mem) q = Some (r, q1)" "producers q1 = producers q"
        "\<forall>c\<in>used. cblocks q1 c = cblocks q c" and
        r: "case r of None \<Rightarrow> pool_ok q1 fs1 used \<and> \<not> (md = Can_alloc \<and> snd mem)
          | Some b \<Rightarrow> b \<notin> used \<and> pool_ok q1 fs1 (insert b used)"
        using requisition_block_ok [OF pool, of md "snd mem"] by blast
      show ?thesis
      proof (cases r)
        case None
        define p2 where "p2 = upd_entry (ring_slot (advanced hdr1) 0) (\<lambda>y. y\<lparr>entry_value := None\<rparr>)
          (rewind_block_index_tail ((upd_entry (ring_slot (advanced hdr1) 0) (\<lambda>y. y\<lparr>entry_key := of_nat t\<rparr>) p1)
            \<lparr>blockIndex := Some (advanced hdr1)\<rparr>))"
        have "prod_ok p2 h t blk" unfolding p2_def by (rule failed_block_ok [OF \<open>prod_ok ?p h t blk\<close> t ok(2-6) p1])
        then have "enqueued q i h t blk used [] (set_producer i p2 q1) t blk"
          using R r None by (intro enqueued_none [OF cnt sub, where p' = p2 and fs' = fs1]) simp_all
        moreover have "implicit_enqueue md mem i x q = Some (False, set_producer i p2 q1)"
          using start R None unfolding implicit_enqueue_def Let_def tail p2_def by simp
        ultimately show ?thesis using r None
          by (intro exI [of _ False] exI [of _ "set_producer i p2 q1"] exI [of _ blk]) auto
      next
        case (Some b)
        note N = enqueue_new_block [OF \<open>prod_ok ?p h t blk\<close> cnt sub i t room ok(2-6) p1 R(2,3), of b fs1 x]
        show ?thesis using start R Some N r unfolding implicit_enqueue_def Let_def tail
          by (intro exI [of _ True] exI exI [of _ "blk(?m := b)"] conjI) (auto simp only: option.case prod.case simp_thms if_True if_False)
      qed
    qed
  qed
qed

lemma enqueue_ok:
  assumes ok: "prod_ok (producers q ! i) h t blk" and cnt: "counts_ok q h t blk"
    and pool: "pool_ok q fs used" and sub: "prod_blocks h t blk \<subseteq> used" and i: "i < length (producers q)"
  shows "\<exists>r q' blk'. implicit_enqueue md mem i x q = Some (r, q') \<and>
    enqueued q i h t blk used (if r then [x] else []) q' (if r then Suc t else t) blk' \<and>
    (md = Can_alloc \<and> mem = (True, True) \<and> t + 32 - h < 2 ^ 63 \<longrightarrow> r)"
proof (cases "t mod 32 = 0")
  case True
  then show ?thesis by (rule enqueue_boundary [OF assms])
next
  case False
  then obtain q' where "implicit_enqueue md mem i x q = Some (True, q')" "enqueued q i h t blk used [x] q' (Suc t) blk"
    using enqueue_inside [OF assms, of md mem x] by blast
  then show ?thesis by (intro exI [of _ True] exI [of _ q'] exI [of _ blk]) simp
qed

lemma producer_size:
  assumes "prod_ok p h t blk"
  shows "producer_size_approx p = of_nat (t - h)" "t - h < 2 ^ 63"
proof -
  note D = prod_okD [OF assms]
  show b: "t - h < 2 ^ 63" using D(2) started_ge [of t] by linarith
  have "circular_less_than (of_nat h) (of_nat t) \<longleftrightarrow> h < t"
    using circular_less_than_of_nat [OF D(1)] b by simp
  then show "producer_size_approx p = of_nat (t - h)" using D(1,3,4) by (simp add: producer_size_approx_def of_nat_diff)
qed

end
