(* ===== verification/CQSpec.thy ===== *)
theory CQSpec
  imports CQProducer
begin

text \<open>
  The whole queue: \<open>cq_rep q xss\<close> says that \<open>q\<close> is well formed and that its producers hold the
  lists \<open>xss\<close>.  Enqueue appends to the list of its producer, dequeue takes the first element
  of some list that has one, and finds one whenever there is one.
\<close>

section \<open>Invariant\<close>

text \<open>For each producer the numbers of elements dequeued and enqueued and its blocks.\<close>

type_synonym ghost = "nat \<times> nat \<times> (nat \<Rightarrow> nat)"

fun ghost_ok :: "'a cqueue \<Rightarrow> implicit_producer \<Rightarrow> ghost \<Rightarrow> bool" where
  "ghost_ok q p (h, t, blk) \<longleftrightarrow> prod_ok p h t blk \<and> counts_ok q h t blk"

fun ghost_blocks :: "ghost \<Rightarrow> nat set" where
  "ghost_blocks (h, t, blk) = prod_blocks h t blk"

fun ghost_contents :: "'a cqueue \<Rightarrow> ghost \<Rightarrow> 'a list" where
  "ghost_contents q (h, t, blk) = prod_contents q h t blk"

abbreviation all_blocks :: "ghost list \<Rightarrow> nat set" where
  "all_blocks gs \<equiv> (\<Union>i<length gs. ghost_blocks (gs ! i))"

definition cq_inv :: "'a cqueue \<Rightarrow> ghost list \<Rightarrow> bool" where
  "cq_inv q gs \<longleftrightarrow> length gs = length (producers q) \<and>
     (\<forall>i<length gs. ghost_ok q (producers q ! i) (gs ! i)) \<and>
     (\<forall>i<length gs. \<forall>j<length gs. i \<noteq> j \<longrightarrow> ghost_blocks (gs ! i) \<inter> ghost_blocks (gs ! j) = {}) \<and>
     (\<exists>fs. pool_ok q fs (all_blocks gs))"

definition cq_rep :: "'a cqueue \<Rightarrow> 'a list list \<Rightarrow> bool" where
  "cq_rep q xss \<longleftrightarrow> (\<exists>gs. cq_inv q gs \<and> xss = map (ghost_contents q) gs)"

lemma cq_invD:
  assumes "cq_inv q gs"
  shows "length gs = length (producers q)" "\<And>i. i < length gs \<Longrightarrow> ghost_ok q (producers q ! i) (gs ! i)"
    "\<And>i j. i < length gs \<Longrightarrow> j < length gs \<Longrightarrow> i \<noteq> j \<Longrightarrow> ghost_blocks (gs ! i) \<inter> ghost_blocks (gs ! j) = {}"
    "\<exists>fs. pool_ok q fs (all_blocks gs)"
  using assms unfolding cq_inv_def by blast+

lemma ghost_frame:
  assumes "\<And>b. b \<in> ghost_blocks g \<Longrightarrow> cblocks q' b = cblocks q b"
  shows "ghost_ok q' p g = ghost_ok q p g" "ghost_contents q' g = ghost_contents q g"
proof -
  obtain h t blk where g: "g = (h, t, blk)" by (cases g)
  have "counts_ok q' h t blk = counts_ok q h t blk" "prod_contents q' h t blk = prod_contents q h t blk"
    using prod_frame [where h = h and t = t and blk = blk and q' = q' and q = q] assms unfolding g ghost_blocks.simps by blast+
  then show "ghost_ok q' p g = ghost_ok q p g" "ghost_contents q' g = ghost_contents q g" by (simp_all add: g)
qed

lemma all_blocks_update:
  assumes dis: "\<And>j. j < length gs \<Longrightarrow> i \<noteq> j \<Longrightarrow> ghost_blocks (gs ! i) \<inter> ghost_blocks (gs ! j) = {}" and i: "i < length gs"
  shows "all_blocks (gs[i := g]) = (all_blocks gs - ghost_blocks (gs ! i)) \<union> ghost_blocks g"
proof -
  have "(\<Union>j<length gs. ghost_blocks (gs[i := g] ! j)) = (\<Union>j\<in>{..<length gs} - {i}. ghost_blocks (gs ! j)) \<union> ghost_blocks g"
    using i by (auto simp: nth_list_update split: if_splits)
  moreover have "(\<Union>j\<in>{..<length gs} - {i}. ghost_blocks (gs ! j)) = all_blocks gs - ghost_blocks (gs ! i)"
    using dis i by fastforce
  ultimately show ?thesis by simp
qed

text \<open>One producer moves, the others keep their blocks.\<close>

lemma cq_inv_update:
  assumes inv: "cq_inv q gs" and i: "i < length gs" and p: "producers q' = (producers q)[i := p']" "ghost_ok q' p' g'"
    and pool: "pool_ok q' fs ((all_blocks gs - ghost_blocks (gs ! i)) \<union> ghost_blocks g')"
    and frame: "\<forall>b \<in> all_blocks gs - ghost_blocks (gs ! i). cblocks q' b = cblocks q b \<and> b \<notin> ghost_blocks g'"
  shows "cq_inv q' (gs[i := g'])"
    "map (ghost_contents q') (gs[i := g']) = (map (ghost_contents q) gs)[i := ghost_contents q' g']"
proof -
  note D = cq_invD [OF inv]
  have other: "cblocks q' b = cblocks q b" "b \<notin> ghost_blocks g'"
    if "j < length gs" "j \<noteq> i" "b \<in> ghost_blocks (gs ! j)" for j b
    using frame that D(3) [OF i that(1)] by auto
  have "all_blocks (gs[i := g']) = (all_blocks gs - ghost_blocks (gs ! i)) \<union> ghost_blocks g'"
    by (rule all_blocks_update [OF D(3) [OF i] i])
  then have "pool_ok q' fs (all_blocks (gs[i := g']))" using pool by (simp only:)
  moreover have "ghost_ok q' (producers q' ! j) (gs[i := g'] ! j)" if "j < length gs" for j
  proof (cases "j = i")
    case True
    then show ?thesis using p i D(1) by simp
  next
    case False
    then have "ghost_ok q' (producers q ! j) (gs ! j)"
      using ghost_frame(1) [of "gs ! j" q' q] other(1) [OF that] D(2) [OF that] by blast
    then show ?thesis using False p(1) by simp
  qed
  moreover have "ghost_blocks (gs[i := g'] ! j) \<inter> ghost_blocks (gs[i := g'] ! k) = {}"
    if "j < length gs" "k < length gs" "j \<noteq> k" for j k
    using D(3) [OF that] other(2) that i by (auto simp: nth_list_update split: if_splits)
  ultimately show "cq_inv q' (gs[i := g'])" unfolding cq_inv_def using p(1) D(1) by auto
  have "ghost_contents q' (gs ! j) = ghost_contents q (gs ! j)" if "j < length gs" "j \<noteq> i" for j
    using ghost_frame(2) [of "gs ! j" q' q] other(1) [OF that] by blast
  then show "map (ghost_contents q') (gs[i := g']) = (map (ghost_contents q) gs)[i := ghost_contents q' g']"
    using i by - (rule nth_equalityI, simp_all add: nth_list_update)
qed

section \<open>Operations\<close>

lemma ghost_contents_length: "length (ghost_contents q (h, t, blk)) = t - h"
  by (simp add: prod_contents_def)

lemma implicit_enqueue_rep:
  assumes rep: "cq_rep q xss" and i: "i < length xss"
  shows "\<exists>r q'. implicit_enqueue md mem i x q = Some (r, q') \<and>
    cq_rep q' (xss[i := xss ! i @ (if r then [x] else [])]) \<and>
    (md = Can_alloc \<and> mem = (True, True) \<and> length (xss ! i) < 2 ^ 63 - 32 \<longrightarrow> r)"
proof -
  obtain gs where inv: "cq_inv q gs" and xss: "xss = map (ghost_contents q) gs" using rep by (auto simp: cq_rep_def)
  note D = cq_invD [OF inv]
  have ig: "i < length gs" using i xss by simp
  obtain h t blk where g: "gs ! i = (h, t, blk)" by (cases "gs ! i")
  obtain fs where pool: "pool_ok q fs (all_blocks gs)" using D(4) by blast
  have ok: "prod_ok (producers q ! i) h t blk" "counts_ok q h t blk" using D(2) [OF ig] g by simp_all
  have gb: "ghost_blocks (gs ! i) = prod_blocks h t blk" using g by simp
  have sub: "prod_blocks h t blk \<subseteq> all_blocks gs" using ig gb by blast
  obtain r q' blk' where E: "implicit_enqueue md mem i x q = Some (r, q')"
      "enqueued q i h t blk (all_blocks gs) (if r then [x] else []) q' (if r then Suc t else t) blk'"
      "md = Can_alloc \<and> mem = (True, True) \<and> t + 32 - h < 2 ^ 63 \<longrightarrow> r"
    using enqueue_ok [OF ok pool sub, of md mem x] ig D(1) by auto
  define t' where "t' = (if r then Suc t else t)"
  obtain p' fs' where N: "producers q' = (producers q)[i := p']" "prod_ok p' h t' blk'" "counts_ok q' h t' blk'"
      "prod_contents q' h t' blk' = prod_contents q h t blk @ (if r then [x] else [])"
      "pool_ok q' fs' (all_blocks gs \<union> prod_blocks h t' blk')" "prod_blocks h t blk \<subseteq> prod_blocks h t' blk'"
      "\<forall>b \<in> all_blocks gs - prod_blocks h t blk. cblocks q' b = cblocks q b \<and> b \<notin> prod_blocks h t' blk'"
    using E(2) unfolding enqueued_def t'_def [symmetric] by blast
  have "(all_blocks gs - ghost_blocks (gs ! i)) \<union> ghost_blocks (h, t', blk') = all_blocks gs \<union> prod_blocks h t' blk'"
    unfolding gb ghost_blocks.simps using N(6) by blast
  then have "pool_ok q' fs' ((all_blocks gs - ghost_blocks (gs ! i)) \<union> ghost_blocks (h, t', blk'))" using N(5) by (simp only:)
  note U = cq_inv_update [OF inv ig N(1) _ this]
  have fr: "\<forall>b \<in> all_blocks gs - ghost_blocks (gs ! i). cblocks q' b = cblocks q b \<and> b \<notin> ghost_blocks (h, t', blk')"
    using N(7) unfolding gb ghost_blocks.simps by blast
  have go: "ghost_ok q' p' (h, t', blk')" using N(2,3) by simp
  have "map (ghost_contents q') (gs[i := (h, t', blk')]) = xss[i := xss ! i @ (if r then [x] else [])]"
    unfolding U(2) [OF go fr] xss using N(4) g ig by simp
  then have "cq_rep q' (xss[i := xss ! i @ (if r then [x] else [])])" unfolding cq_rep_def using U(1) [OF go fr] by metis
  moreover have "t + 32 - h < 2 ^ 63" if "length (xss ! i) < 2 ^ 63 - 32"
    using that prod_okD(1) [OF ok(1)] ig unfolding xss by (simp add: g ghost_contents_length del: ghost_contents.simps)
  ultimately show ?thesis using E by blast
qed

lemma implicit_dequeue_rep:
  assumes rep: "cq_rep q xss" and i: "i < length xss"
  shows "case xss ! i of [] \<Rightarrow> implicit_dequeue i q = (None, q)
    | x # xs \<Rightarrow> \<exists>q'. implicit_dequeue i q = (Some x, q') \<and> cq_rep q' (xss[i := xs])"
proof -
  obtain gs where inv: "cq_inv q gs" and xss: "xss = map (ghost_contents q) gs" using rep by (auto simp: cq_rep_def)
  note D = cq_invD [OF inv]
  have ig: "i < length gs" using i xss by simp
  obtain h t blk where g: "gs ! i = (h, t, blk)" by (cases "gs ! i")
  obtain fs where pool: "pool_ok q fs (all_blocks gs)" using D(4) by blast
  have ok: "prod_ok (producers q ! i) h t blk" "counts_ok q h t blk" using D(2) [OF ig] g by simp_all
  have gb: "ghost_blocks (gs ! i) = prod_blocks h t blk" using g by simp
  have sub: "prod_blocks h t blk \<subseteq> all_blocks gs" using ig gb by blast
  have xi: "xss ! i = prod_contents q h t blk" using ig g xss by simp
  show ?thesis
  proof (cases "h < t")
    case False
    then have "t = h" using prod_okD(1) [OF ok(1)] by simp
    then show ?thesis using dequeue_empty [of q i h blk] ok(1) xi by (simp add: prod_contents_def)
  next
    case True
    obtain q' p' fs' where E: "implicit_dequeue i q = (Some (elements (cblocks q (blk (h div 32))) (h mod 32)), q')"
        "producers q' = (producers q)[i := p']" "prod_ok p' (Suc h) t blk" "counts_ok q' (Suc h) t blk"
        "prod_contents q' (Suc h) t blk = prod_contents q (Suc h) t blk"
        "pool_ok q' fs' (all_blocks gs - (prod_blocks h t blk - prod_blocks (Suc h) t blk))"
        "\<forall>b. b \<notin> prod_blocks h t blk \<longrightarrow> cblocks q' b = cblocks q b"
      using dequeue_ok [OF ok True pool sub] ig D(1) by auto
    have less: "prod_blocks (Suc h) t blk \<subseteq> prod_blocks h t blk" by (intro image_mono) (auto intro: le_trans [OF div_le_mono])
    have "(all_blocks gs - ghost_blocks (gs ! i)) \<union> ghost_blocks (Suc h, t, blk) =
        all_blocks gs - (prod_blocks h t blk - prod_blocks (Suc h) t blk)"
      unfolding gb ghost_blocks.simps using less sub by blast
    then have "pool_ok q' fs' ((all_blocks gs - ghost_blocks (gs ! i)) \<union> ghost_blocks (Suc h, t, blk))"
      using E(6) by (simp only:)
    note U = cq_inv_update [OF inv ig E(2) _ this]
    have fr: "\<forall>b \<in> all_blocks gs - ghost_blocks (gs ! i). cblocks q' b = cblocks q b \<and> b \<notin> ghost_blocks (Suc h, t, blk)"
      using E(7) less unfolding gb ghost_blocks.simps by blast
    have go: "ghost_ok q' p' (Suc h, t, blk)" using E(3,4) by simp
    have "map (ghost_contents q') (gs[i := (Suc h, t, blk)]) = xss[i := prod_contents q (Suc h) t blk]"
      unfolding U(2) [OF go fr] xss using E(5) by simp
    then have "cq_rep q' (xss[i := prod_contents q (Suc h) t blk])" unfolding cq_rep_def using U(1) [OF go fr] by metis
    then show ?thesis unfolding xi contents_head [OF True] using E(1) by simp
  qed
qed

lemma producer_sizes:
  assumes inv: "cq_inv q gs" and i: "i < length gs"
  shows "producer_size_approx (producers q ! i) = of_nat (length (ghost_contents q (gs ! i)))"
    "length (ghost_contents q (gs ! i)) < 2 ^ 63"
proof -
  obtain h t blk where g: "gs ! i = (h, t, blk)" by (cases "gs ! i")
  have "prod_ok (producers q ! i) h t blk" using cq_invD(2) [OF inv i] g by simp
  note P = producer_size [OF this]
  show "producer_size_approx (producers q ! i) = of_nat (length (ghost_contents q (gs ! i)))"
    "length (ghost_contents q (gs ! i)) < 2 ^ 63" unfolding g ghost_contents_length using P by simp_all
qed

lemma cq_rep_sizes:
  assumes "cq_rep q xss"
  shows "length xss = length (producers q)"
    "i < length xss \<Longrightarrow> producer_size_approx (producers q ! i) = of_nat (length (xss ! i))"
    "i < length xss \<Longrightarrow> producer_size_approx (producers q ! i) > 0 \<longleftrightarrow> xss ! i \<noteq> []"
proof -
  obtain gs where gs: "cq_inv q gs" "xss = map (ghost_contents q) gs" using assms by (auto simp: cq_rep_def)
  show l: "length xss = length (producers q)" using gs cq_invD(1) [OF gs(1)] by simp
  assume i: "i < length xss"
  note P = producer_sizes [OF gs(1), of i]
  show s: "producer_size_approx (producers q ! i) = of_nat (length (xss ! i))" using P(1) i gs(2) by simp
  have "unat (of_nat (length (xss ! i)) :: c_size) = length (xss ! i)"
    using P(2) i gs(2) by (intro unat_of_nat_small) simp
  then show "producer_size_approx (producers q ! i) > 0 \<longleftrightarrow> xss ! i \<noteq> []" unfolding s by (simp add: word_less_nat_alt)
qed

lemma best_producer_spec:
  assumes "best_producer ps n best bs = (n', best')" "set ps \<subseteq> S" "n = 0 \<Longrightarrow> bs = 0"
    "0 < n \<Longrightarrow> \<exists>(i, p)\<in>S. best = Some i \<and> producer_size_approx p > 0"
  shows "(n = 0 \<and> n' = 0 \<and> (\<forall>(i, p)\<in>set ps. \<not> producer_size_approx p > 0)) \<or>
    (0 < n' \<and> (\<exists>(i, p)\<in>S. best' = Some i \<and> producer_size_approx p > 0))"
  using assms
proof (induction ps n best bs rule: best_producer.induct)
  case (1 n best bs)
  then show ?case by auto
next
  case (2 i p ps n best bs)
  show ?case
  proof (cases "n < 3")
    case False
    then show ?thesis using 2 by auto
  next
    case n: True
    show ?thesis
    proof (cases "producer_size_approx p > 0")
      case False
      then show ?thesis using 2(3) [OF _ refl False] 2(4-) n by (auto simp: Let_def)
    next
      case pos: True
      show ?thesis
      proof (cases "producer_size_approx p > bs")
        case True
        have "\<exists>(i', p')\<in>S. Some i = Some i' \<and> producer_size_approx p' > 0"
          using 2(5) pos by (intro bexI [of _ "(i, p)"]) auto
        then show ?thesis using 2(1) [OF _ refl pos True] 2(4,5) n pos True by (auto simp: Let_def)
      next
        case False
        then have "0 < n" using 2(6) pos by auto
        then show ?thesis using 2(2) [OF _ refl pos False] 2(4,5,7) n pos False by (auto simp: Let_def)
      qed
    qed
  qed
qed

lemma cq_try_dequeue_rep:
  assumes rep: "cq_rep q xss"
  shows "(list_all (\<lambda>xs. xs = []) xss \<and> cq_try_dequeue q = (None, q)) \<or>
    (\<exists>i x xs q'. i < length xss \<and> xss ! i = x # xs \<and> cq_try_dequeue q = (Some x, q') \<and> cq_rep q' (xss[i := xs]))"
proof -
  note S = cq_rep_sizes [OF rep]
  let ?ps = "zip [0..<length (producers q)] (producers q)"
  have ps: "(i, p) \<in> set ?ps \<longleftrightarrow> i < length xss \<and> p = producers q ! i" for i p
    unfolding S(1) in_set_zip by (auto intro: exI [of _ i])
  obtain n best where b: "best_producer (rev ?ps) 0 None 0 = (n, best)" by fastforce
  consider "n = 0" "\<forall>(i, p)\<in>set ?ps. \<not> producer_size_approx p > 0"
    | i p where "0 < n" "(i, p) \<in> set ?ps" "best = Some i" "producer_size_approx p > 0"
    using best_producer_spec [OF b, of "set ?ps"] by auto
  then show ?thesis
  proof cases
    case 1
    then have "xss ! i = []" if "i < length xss" for i using that S(3) [OF that] ps by blast
    then have "list_all (\<lambda>xs. xs = []) xss" by (simp add: list_all_length)
    then show ?thesis using 1 b by (simp add: cq_try_dequeue_def)
  next
    case 2
    have i: "i < length xss" "xss ! i \<noteq> []" using 2(2,4) ps S(3) by auto
    then obtain x xs where x: "xss ! i = x # xs" by (cases "xss ! i") auto
    obtain q' where "implicit_dequeue i q = (Some x, q')" "cq_rep q' (xss[i := xs])"
      using implicit_dequeue_rep [OF rep i(1)] x by auto
    then show ?thesis using 2 b i x by (auto simp: cq_try_dequeue_def)
  qed
qed

lemma cq_size_rep:
  assumes rep: "cq_rep q xss"
  shows "cq_size_approx q = of_nat (sum_list (map length xss))"
proof -
  note S = cq_rep_sizes [OF rep]
  have "map producer_size_approx (producers q) = map (\<lambda>xs. of_nat (length xs)) xss"
    using S by (intro nth_equalityI) simp_all
  then show ?thesis using sum_list_of_nat [of "map length xss"] by (simp add: cq_size_approx_def o_def)
qed

lemma cq_new_rep: "cq_rep (cq_new m raw cap) []"
proof -
  have "pool_ok (cq_new m raw cap) [] {}" by (simp add: pool_ok_def cq_new_def Let_def)
  then have "cq_inv (cq_new m raw cap) []" by (auto simp: cq_inv_def cq_new_def Let_def)
  then show ?thesis by (auto simp: cq_rep_def)
qed

text \<open>A new producer with an index is empty.\<close>

definition initial_header :: index_header where
  "initial_header = \<lparr>capacity = 32, index_tail = 31, index_slots = [0..<32]\<rparr>"

lemma initial_header_ok: "header_ok initial_header 32"
proof -
  have "(5 :: nat) \<le> 5 \<and> (5 :: nat) \<le> 58 \<and> unat (capacity initial_header) = 2 ^ 5" by (simp add: initial_header_def)
  then have "\<exists>c\<ge>5. c \<le> 58 \<and> unat (capacity initial_header) = 2 ^ c" by blast
  then show ?thesis unfolding header_ok_def by (simp add: initial_header_def atLeast0LessThan)
qed

lemma ImplicitProducer_index:
  "ImplicitProducer True raw = \<lparr>tailIndex = 0, headIndex = 0, dequeueOptimisticCount = 0, dequeueOvercommit = 0,
     prod_tailBlock = None, nextBlockIndexCapacity = 64, blockIndex = Some initial_header,
     entries = (\<lambda>e. if e < 32 then (raw e)\<lparr>entry_key := INVALID_BLOCK_BASE\<rparr> else raw e), entry_count = 32\<rparr>"
  by (simp add: ImplicitProducer_def new_block_index_def initial_header_def push_bit_eq_mult Let_def fun_eq_iff)

lemma ImplicitProducer_ok: "prod_ok (ImplicitProducer True raw) 0 0 blk"
proof -
  have "entry_free (ImplicitProducer True raw) (ring_slot initial_header d)" for d
    using ring_slot_less [OF initial_header_ok, of d] by (simp add: entry_free_def ImplicitProducer_index)
  then have "index_ok (ImplicitProducer True raw) initial_header 0 0 blk" by (simp add: index_ok_def)
  moreover have "(64 :: c_size) = 2 * capacity initial_header" by (simp add: initial_header_def)
  ultimately show ?thesis using initial_header_ok by (simp add: prod_ok_def ImplicitProducer_index)
qed

lemma add_producer_rep:
  assumes rep: "cq_rep q xss" and mem: "mem = (True, True)"
  shows "\<exists>q'. add_producer mem raw q = (True, q') \<and> cq_rep q' (xss @ [[]])"
proof -
  obtain gs where inv: "cq_inv q gs" and xss: "xss = map (ghost_contents q) gs" using rep by (auto simp: cq_rep_def)
  note D = cq_invD [OF inv]
  let ?p = "ImplicitProducer True raw" and ?g = "(0, 0, id) :: ghost"
  let ?q' = "q\<lparr>producers := producers q @ [?p]\<rparr>"
  have same: "ghost_ok ?q' p g = ghost_ok q p g" "ghost_contents ?q' g = ghost_contents q g" for p g
    using ghost_frame [of g ?q' q] by simp_all
  have empty: "ghost_blocks ?g = {}" "ghost_contents q ?g = []" by (simp_all add: prod_contents_def)
  obtain fs where pool: "pool_ok q fs (all_blocks gs)" using D(4) by blast
  have "all_blocks (gs @ [?g]) = all_blocks gs" using empty(1) by (auto simp: nth_append less_Suc_eq split: if_splits)
  moreover have "pool_ok ?q' fs (all_blocks gs)" using pool by (subst pool_ok_cong [where q = q]) simp_all
  ultimately have "pool_ok ?q' fs (all_blocks (gs @ [?g]))" by (simp only:)
  moreover have "ghost_ok ?q' (producers ?q' ! i) ((gs @ [?g]) ! i)" if "i < Suc (length gs)" for i
  proof (cases "i = length gs")
    case True
    then show ?thesis using D(1) ImplicitProducer_ok [of raw id] by (simp add: counts_ok_def nth_append)
  next
    case False
    then show ?thesis using that D(2) [of i] D(1) same by (simp add: nth_append)
  qed
  moreover have "ghost_blocks ((gs @ [?g]) ! i) \<inter> ghost_blocks ((gs @ [?g]) ! j) = {}"
    if "i < Suc (length gs)" "j < Suc (length gs)" "i \<noteq> j" for i j
    using D(3) [of i j] that empty(1) by (auto simp: nth_append less_Suc_eq)
  ultimately have "cq_inv ?q' (gs @ [?g])" unfolding cq_inv_def using D(1) by auto
  moreover have "xss @ [[]] = map (ghost_contents ?q') (gs @ [?g])" using xss same(2) by (simp add: prod_contents_def)
  ultimately have "cq_rep ?q' (xss @ [[]])" unfolding cq_rep_def by blast
  then show ?thesis using mem by (simp add: add_producer_def)
qed

section \<open>A producer without an index\<close>

text \<open>
  When the producer is allocated but its first block index is not, the constructor goes on
  with a null index, and the first enqueue reads through it: there is no result.
\<close>

theorem index_failure_is_fatal:
  assumes "add_producer (True, False) raw q = (ok, q')"
  shows "ok \<and> implicit_enqueue md mem (length (producers q)) x q' = None"
proof -
  have p: "ImplicitProducer False raw = \<lparr>tailIndex = 0, headIndex = 0, dequeueOptimisticCount = 0, dequeueOvercommit = 0,
      prod_tailBlock = None, nextBlockIndexCapacity = 32, blockIndex = None, entries = raw, entry_count = 0\<rparr>"
    by (simp add: ImplicitProducer_def new_block_index_def)
  have "circular_less_than 0 BLOCK_SIZE" using circular_less_than_of_nat [of 0 32] by (simp add: BLOCK_SIZE_def)
  moreover have "\<not> circular_less_than 0 0" by (simp add: circular_less_than_def)
  ultimately show ?thesis
    using assms by (auto simp: add_producer_def implicit_enqueue_def insert_block_index_entry_def p)
qed

theorem index_failure_is_fatal_witness:
  "implicit_enqueue Can_alloc (True, True) 0 (5 :: nat) (snd (add_producer (True, False) (\<lambda>_. \<lparr>entry_key = 0, entry_value = None\<rparr>) (cq_new True (\<lambda>_ _. 0) 64))) = None"
  using index_failure_is_fatal [OF surjective_pairing, of "\<lambda>_. \<lparr>entry_key = 0, entry_value = None\<rparr>" "cq_new True (\<lambda>_ _. 0 :: nat) 64" Can_alloc "(True, True)" 5]
  by (simp add: cq_new_def Let_def)

end
