(* ===== verification/CQThreads.thy ===== *)
theory CQThreads
  imports CQHash CQSpec
begin

text \<open>
  The queue as threads use it: \<open>enqueue\<close> and \<open>try_enqueue\<close> of \<open>ConcurrentQueue\<close> find or make the
  producer of the calling thread.  The specification is one first-in first-out list per thread.
\<close>

section \<open>Operations\<close>

record 'a tqueue =
  tq :: "'a cqueue"
  implicitProducerHash :: "ImplicitProducerHash list"
  implicitProducerHashCount :: c_size

text \<open>Which allocations of a call succeed: a bigger table, the producer and its index, the enqueue.\<close>

record mem_result =
  mem_hash :: bool
  mem_producer :: "bool \<times> bool"
  mem_enqueue :: "bool \<times> bool"

text \<open>The block that holds the resize lock; \<open>Some None\<close> without memory.\<close>

definition resize_hashes ::
    "bool \<Rightarrow> c_size \<Rightarrow> ImplicitProducerHash list \<Rightarrow> ImplicitProducerHash list option option" where
  "resize_hashes mem newCount hashes =
     (let mainHash = hd hashes in
      if newCount \<ge> drop_bit 1 (hash_capacity mainHash)
      then (case grow_capacity newCount (push_bit 1 (hash_capacity mainHash)) of
              None \<Rightarrow> None
            | Some newCapacity \<Rightarrow> Some (if mem then Some (new_hash newCapacity # hashes) else None))
      else Some (Some hashes))"

text \<open>The loop that inserts the thread; the result is the producer or null.\<close>

partial_function (option) add_implicit_producer ::
    "mem_result \<Rightarrow> (nat \<Rightarrow> index_entry) \<Rightarrow> thread_id \<Rightarrow> c_size \<Rightarrow> 'a tqueue \<Rightarrow> (nat option \<times> 'a tqueue) option" where
  "add_implicit_producer mem raw tid newCount s =
     (case resize_hashes (mem_hash mem) newCount (implicitProducerHash s) of
        None \<Rightarrow> None
      | Some None \<Rightarrow> Some (None, s\<lparr>implicitProducerHashCount := implicitProducerHashCount s - 1\<rparr>)
      | Some (Some hashes) \<Rightarrow>
          let s = s\<lparr>implicitProducerHash := hashes\<rparr>; mainHash = hd hashes in
          if newCount < drop_bit 1 (hash_capacity mainHash) + drop_bit 2 (hash_capacity mainHash)
          then (case add_producer (mem_producer mem) raw (tq s) of
                  (False, q) \<Rightarrow> Some (None, s\<lparr>tq := q, implicitProducerHashCount := implicitProducerHashCount s - 1\<rparr>)
                | (True, q) \<Rightarrow>
                    (case enter_id tid (Some (length (producers (tq s)))) mainHash of
                       None \<Rightarrow> None
                     | Some hash \<Rightarrow> Some (Some (length (producers (tq s))), s\<lparr>tq := q, implicitProducerHash := hash # tl hashes\<rparr>)))
          else add_implicit_producer mem raw tid newCount s)"

definition get_or_add_implicit_producer ::
    "mem_result \<Rightarrow> (nat \<Rightarrow> index_entry) \<Rightarrow> thread_id \<Rightarrow> 'a tqueue \<Rightarrow> (nat option \<times> 'a tqueue) option" where
  "get_or_add_implicit_producer mem raw tid s =
     (case search_hashes tid (implicitProducerHash s) 0 of
        None \<Rightarrow> None
      | Some (Some (n, v)) \<Rightarrow>
          if n = 0 then Some (v, s)
          else (case enter_id tid v (hd (implicitProducerHash s)) of
                  None \<Rightarrow> None
                | Some hash \<Rightarrow> Some (v, s\<lparr>implicitProducerHash := hash # tl (implicitProducerHash s)\<rparr>))
      | Some None \<Rightarrow>
          let newCount = 1 + implicitProducerHashCount s
          in add_implicit_producer mem raw tid newCount (s\<lparr>implicitProducerHashCount := newCount\<rparr>))"

definition tq_inner_enqueue ::
    "alloc_mode \<Rightarrow> mem_result \<Rightarrow> (nat \<Rightarrow> index_entry) \<Rightarrow> thread_id \<Rightarrow> 'a \<Rightarrow> 'a tqueue \<Rightarrow> (bool \<times> 'a tqueue) option" where
  "tq_inner_enqueue canAlloc mem raw tid x s =
     (case get_or_add_implicit_producer mem raw tid s of
        None \<Rightarrow> None
      | Some (None, s) \<Rightarrow> Some (False, s)
      | Some (Some i, s) \<Rightarrow>
          map_option (map_prod id (\<lambda>q. s\<lparr>tq := q\<rparr>)) (implicit_enqueue canAlloc (mem_enqueue mem) i x (tq s)))"

definition tq_enqueue ::
    "mem_result \<Rightarrow> (nat \<Rightarrow> index_entry) \<Rightarrow> thread_id \<Rightarrow> 'a \<Rightarrow> 'a tqueue \<Rightarrow> (bool \<times> 'a tqueue) option" where
  "tq_enqueue mem raw tid x s =
     (if INITIAL_IMPLICIT_PRODUCER_HASH_SIZE = 0 then Some (False, s) else tq_inner_enqueue Can_alloc mem raw tid x s)"

definition tq_try_enqueue ::
    "mem_result \<Rightarrow> (nat \<Rightarrow> index_entry) \<Rightarrow> thread_id \<Rightarrow> 'a \<Rightarrow> 'a tqueue \<Rightarrow> (bool \<times> 'a tqueue) option" where
  "tq_try_enqueue mem raw tid x s =
     (if INITIAL_IMPLICIT_PRODUCER_HASH_SIZE = 0 then Some (False, s) else tq_inner_enqueue Cannot_alloc mem raw tid x s)"

definition tq_try_dequeue :: "'a tqueue \<Rightarrow> 'a option \<times> 'a tqueue" where
  "tq_try_dequeue s = map_prod id (\<lambda>q. s\<lparr>tq := q\<rparr>) (cq_try_dequeue (tq s))"

definition populate_initial_implicit_producer_hash :: "'a cqueue \<Rightarrow> 'a tqueue" where
  "populate_initial_implicit_producer_hash q =
     \<lparr>tq = q, implicitProducerHash = [new_hash INITIAL_IMPLICIT_PRODUCER_HASH_SIZE], implicitProducerHashCount = 0\<rparr>"

definition tq_new :: "bool \<Rightarrow> (nat \<Rightarrow> nat \<Rightarrow> 'a) \<Rightarrow> c_size \<Rightarrow> 'a tqueue" where
  "tq_new mem raw cap = populate_initial_implicit_producer_hash (cq_new mem raw cap)"

section \<open>Invariant of the tables\<close>

text \<open>User addresses on x86-64 are below \<open>2 ^ 47\<close>.\<close>

definition valid_thread_id :: "thread_id \<Rightarrow> bool" where
  "valid_thread_id tid \<longleftrightarrow> tid \<noteq> 0 \<and> tid < 2 ^ 47"

text \<open>\<open>ids ! i\<close> is the thread of producer \<open>i\<close>.\<close>

definition registered :: "thread_id list \<Rightarrow> (thread_id \<times> nat option) set" where
  "registered ids = (\<lambda>i. (ids ! i, Some i)) ` {..<length ids}"

definition hashes_ok :: "thread_id list \<Rightarrow> ImplicitProducerHash list \<Rightarrow> bool" where
  "hashes_ok ids hashes \<longleftrightarrow> hashes \<noteq> [] \<and> distinct ids \<and> list_all valid_thread_id ids \<and>
     (\<forall>h\<in>set hashes. table_ok h \<and> hash_pairs h \<subseteq> registered ids) \<and>
     set ids \<subseteq> (\<Union>h\<in>set hashes. hash_keys h) \<and> 2 * length ids < hash_size (hd hashes)"

lemma hashes_okD:
  assumes "hashes_ok ids hashes"
  shows "hashes \<noteq> []" "distinct ids" "list_all valid_thread_id ids" "\<And>h. h \<in> set hashes \<Longrightarrow> table_ok h"
    "\<And>h. h \<in> set hashes \<Longrightarrow> hash_pairs h \<subseteq> registered ids" "set ids \<subseteq> (\<Union>h\<in>set hashes. hash_keys h)"
    "2 * length ids < hash_size (hd hashes)"
  using assms unfolding hashes_ok_def by blast+

lemma registered_fst: "fst ` registered ids = set ids"
  by (auto simp: registered_def in_set_conv_nth image_iff)

lemma registered_append: "registered (ids @ [tid]) = insert (tid, Some (length ids)) (registered ids)"
proof -
  have "(\<lambda>i. ((ids @ [tid]) ! i, Some i)) ` {..<length ids} = registered ids"
    unfolding registered_def by (intro image_cong) (simp_all add: nth_append)
  then show ?thesis unfolding registered_def by (simp add: lessThan_Suc)
qed

lemma valid_ids_bound:
  assumes "distinct ids" "list_all valid_thread_id ids"
  shows "length ids \<le> 2 ^ 47"
proof -
  have "unat ` set ids \<subseteq> {..<2 ^ 47}"
    using assms(2) by (auto simp: list_all_iff valid_thread_id_def word_less_nat_alt)
  then have "card (unat ` set ids) \<le> 2 ^ 47" using card_mono [of "{..<2 ^ 47}" "unat ` set ids"] by simp
  moreover have "card (unat ` set ids) = length ids"
    using assms(1) by (subst card_image) (auto intro: inj_onI simp: word_unat_eq_iff distinct_card)
  ultimately show ?thesis by simp
qed

lemma search_hashes_ok:
  assumes "\<forall>h\<in>set hashes. table_ok h" "tid \<noteq> 0"
  shows "\<exists>r. search_hashes tid hashes n = Some r \<and>
    (case r of None \<Rightarrow> \<forall>h\<in>set hashes. tid \<notin> hash_keys h
     | Some (k, v) \<Rightarrow> n \<le> k \<and> k < n + length hashes \<and> (tid, v) \<in> hash_pairs (hashes ! (k - n)) \<and>
         (n < k \<longrightarrow> tid \<notin> hash_keys (hd hashes)))"
  using assms(1)
proof (induction hashes arbitrary: n)
  case (Cons h hs)
  obtain r where r: "probe_id tid h (hash_thread_id tid) = Some r"
    "case r of None \<Rightarrow> tid \<notin> hash_keys h | Some i \<Rightarrow> i < hash_size h \<and> key_at h i = tid"
    using probe_id_ok [of h tid] Cons.prems assms(2) by auto
  show ?case
  proof (cases r)
    case (Some i)
    then have "(tid, kvp_value (hash_entries h ! i)) \<in> hash_pairs h" using r assms(2) by (auto simp: hash_pairs_def)
    then show ?thesis using r Some by simp
  next
    case None
    obtain r' where "search_hashes tid hs (Suc n) = Some r'"
      "case r' of None \<Rightarrow> \<forall>h\<in>set hs. tid \<notin> hash_keys h
       | Some (k, v) \<Rightarrow> Suc n \<le> k \<and> k < Suc n + length hs \<and> (tid, v) \<in> hash_pairs (hs ! (k - Suc n)) \<and>
           (Suc n < k \<longrightarrow> tid \<notin> hash_keys (hd hs))"
      using Cons.IH [of "Suc n"] Cons.prems by auto
    then show ?thesis using r None by (auto split: option.splits simp: nth_Cons')
  qed
qed simp

lemma main_table_room:
  assumes ok: "hashes_ok ids hashes"
  shows "Suc (card (hash_keys (hd hashes))) < hash_size (hd hashes)" "hash_keys (hd hashes) \<subseteq> set ids"
proof -
  note D = hashes_okD [OF ok]
  have h: "hd hashes \<in> set hashes" using D(1) by simp
  show k: "hash_keys (hd hashes) \<subseteq> set ids"
    using image_mono [OF D(5) [OF h], of fst] unfolding hash_keys_pairs registered_fst .
  then have "card (hash_keys (hd hashes)) \<le> length ids" using card_mono [OF _ k] distinct_card [OF D(2)] by simp
  moreover obtain c where "5 \<le> c" "hash_size (hd hashes) = 2 ^ c" using table_okD(1) [OF D(4) [OF h]] by blast
  then have "(2 :: nat) ^ 5 \<le> hash_size (hd hashes)" by (simp only:) (rule power_increasing, simp_all)
  ultimately show "Suc (card (hash_keys (hd hashes))) < hash_size (hd hashes)" using D(7) by simp
qed

text \<open>A thread is entered into the newest table.\<close>

lemma hashes_enter:
  assumes ok: "hashes_ok ids hashes" and tid: "tid \<noteq> 0" "tid \<notin> hash_keys (hd hashes)"
    and ids': "registered ids \<subseteq> registered ids'" "(tid, v) \<in> registered ids'" "set ids' = insert tid (set ids)"
    "distinct ids'" "list_all valid_thread_id ids'" "2 * length ids' < hash_size (hd hashes)"
  shows "\<exists>hash. enter_id tid v (hd hashes) = Some hash \<and> hashes_ok ids' (hash # tl hashes)"
proof -
  note D = hashes_okD [OF ok]
  have h: "hd hashes \<in> set hashes" using D(1) by simp
  have tl: "set hashes = insert (hd hashes) (set (tl hashes))" using D(1) by (cases hashes) auto
  obtain hash where E: "enter_id tid v (hd hashes) = Some hash" "table_ok hash"
      "hash_pairs hash = insert (tid, v) (hash_pairs (hd hashes))" "hash_size hash = hash_size (hd hashes)"
    using enter_id_ok [OF D(4) [OF h] tid main_table_room(1) [OF ok], of v] by blast
  have k: "hash_keys hash = insert tid (hash_keys (hd hashes))" unfolding hash_keys_pairs E(3) by simp
  have "set ids' \<subseteq> (\<Union>h\<in>set (hash # tl hashes). hash_keys h)"
    using D(6) unfolding tl ids'(3) by (auto simp: k)
  moreover have "\<forall>h\<in>set (hash # tl hashes). table_ok h \<and> hash_pairs h \<subseteq> registered ids'"
  proof
    fix h' assume "h' \<in> set (hash # tl hashes)"
    then consider "h' = hash" | "h' \<in> set hashes" unfolding tl by auto
    then show "table_ok h' \<and> hash_pairs h' \<subseteq> registered ids'"
    proof cases
      case 1
      then show ?thesis using E(2,3) D(5) [OF h] ids'(1,2) by auto
    next
      case 2
      then show ?thesis using D(4,5) [OF 2] ids'(1) by blast
    qed
  qed
  ultimately show ?thesis using E(1,4) ids' unfolding hashes_ok_def by simp
qed

lemma half_capacity:
  assumes "table_ok h" "n < 2 ^ 64"
  shows "(of_nat n :: c_size) \<ge> drop_bit 1 (hash_capacity h) \<longleftrightarrow> hash_size h \<le> 2 * n"
proof -
  obtain c where c: "5 \<le> c" "hash_size h = 2 ^ c" using table_okD(1) [OF assms(1)] by blast
  then obtain d where d: "hash_size h = 2 * 2 ^ d" by (cases c) auto
  have "unat (of_nat n :: c_size) = n" using assms(2) by (intro unat_of_nat_small) simp
  moreover have "unat (drop_bit 1 (hash_capacity h)) = 2 ^ d"
    unfolding unat_drop_bit_eq table_okD(2) [OF assms(1)] d by (simp add: drop_bit_eq_div)
  ultimately show ?thesis using d by (simp only: word_le_nat_alt) simp
qed

text \<open>Half full is less than three quarters full.\<close>

lemma three_quarters: "drop_bit 1 w \<le> drop_bit 1 w + drop_bit 2 (w :: c_size)"
proof -
  have "unat w < 2 ^ LENGTH(64)" by (rule unsigned_less)
  then have "unat w div 2 ^ 1 + unat w div 2 ^ 2 < 2 ^ LENGTH(64)" by simp
  then have "unat (drop_bit 1 w) + unat (drop_bit 2 w) < 2 ^ LENGTH(64)"
    unfolding unat_drop_bit_eq unfolding drop_bit_eq_div .
  then show ?thesis by (simp add: word_le_nat_alt unat_word_ariths)
qed

text \<open>One doubling is enough.\<close>

lemma resize_ok:
  assumes ok: "hashes_ok ids hashes" and len: "length ids < 2 ^ 47"
  defines "c \<equiv> of_nat (Suc (length ids)) :: c_size"
  shows "(\<not> mem \<and> resize_hashes mem c hashes = Some None) \<or>
    (\<exists>hashes'. resize_hashes mem c hashes = Some (Some hashes') \<and> hashes_ok ids hashes' \<and>
      2 * Suc (length ids) < hash_size (hd hashes') \<and> (\<forall>tid. tid \<notin> set ids \<longrightarrow> tid \<notin> hash_keys (hd hashes')))"
proof -
  note D = hashes_okD [OF ok]
  let ?h = "hd hashes" and ?n = "Suc (length ids)"
  have h: "?h \<in> set hashes" using D(1) by simp
  have tok: "table_ok ?h" using D(4) [OF h] .
  obtain k where k: "5 \<le> k" "k < 64" "hash_size ?h = 2 ^ k" using table_okD(1) [OF tok] by blast
  have half: "c \<ge> drop_bit 1 (hash_capacity ?h) \<longleftrightarrow> hash_size ?h \<le> 2 * ?n"
    unfolding c_def using len by (intro half_capacity [OF tok]) simp
  have old: "tid \<notin> set ids \<Longrightarrow> tid \<notin> hash_keys ?h" for tid using main_table_room(2) [OF ok] by blast
  show ?thesis
  proof (cases "hash_size ?h \<le> 2 * ?n")
    case False
    then have "resize_hashes mem c hashes = Some (Some hashes)" using half by (simp add: resize_hashes_def Let_def)
    then show ?thesis using ok False old by auto
  next
    case True
    then have "(2 :: nat) ^ k < 2 ^ 49" using k(3) len by simp
    then have k49: "k < 49" by (rule power_less_imp_less_exp [rotated]) simp
    let ?new = "push_bit 1 (hash_capacity ?h)"
    have "(2 :: nat) * 2 ^ k < 2 ^ 64" using \<open>(2 :: nat) ^ k < 2 ^ 49\<close> by simp
    then have new: "unat ?new = 2 ^ Suc k"
      using table_okD(2) [OF tok] k(3) by (simp add: push_bit_eq_mult unat_word_ariths mult.commute)
    have N: "table_ok (new_hash ?new)" "hash_pairs (new_hash ?new) = {}" "hash_size (new_hash ?new) = 2 ^ Suc k"
      using new_hash_ok [OF new] k k49 by simp_all
    have cap: "hash_capacity (new_hash ?new) = ?new" by (simp add: new_hash_def)
    have "2 * ?n < 2 ^ Suc k" using D(7) k(1,3) by (cases k) auto
    then have "\<not> c \<ge> drop_bit 1 ?new"
      using half_capacity [OF N(1), of ?n] N(3) len unfolding c_def cap by simp
    then have "grow_capacity c ?new = Some ?new" by (subst grow_capacity.simps) simp
    then have R: "resize_hashes mem c hashes = Some (if mem then Some (new_hash ?new # hashes) else None)"
      using True half by (simp add: resize_hashes_def Let_def)
    have "hashes_ok ids (new_hash ?new # hashes)"
      unfolding hashes_ok_def using D N \<open>2 * ?n < 2 ^ Suc k\<close> by auto
    moreover have "hash_keys (new_hash ?new) = {}" unfolding hash_keys_pairs N(2) by simp
    ultimately show ?thesis using R N(3) \<open>2 * ?n < 2 ^ Suc k\<close> by (cases mem) auto
  qed
qed

section \<open>Threads and their lists\<close>

text \<open>\<open>al\<close> has the threads in the order of their producers, each with the elements it has in the queue.\<close>

definition tq_rep :: "'a tqueue \<Rightarrow> (thread_id \<times> 'a list) list \<Rightarrow> bool" where
  "tq_rep s al \<longleftrightarrow> cq_rep (tq s) (map snd al) \<and> hashes_ok (map fst al) (implicitProducerHash s) \<and>
     implicitProducerHashCount s = of_nat (length al)"

text \<open>A producer that is allocated gets its index.\<close>

definition mem_ok :: "mem_result \<Rightarrow> bool" where
  "mem_ok mem \<longleftrightarrow> fst (mem_producer mem) \<longrightarrow> snd (mem_producer mem)"

definition enrolled :: "thread_id \<Rightarrow> (thread_id \<times> 'a list) list \<Rightarrow> (thread_id \<times> 'a list) list" where
  "enrolled tid al = (if tid \<in> fst ` set al then al else al @ [(tid, [])])"

lemma add_implicit_producer_ok:
  assumes rep: "tq_rep s al" and tid: "valid_thread_id tid" "tid \<notin> fst ` set al" and mem: "mem_ok mem"
  defines "c \<equiv> 1 + implicitProducerHashCount s"
  shows "\<exists>r s'. add_implicit_producer mem raw tid c (s\<lparr>implicitProducerHashCount := c\<rparr>) = Some (r, s') \<and>
    (case r of None \<Rightarrow> tq_rep s' al \<and> \<not> (mem_hash mem \<and> fst (mem_producer mem))
     | Some i \<Rightarrow> i = length al \<and> tq_rep s' (al @ [(tid, [])]))"
proof -
  let ?ids = "map fst al" and ?hs = "implicitProducerHash s"
  have R: "cq_rep (tq s) (map snd al)" "hashes_ok ?ids ?hs" "implicitProducerHashCount s = of_nat (length al)"
    using rep by (simp_all add: tq_rep_def)
  note D = hashes_okD [OF R(2)]
  have ext: "distinct (?ids @ [tid])" "list_all valid_thread_id (?ids @ [tid])" using D(2,3) tid by auto
  have len: "length ?ids < 2 ^ 47" using valid_ids_bound [OF ext] by simp
  have c: "c = of_nat (Suc (length ?ids))" unfolding c_def R(3) by simp
  have undo: "c - 1 = implicitProducerHashCount s" by (simp add: c_def)
  have np: "length (producers (tq s)) = length al" using cq_rep_sizes(1) [OF R(1)] by simp
  note rs = resize_ok [OF R(2) len, of "mem_hash mem", folded c]
  show ?thesis
  proof (cases "resize_hashes (mem_hash mem) c ?hs = Some None")
    case True
    then have "add_implicit_producer mem raw tid c (s\<lparr>implicitProducerHashCount := c\<rparr>) = Some (None, s\<lparr>implicitProducerHashCount := c - 1\<rparr>)"
      by (subst add_implicit_producer.simps) simp
    moreover have "tq_rep (s\<lparr>implicitProducerHashCount := c - 1\<rparr>) al" using R by (simp add: tq_rep_def undo)
    ultimately show ?thesis using rs True by auto
  next
    case False
    then obtain hs where hs: "resize_hashes (mem_hash mem) c ?hs = Some (Some hs)" "hashes_ok ?ids hs"
      "2 * Suc (length ?ids) < hash_size (hd hs)" "\<forall>tid. tid \<notin> set ?ids \<longrightarrow> tid \<notin> hash_keys (hd hs)" using rs by auto
    have hok: "table_ok (hd hs)" using hashes_okD(1,4) [OF hs(2)] by simp
    have nh: "tid \<notin> hash_keys (hd hs)" using hs(4) tid(2) by simp
    have "\<not> c \<ge> drop_bit 1 (hash_capacity (hd hs))"
      unfolding c using half_capacity [OF hok, of "Suc (length ?ids)"] hs(3) len by simp
    then have below: "c < drop_bit 1 (hash_capacity (hd hs)) + drop_bit 2 (hash_capacity (hd hs))"
      using three_quarters [of "hash_capacity (hd hs)"] by (simp add: not_le)
    show ?thesis
    proof (cases "fst (mem_producer mem)")
      case no: False
      then have "add_implicit_producer mem raw tid c (s\<lparr>implicitProducerHashCount := c\<rparr>) =
          Some (None, s\<lparr>implicitProducerHash := hs, implicitProducerHashCount := c - 1\<rparr>)"
        using hs(1) below by (subst add_implicit_producer.simps) (simp add: Let_def add_producer_def)
      moreover have "tq_rep (s\<lparr>implicitProducerHash := hs, implicitProducerHashCount := c - 1\<rparr>) al"
        using R(1,3) hs(2) by (simp add: tq_rep_def undo)
      ultimately show ?thesis using no by auto
    next
      case True
      then have mp: "mem_producer mem = (True, True)" using mem by (cases "mem_producer mem") (simp add: mem_ok_def)
      obtain q where q: "add_producer (mem_producer mem) raw (tq s) = (True, q)" "cq_rep q (map snd al @ [[]])"
        using add_producer_rep [OF R(1) mp] by blast
      have "\<exists>hash. enter_id tid (Some (length al)) (hd hs) = Some hash \<and> hashes_ok (?ids @ [tid]) (hash # tl hs)"
        using ext hs(3) tid(1)
        by (intro hashes_enter [OF hs(2) _ nh]) (auto simp: registered_append valid_thread_id_def)
      then obtain hash where hash: "enter_id tid (Some (length al)) (hd hs) = Some hash" "hashes_ok (?ids @ [tid]) (hash # tl hs)" by blast
      then have "add_implicit_producer mem raw tid c (s\<lparr>implicitProducerHashCount := c\<rparr>) =
          Some (Some (length al), s\<lparr>implicitProducerHashCount := c, implicitProducerHash := hash # tl hs, tq := q\<rparr>)"
        using hs(1) below q(1) np by (subst add_implicit_producer.simps) (simp add: Let_def)
      moreover have "tq_rep (s\<lparr>implicitProducerHashCount := c, implicitProducerHash := hash # tl hs, tq := q\<rparr>) (al @ [(tid, [])])"
        using q(2) hash(2) c by (simp add: tq_rep_def)
      ultimately show ?thesis by auto
    qed
  qed
qed

lemma get_or_add_ok:
  assumes rep: "tq_rep s al" and tid: "valid_thread_id tid" and mem: "mem_ok mem"
  shows "\<exists>r s'. get_or_add_implicit_producer mem raw tid s = Some (r, s') \<and>
    (case r of None \<Rightarrow> tq_rep s' al \<and> \<not> (mem_hash mem \<and> fst (mem_producer mem))
     | Some i \<Rightarrow> tq_rep s' (enrolled tid al) \<and> i < length (enrolled tid al) \<and> fst (enrolled tid al ! i) = tid)"
proof -
  let ?ids = "map fst al" and ?hs = "implicitProducerHash s"
  have R: "cq_rep (tq s) (map snd al)" "hashes_ok ?ids ?hs" "implicitProducerHashCount s = of_nat (length al)"
    using rep by (simp_all add: tq_rep_def)
  note D = hashes_okD [OF R(2)]
  have t0: "tid \<noteq> 0" using tid by (simp add: valid_thread_id_def)
  obtain r where r: "search_hashes tid ?hs 0 = Some r"
    "case r of None \<Rightarrow> \<forall>h\<in>set ?hs. tid \<notin> hash_keys h
     | Some (k, v) \<Rightarrow> 0 \<le> k \<and> k < 0 + length ?hs \<and> (tid, v) \<in> hash_pairs (?hs ! (k - 0)) \<and> (0 < k \<longrightarrow> tid \<notin> hash_keys (hd ?hs))"
    using search_hashes_ok [of ?hs tid 0] D(4) t0 by blast
  show ?thesis
  proof (cases r)
    case None
    then have "tid \<notin> fst ` set al" using r D(6) by auto
    then obtain r' s' where A: "get_or_add_implicit_producer mem raw tid s = Some (r', s')"
      "case r' of None \<Rightarrow> tq_rep s' al \<and> \<not> (mem_hash mem \<and> fst (mem_producer mem))
       | Some i \<Rightarrow> i = length al \<and> tq_rep s' (al @ [(tid, [])])"
      using add_implicit_producer_ok [OF rep tid _ mem, of raw] r(1) None
      unfolding get_or_add_implicit_producer_def Let_def by (simp only: option.case) blast
    have "enrolled tid al = al @ [(tid, [])]" using \<open>tid \<notin> fst ` set al\<close> by (simp add: enrolled_def)
    then show ?thesis using A by (cases r') auto
  next
    case (Some kv)
    obtain k v where kv: "kv = (k, v)" by (cases kv)
    have k: "k < length ?hs" "(tid, v) \<in> hash_pairs (?hs ! k)" "0 < k \<longrightarrow> tid \<notin> hash_keys (hd ?hs)"
      using r(2) Some kv by auto
    then have reg: "(tid, v) \<in> registered ?ids" using D(5) [of "?hs ! k"] by auto
    then obtain i where i: "i < length al" "v = Some i" "fst (al ! i) = tid" by (auto simp: registered_def)
    have mem: "tid \<in> fst ` set al" using i(1,3) by (metis image_eqI nth_mem)
    then have en: "enrolled tid al = al" by (simp add: enrolled_def)
    show ?thesis
    proof (cases "k = 0")
      case True
      then show ?thesis using r Some kv i rep en by (simp add: get_or_add_implicit_producer_def)
    next
      case False
      have "\<exists>hash. enter_id tid v (hd ?hs) = Some hash \<and> hashes_ok ?ids (hash # tl ?hs)"
        using k(3) False reg D(2,3,7) mem by (intro hashes_enter [OF R(2) t0]) auto
      then obtain hash where "enter_id tid v (hd ?hs) = Some hash" "hashes_ok ?ids (hash # tl ?hs)" by blast
      then show ?thesis using r Some kv i en False R by (simp add: get_or_add_implicit_producer_def tq_rep_def)
    qed
  qed
qed

text \<open>An enqueue appends to the list of its thread.\<close>

definition add_to :: "thread_id \<Rightarrow> 'a \<Rightarrow> (thread_id \<times> 'a list) list \<Rightarrow> (thread_id \<times> 'a list) list" where
  "add_to tid x al = map (\<lambda>(t, xs). if t = tid then (t, xs @ [x]) else (t, xs)) (enrolled tid al)"

lemma add_to_update:
  assumes "distinct (map fst l)" "i < length l" "fst (l ! i) = tid"
  shows "map (\<lambda>(t, xs). if t = tid then (t, xs @ [x]) else (t, xs)) l = l[i := (tid, snd (l ! i) @ [x])]"
proof (rule nth_equalityI)
  fix k assume "k < length (map (\<lambda>(t, xs). if t = tid then (t, xs @ [x]) else (t, xs)) l)"
  then have k: "k < length l" by simp
  then have "fst (l ! k) = tid \<longleftrightarrow> k = i" using assms nth_eq_iff_index_eq [of "map fst l" k i] by simp
  then show "map (\<lambda>(t, xs). if t = tid then (t, xs @ [x]) else (t, xs)) l ! k = l[i := (tid, snd (l ! i) @ [x])] ! k"
    using k by (cases "l ! k") (auto simp: nth_list_update)
qed simp

lemma tq_inner_enqueue_rep:
  assumes rep: "tq_rep s al" and tid: "valid_thread_id tid" and mem: "mem_ok mem"
  shows "\<exists>r s'. tq_inner_enqueue md mem raw tid x s = Some (r, s') \<and>
    (if r then tq_rep s' (add_to tid x al) else tq_rep s' al \<or> tq_rep s' (enrolled tid al)) \<and>
    (md = Can_alloc \<and> mem_hash mem \<and> fst (mem_producer mem) \<and> mem_enqueue mem = (True, True) \<and>
     list_all (\<lambda>(t, xs). length xs < 2 ^ 63 - 32) al \<longrightarrow> r)"
proof -
  obtain p s1 where P: "get_or_add_implicit_producer mem raw tid s = Some (p, s1)"
    "case p of None \<Rightarrow> tq_rep s1 al \<and> \<not> (mem_hash mem \<and> fst (mem_producer mem))
     | Some i \<Rightarrow> tq_rep s1 (enrolled tid al) \<and> i < length (enrolled tid al) \<and> fst (enrolled tid al ! i) = tid"
    using get_or_add_ok [OF assms, of raw] by blast
  show ?thesis
  proof (cases p)
    case None
    then show ?thesis using P by (auto simp: tq_inner_enqueue_def)
  next
    case (Some i)
    let ?en = "enrolled tid al"
    have i: "tq_rep s1 ?en" "i < length ?en" "fst (?en ! i) = tid" using P Some by auto
    have R: "cq_rep (tq s1) (map snd ?en)" "hashes_ok (map fst ?en) (implicitProducerHash s1)"
      "implicitProducerHashCount s1 = of_nat (length ?en)" using i(1) by (simp_all add: tq_rep_def)
    obtain r q where E: "implicit_enqueue md (mem_enqueue mem) i x (tq s1) = Some (r, q)"
      "cq_rep q ((map snd ?en)[i := map snd ?en ! i @ (if r then [x] else [])])"
      "md = Can_alloc \<and> mem_enqueue mem = (True, True) \<and> length (map snd ?en ! i) < 2 ^ 63 - 32 \<longrightarrow> r"
      using implicit_enqueue_rep [OF R(1), of i md "mem_enqueue mem" x] i(2) by auto
    define s2 where "s2 = s1\<lparr>tq := q\<rparr>"
    have T: "tq_inner_enqueue md mem raw tid x s = Some (r, s2)"
      using P(1) Some E(1) by (simp add: tq_inner_enqueue_def s2_def)
    have upd: "add_to tid x al = ?en[i := (tid, snd (?en ! i) @ [x])]"
      unfolding add_to_def using hashes_okD(2) [OF R(2)] i(2,3) by (rule add_to_update)
    have same: "(map fst ?en)[i := tid] = map fst ?en" "(map snd ?en)[i := snd (?en ! i)] = map snd ?en"
      using i(2,3) by (metis list_update_id nth_map)+
    have "tq_rep s2 (if r then add_to tid x al else ?en)"
      using E(2) R(2,3) i(2) by (cases r) (simp_all add: tq_rep_def s2_def upd map_update same)
    moreover have "length (map snd ?en ! i) < 2 ^ 63 - 32" if "list_all (\<lambda>(t, xs). length xs < 2 ^ 63 - 32) al"
    proof -
      have "list_all (\<lambda>(t, xs). length xs < 2 ^ 63 - 32) ?en" using that by (simp add: enrolled_def)
      then have "(\<lambda>(t, xs). length xs < 2 ^ 63 - 32) (?en ! i)" using i(2) by (simp only: list_all_length)
      then show ?thesis using i(2) by (simp add: case_prod_beta)
    qed
    ultimately show ?thesis using T E(3) by (intro exI [of _ r] exI [of _ s2]) auto
  qed
qed

lemma tq_try_dequeue_rep:
  assumes rep: "tq_rep s al"
  shows "(list_all (\<lambda>(t, xs). xs = []) al \<and> tq_try_dequeue s = (None, s)) \<or>
    (\<exists>i x xs s'. i < length al \<and> snd (al ! i) = x # xs \<and> tq_try_dequeue s = (Some x, s') \<and> tq_rep s' (al[i := (fst (al ! i), xs)]))"
proof -
  have R: "cq_rep (tq s) (map snd al)" "hashes_ok (map fst al) (implicitProducerHash s)"
    "implicitProducerHashCount s = of_nat (length al)" using rep by (simp_all add: tq_rep_def)
  consider "list_all (\<lambda>xs. xs = []) (map snd al)" "cq_try_dequeue (tq s) = (None, tq s)"
    | i x xs q where "i < length al" "snd (al ! i) = x # xs" "cq_try_dequeue (tq s) = (Some x, q)" "cq_rep q ((map snd al)[i := xs])"
    using cq_try_dequeue_rep [OF R(1)] by auto
  then show ?thesis
  proof cases
    case 1
    then show ?thesis by (auto simp: tq_try_dequeue_def list_all_iff)
  next
    case (2 i x xs q)
    have "map fst (al[i := (fst (al ! i), xs)]) = map fst al" using 2(1) by (simp add: map_update) (metis list_update_id nth_map)
    then have "tq_rep (s\<lparr>tq := q\<rparr>) (al[i := (fst (al ! i), xs)])" using R 2(4) by (simp add: tq_rep_def map_update)
    then show ?thesis using 2 by (auto simp: tq_try_dequeue_def)
  qed
qed

lemma tq_new_rep: "tq_rep (tq_new mem raw cap) []"
proof -
  have "unat INITIAL_IMPLICIT_PRODUCER_HASH_SIZE = 2 ^ 5" by (simp add: INITIAL_IMPLICIT_PRODUCER_HASH_SIZE_def)
  note N = new_hash_ok [OF this]
  have "hashes_ok [] [new_hash INITIAL_IMPLICIT_PRODUCER_HASH_SIZE]" unfolding hashes_ok_def using N by simp
  then show ?thesis using cq_new_rep [of mem raw cap]
    by (simp add: tq_rep_def tq_new_def populate_initial_implicit_producer_hash_def)
qed

section \<open>The specification: one list per thread\<close>

text \<open>
  The calls, their results, and the lists that may be left by a call with a given result.  An
  element is taken from the front of some list; an empty result is allowed only when all lists
  are empty; an enqueue that gets its memory succeeds (below \<open>2 ^ 63 - 32\<close> elements).
\<close>

datatype 'a tq_call =
    T_enqueue mem_result "nat \<Rightarrow> index_entry" thread_id 'a
  | T_try_enqueue mem_result "nat \<Rightarrow> index_entry" thread_id 'a
  | T_try_dequeue | T_size

datatype 'a tq_result = T_ok bool | T_item "'a option" | T_count c_size

fun tq_do :: "'a tq_call \<Rightarrow> 'a tqueue \<Rightarrow> ('a tq_result \<times> 'a tqueue) option" where
  "tq_do (T_enqueue mem raw tid x) s = map_option (map_prod T_ok id) (tq_enqueue mem raw tid x s)"
| "tq_do (T_try_enqueue mem raw tid x) s = map_option (map_prod T_ok id) (tq_try_enqueue mem raw tid x s)"
| "tq_do T_try_dequeue s = Some (map_prod T_item id (tq_try_dequeue s))"
| "tq_do T_size s = Some (T_count (cq_size_approx (tq s)), s)"

fun thread_fifo_spec :: "'a tq_call \<Rightarrow> 'a tq_result \<Rightarrow> (thread_id \<times> 'a list) list \<Rightarrow> (thread_id \<times> 'a list) list list" where
  "thread_fifo_spec (T_enqueue mem raw tid x) (T_ok ok) al =
     (if ok then [add_to tid x al]
      else if mem_hash mem \<and> fst (mem_producer mem) \<and> mem_enqueue mem = (True, True) \<and>
        list_all (\<lambda>(t, xs). length xs < 2 ^ 63 - 32) al then []
      else [al, enrolled tid al])"
| "thread_fifo_spec (T_try_enqueue mem raw tid x) (T_ok ok) al =
     (if ok then [add_to tid x al] else [al, enrolled tid al])"
| "thread_fifo_spec T_try_dequeue (T_item None) al = (if list_all (\<lambda>(t, xs). xs = []) al then [al] else [])"
| "thread_fifo_spec T_try_dequeue (T_item (Some x)) al =
     map (\<lambda>i. al[i := (fst (al ! i), tl (snd (al ! i)))])
       (filter (\<lambda>i. snd (al ! i) \<noteq> [] \<and> hd (snd (al ! i)) = x) [0..<length al])"
| "thread_fifo_spec T_size (T_count n) al = (if n = of_nat (sum_list (map (length \<circ> snd) al)) then [al] else [])"
| "thread_fifo_spec _ _ al = []"

fun tq_calls :: "'a tq_call list \<Rightarrow> 'a tqueue \<Rightarrow> 'a tq_result list option" where
  "tq_calls [] s = Some []"
| "tq_calls (c # cs) s = (case tq_do c s of
     None \<Rightarrow> None | Some (r, s') \<Rightarrow> map_option (Cons r) (tq_calls cs s'))"

fun thread_fifos_allow :: "'a tq_call list \<Rightarrow> 'a tq_result list \<Rightarrow> (thread_id \<times> 'a list) list \<Rightarrow> bool" where
  "thread_fifos_allow [] [] al = True"
| "thread_fifos_allow (c # cs) (r # rs) al = list_ex (thread_fifos_allow cs rs) (thread_fifo_spec c r al)"
| "thread_fifos_allow _ _ al = False"

fun tq_call_ok :: "'a tq_call \<Rightarrow> bool" where
  "tq_call_ok (T_enqueue mem raw tid x) = (valid_thread_id tid \<and> mem_ok mem)"
| "tq_call_ok (T_try_enqueue mem raw tid x) = (valid_thread_id tid \<and> mem_ok mem)"
| "tq_call_ok _ = True"

lemma hash_not_disabled: "INITIAL_IMPLICIT_PRODUCER_HASH_SIZE \<noteq> 0"
  by (simp add: INITIAL_IMPLICIT_PRODUCER_HASH_SIZE_def)

lemma tq_do_refines:
  assumes rep: "tq_rep s al" and ok: "tq_call_ok c"
  shows "\<exists>r s' al'. tq_do c s = Some (r, s') \<and> al' \<in> set (thread_fifo_spec c r al) \<and> tq_rep s' al'"
proof (cases c)
  case (T_enqueue mem raw tid x)
  then have "valid_thread_id tid" "mem_ok mem" using ok by simp_all
  from tq_inner_enqueue_rep [OF rep this, of Can_alloc raw x]
  obtain r s' where "tq_inner_enqueue Can_alloc mem raw tid x s = Some (r, s')"
    "if r then tq_rep s' (add_to tid x al) else tq_rep s' al \<or> tq_rep s' (enrolled tid al)"
    "mem_hash mem \<and> fst (mem_producer mem) \<and> mem_enqueue mem = (True, True) \<and>
     list_all (\<lambda>(t, xs). length xs < 2 ^ 63 - 32) al \<longrightarrow> r" by blast
  then show ?thesis using T_enqueue hash_not_disabled by (cases r) (auto simp: tq_enqueue_def)
next
  case (T_try_enqueue mem raw tid x)
  then have "valid_thread_id tid" "mem_ok mem" using ok by simp_all
  from tq_inner_enqueue_rep [OF rep this, of Cannot_alloc raw x]
  obtain r s' where "tq_inner_enqueue Cannot_alloc mem raw tid x s = Some (r, s')"
    "if r then tq_rep s' (add_to tid x al) else tq_rep s' al \<or> tq_rep s' (enrolled tid al)" by blast
  then show ?thesis using T_try_enqueue hash_not_disabled by (cases r) (auto simp: tq_try_enqueue_def)
next
  case T_try_dequeue
  consider "list_all (\<lambda>(t, xs). xs = []) al" "tq_try_dequeue s = (None, s)"
    | i x xs s' where "i < length al" "snd (al ! i) = x # xs" "tq_try_dequeue s = (Some x, s')" "tq_rep s' (al[i := (fst (al ! i), xs)])"
    using tq_try_dequeue_rep [OF rep] by blast
  then show ?thesis
  proof cases
    case 1
    then show ?thesis using T_try_dequeue rep by simp
  next
    case (2 i x xs s')
    then have "al[i := (fst (al ! i), xs)] \<in> set (thread_fifo_spec T_try_dequeue (T_item (Some x)) al)"
      by (auto intro: image_eqI [of _ _ i])
    then show ?thesis using 2 T_try_dequeue
      by (intro exI [of _ "T_item (Some x)"] exI [of _ s'] exI [of _ "al[i := (fst (al ! i), xs)]"]) simp
  qed
next
  case T_size
  have "cq_rep (tq s) (map snd al)" using rep by (simp add: tq_rep_def)
  then show ?thesis using T_size cq_size_rep [of "tq s" "map snd al"] rep by simp
qed

lemma tq_calls_refine:
  assumes "tq_rep s al" "list_all tq_call_ok cs"
  shows "\<exists>rs. tq_calls cs s = Some rs \<and> thread_fifos_allow cs rs al"
  using assms
proof (induction cs arbitrary: s al)
  case (Cons c cs)
  obtain r s' al' where r: "tq_do c s = Some (r, s')" "al' \<in> set (thread_fifo_spec c r al)" "tq_rep s' al'"
    using tq_do_refines [OF Cons.prems(1), of c] Cons.prems(2) unfolding list.pred_inject by blast
  obtain rs where "tq_calls cs s' = Some rs" "thread_fifos_allow cs rs al'" using Cons.IH [OF r(3)] Cons.prems(2) by auto
  then show ?case using r(1,2) by (auto simp: list_ex_iff)
qed simp

section \<open>Properties\<close>


definition all_memory :: mem_result where
  "all_memory = \<lparr>mem_hash = True, mem_producer = (True, True), mem_enqueue = (True, True)\<rparr>"

definition tq_sample :: "nat tq_call list" where
  "tq_sample = (let raw = \<lambda>_. \<lparr>entry_key = 0, entry_value = None\<rparr> in
     [T_enqueue all_memory raw 4096 7, T_try_enqueue all_memory raw 8192 8, T_size, T_try_dequeue, T_try_dequeue, T_try_dequeue])"


text \<open>
  C31. A thread has one producer and a producer one thread: in every well-formed state the
  search through the chain of tables returns for a thread that enqueued before the producer it
  had then, and for a new thread with memory a new producer; no other thread's producer changes.
\<close>

theorem producer_of_thread:
  assumes "tq_rep s al" and "valid_thread_id tid" and "mem_ok mem"
  shows "\<exists>r s'. get_or_add_implicit_producer mem raw tid s = Some (r, s') \<and>
    (case r of None \<Rightarrow> tq_rep s' al \<and> \<not> (mem_hash mem \<and> fst (mem_producer mem))
     | Some i \<Rightarrow> tq_rep s' (enrolled tid al) \<and> i < length (enrolled tid al) \<and> fst (enrolled tid al ! i) = tid)"
  using get_or_add_ok [OF assms] .

theorem producer_of_thread_witness:
  "tq_rep (tq_new True (\<lambda>_ _. 0 :: nat) 64) [] \<and>
   (\<exists>r s'. get_or_add_implicit_producer all_memory (\<lambda>_. \<lparr>entry_key = 0, entry_value = None\<rparr>) 4096
      (tq_new True (\<lambda>_ _. 0 :: nat) 64) = Some (r, s') \<and> r = Some 0)"
proof -
  have "valid_thread_id 4096" "mem_ok all_memory" by (simp_all add: valid_thread_id_def mem_ok_def all_memory_def)
  from producer_of_thread [OF tq_new_rep this, of "\<lambda>_. \<lparr>entry_key = 0, entry_value = None\<rparr>" True "\<lambda>_ _. 0 :: nat" 64]
  show ?thesis using tq_new_rep by (auto simp: enrolled_def all_memory_def split: option.splits)
qed

end
