(* ===== verification/BlockingQueue.thy ===== *)
theory BlockingQueue
  imports CQThreads LightSema "HOL-Library.Multiset"
begin

text \<open>
  \<open>BlockingConcurrentQueue\<close> of \<open>inc/blockingconcurrentqueue.h\<close>: an inner queue and a semaphore
  that counts its elements.  Threads interleave; a step is one operation of the inner queue or
  one access to the semaphore.  The inner queue is a parameter of the step function as it is a
  member of the class; its operations are whole steps.
\<close>

section \<open>Operations\<close>

text \<open>
  Where a thread is: in \<open>signal\<close> after an enqueue, in the semaphore of \<open>try_dequeue\<close> or
  \<open>wait_dequeue\<close>, in the loop around the inner \<open>try_dequeue\<close>, or nowhere because an inner call
  had no result.
\<close>

datatype bpc = B_idle | B_signal | B_try | B_wait | B_take | B_stuck

text \<open>\<open>put\<close>, \<open>got\<close> and \<open>misses\<close> record elements enqueued, elements dequeued and failed tries of the loop.\<close>

record ('q, 'a) bqueue =
  inner :: 'q
  sema :: lsys
  bpcs :: "nat \<Rightarrow> bpc"
  put :: "'a multiset"
  got :: "'a multiset"
  misses :: nat

datatype ('e, 'a) bq_event = BEnqueue nat 'e 'a | BTryDequeue nat | BWaitDequeue nat | BStep nat bool

definition on_sema :: "sema_event \<Rightarrow> ('q, 'a) bqueue \<Rightarrow> ('q, 'a) bqueue" where
  "on_sema ev s = s\<lparr>sema := sema_event_step ev (sema s)\<rparr>"

definition goto_b :: "nat \<Rightarrow> bpc \<Rightarrow> ('q, 'a) bqueue \<Rightarrow> ('q, 'a) bqueue" where
  "goto_b t p s = s\<lparr>bpcs := (bpcs s)(t := p)\<rparr>"

text \<open>\<open>enqueue\<close> and \<open>try_enqueue\<close> up to the signal; the argument \<open>enq\<close> is the inner operation.\<close>

definition bq_enqueue :: "('a \<Rightarrow> 'q \<Rightarrow> (bool \<times> 'q) option) \<Rightarrow> nat \<Rightarrow> 'a \<Rightarrow> ('q, 'a) bqueue \<Rightarrow> ('q, 'a) bqueue" where
  "bq_enqueue enq t x s = (case enq x (inner s) of
     None \<Rightarrow> goto_b t B_stuck s
   | Some (True, q) \<Rightarrow>
       goto_b t B_signal (on_sema (SStart t (SSignal 1)) (s\<lparr>inner := q, put := put s + {#x#}\<rparr>))
   | Some (False, q) \<Rightarrow> s\<lparr>inner := q\<rparr>)"

definition bq_try_dequeue :: "nat \<Rightarrow> ('q, 'a) bqueue \<Rightarrow> ('q, 'a) bqueue" where
  "bq_try_dequeue t s = goto_b t B_try (on_sema (SStart t TryWait) s)"

definition bq_wait_dequeue :: "nat \<Rightarrow> ('q, 'a) bqueue \<Rightarrow> ('q, 'a) bqueue" where
  "bq_wait_dequeue t s = goto_b t B_wait (on_sema (SStart t SWait) s)"

text \<open>One round of \<open>while (!inner.try_dequeue(item)) continue;\<close>.\<close>

definition bq_take :: "('q \<Rightarrow> ('a option \<times> 'q) option) \<Rightarrow> nat \<Rightarrow> ('q, 'a) bqueue \<Rightarrow> ('q, 'a) bqueue" where
  "bq_take deq t s = (case deq (inner s) of
     None \<Rightarrow> goto_b t B_stuck s
   | Some (None, q) \<Rightarrow> s\<lparr>inner := q, misses := Suc (misses s)\<rparr>
   | Some (Some x, q) \<Rightarrow> goto_b t B_idle (s\<lparr>inner := q, got := got s + {#x#}\<rparr>))"

text \<open>Where a thread goes when its semaphore call has returned \<open>r\<close>.\<close>

fun bq_resume :: "bpc \<Rightarrow> int \<Rightarrow> bpc" where
  "bq_resume B_try r = (if r > 0 then B_take else B_idle)"
| "bq_resume B_wait r = B_take"
| "bq_resume _ r = B_idle"

definition bq_step ::
    "('q \<Rightarrow> ('a option \<times> 'q) option) \<Rightarrow> nat \<Rightarrow> bool \<Rightarrow> ('q, 'a) bqueue \<Rightarrow> ('q, 'a) bqueue" where
  "bq_step deq t b s = (case bpcs s t of
     B_idle \<Rightarrow> s
   | B_stuck \<Rightarrow> s
   | B_take \<Rightarrow> bq_take deq t s
   | p \<Rightarrow> (case spcs (sema s) t of
       L_done r \<Rightarrow> goto_b t (bq_resume p r) (on_sema (SReturn t) s)
     | _ \<Rightarrow> on_sema (SStep t b) s))"

fun bq_event_step :: "('e \<Rightarrow> 'a \<Rightarrow> 'q \<Rightarrow> (bool \<times> 'q) option) \<Rightarrow> ('q \<Rightarrow> ('a option \<times> 'q) option) \<Rightarrow>
    ('e, 'a) bq_event \<Rightarrow> ('q, 'a) bqueue \<Rightarrow> ('q, 'a) bqueue" where
  "bq_event_step enq deq (BEnqueue t e x) s = (if bpcs s t = B_idle then bq_enqueue (enq e) t x s else s)"
| "bq_event_step enq deq (BTryDequeue t) s = (if bpcs s t = B_idle then bq_try_dequeue t s else s)"
| "bq_event_step enq deq (BWaitDequeue t) s = (if bpcs s t = B_idle then bq_wait_dequeue t s else s)"
| "bq_event_step enq deq (BStep t b) s = bq_step deq t b s"

definition bq_size_approx :: "('q, 'a) bqueue \<Rightarrow> c_size" where
  "bq_size_approx s = of_int (availableApprox (m_count (sema s)))"

definition bq_new :: "'q \<Rightarrow> ('q, 'a) bqueue" where
  "bq_new q = \<lparr>inner = q, sema = sema_init 0, bpcs = (\<lambda>_. B_idle), put = {#}, got = {#}, misses = 0\<rparr>"

section \<open>The semaphore as the queue uses it\<close>

text \<open>A thread's point in the queue fits its point in the semaphore.\<close>

fun pc_agrees :: "bpc \<Rightarrow> sema_pc \<Rightarrow> bool" where
  "pc_agrees B_signal p = (case p of L_signal n _ \<Rightarrow> n = 1 | L_done r \<Rightarrow> r = 0 | _ \<Rightarrow> False)"
| "pc_agrees B_try p = (case p of L_try _ \<Rightarrow> True | L_done r \<Rightarrow> r = 0 \<or> r = 1 | _ \<Rightarrow> False)"
| "pc_agrees B_wait p = (case p of L_wait _ \<Rightarrow> True | L_spin _ \<Rightarrow> True | L_done r \<Rightarrow> r = 1 | _ \<Rightarrow> False)"
| "pc_agrees _ p = (p = L_idle)"

lemma tryWait_result: "tryWait_step b p c = (Done r, c') \<Longrightarrow> r = 0 \<or> r = 1"
  by (cases p) (auto split: if_splits)

lemma spin_result: "waitWithPartialSpinning_step b p s = (Done r, s') \<Longrightarrow> r = 1"
  by (cases p; cases s) (auto split: if_splits nat.splits option.splits)

lemma signal_result: "signal_step n p s = (Done r, s') \<Longrightarrow> r = 0"
  by (cases p; cases s) (auto split: if_splits simp: Let_def)

lemma pc_agrees_step:
  assumes ag: "pc_agrees p l" and nd: "\<And>r. l \<noteq> L_done r" and st: "sema_step b l (c, k) = (l', c', k')"
  shows "pc_agrees p l'"
proof (cases l)
  case (L_try q)
  obtain out c1 where o: "tryWait_step b q c = (out, c1)" by (cases "tryWait_step b q c")
  then show ?thesis using L_try ag st tryWait_result [of b q c] by (cases p; cases out) auto
next
  case (L_wait q)
  obtain out c1 where o: "tryWait_step b q c = (out, c1)" by (cases "tryWait_step b q c")
  then show ?thesis using L_wait ag st tryWait_result [of b q c]
    by (cases p; cases out) (auto split: if_splits)
next
  case (L_spin q)
  obtain out s1 where o: "waitWithPartialSpinning_step b q (c, k) = (out, s1)"
    by (cases "waitWithPartialSpinning_step b q (c, k)")
  then show ?thesis using L_spin ag st spin_result [of b q "(c, k)"] by (cases p; cases out) auto
next
  case (L_signal n q)
  obtain out s1 where o: "signal_step n q (c, k) = (out, s1)" by (cases "signal_step n q (c, k)")
  then show ?thesis using L_signal ag st signal_result [of n q "(c, k)"] by (cases p; cases out) auto
qed (use ag st nd in \<open>cases p; auto\<close>)+

lemma units_added_simps [simp]:
  "units_added L_idle = 0" "units_added (L_done r) = 0" "units_added (L_try p) = 0" "units_added (L_wait p) = 0"
  "units_added (L_spin q) = 0" "units_added (L_tryMany mx p) = 0" "units_added (L_waitMany mx p) = 0"
  "units_added (L_spinMany mx m) = 0" "units_added (L_signal n SG_add) = n" "units_added (L_signal n (SG_post j)) = 0"
  by (simp_all add: units_added_def)

lemma units_added_finish: "(\<And>p. units_added (f p) = 0) \<Longrightarrow> units_added (finish f out) = 0"
  by (cases out) simp_all

lemma units_added_step:
  assumes "sema_step b l (c, k) = (l', c', k')"
  shows "units_added l' = 0"
proof (cases l)
  case (L_signal n q)
  then show ?thesis using assms by (cases q) (auto simp: Let_def split: if_splits)
qed (use assms in \<open>auto simp: units_added_finish split: prod.splits if_splits\<close>)

text \<open>The threads are below \<open>N\<close> and enqueue with arguments the inner queue can take.\<close>

definition bq_event_ok :: "('e \<Rightarrow> bool) \<Rightarrow> nat \<Rightarrow> ('e, 'a) bq_event \<Rightarrow> bool" where
  "bq_event_ok valid N ev = (case ev of BEnqueue t e x \<Rightarrow> t < N \<and> valid e
     | BTryDequeue t \<Rightarrow> t < N | BWaitDequeue t \<Rightarrow> t < N | BStep t b \<Rightarrow> t < N)"

section \<open>The interface of the inner queue\<close>

text \<open>
  What the blocking queue relies on: the queue is a bag \<open>M\<close>, calls return, an enqueue that says
  so adds its element, and \<open>try_dequeue\<close> takes some element and fails only on an empty bag.
\<close>

locale bag_queue =
  fixes rep :: "'q \<Rightarrow> 'a multiset \<Rightarrow> bool"
    and enq :: "'e \<Rightarrow> 'a \<Rightarrow> 'q \<Rightarrow> (bool \<times> 'q) option"
    and deq :: "'q \<Rightarrow> ('a option \<times> 'q) option"
    and valid :: "'e \<Rightarrow> bool"
  assumes enq_law: "rep q M \<Longrightarrow> valid e \<Longrightarrow>
      \<exists>r q'. enq e x q = Some (r, q') \<and> rep q' (if r then M + {#x#} else M)"
    and deq_empty: "rep q {#} \<Longrightarrow> deq q = Some (None, q)"
    and deq_some: "rep q M \<Longrightarrow> M \<noteq> {#} \<Longrightarrow>
      \<exists>x q'. deq q = Some (Some x, q') \<and> x \<in># M \<and> rep q' (M - {#x#})"
begin

abbreviation taking :: "nat \<Rightarrow> ('q, 'a) bqueue \<Rightarrow> int" where
  "taking N s \<equiv> (\<Sum>t<N. of_bool (bpcs s t = B_take))"

definition bq_inv :: "nat \<Rightarrow> ('q, 'a) bqueue \<Rightarrow> 'a multiset \<Rightarrow> bool" where
  "bq_inv N s M \<longleftrightarrow> rep (inner s) M \<and> put s = got s + M \<and> lsema_inv N (sema s) \<and>
     (\<forall>t. pc_agrees (bpcs s t) (spcs (sema s) t)) \<and> (\<forall>t. bpcs s t \<noteq> B_stuck) \<and> misses s = 0 \<and>
     int (size (put s)) = given (sema s) + (\<Sum>t<N. units_added (spcs (sema s) t)) \<and>
     int (size (got s)) + taking N s = taken (sema s)"

lemma bq_invD:
  assumes "bq_inv N s M"
  shows "rep (inner s) M" "put s = got s + M" "lsema_inv N (sema s)" "pc_agrees (bpcs s t) (spcs (sema s) t)"
    "bpcs s t \<noteq> B_stuck" "misses s = 0" "int (size (put s)) = given (sema s) + (\<Sum>t<N. units_added (spcs (sema s) t))"
    "int (size (got s)) + taking N s = taken (sema s)"
  using assms unfolding bq_inv_def by blast+

text \<open>Every unit a thread has, and every one to come, stands for an element.\<close>

lemma bq_units:
  assumes "bq_inv N s M"
  shows "int (size M) \<ge> taking N s + (\<Sum>t<N. held_units (spcs (sema s) t))"
proof -
  note D = bq_invD [OF assms]
  have ok: "sema_pc_ok (spcs (sema s) t)" for t using D(3) by (simp add: lsema_inv_def)
  have "0 \<le> units_added l" if "sema_pc_ok l" for l using that by (induction l rule: sema_pc_ok.induct) simp_all
  then have "0 \<le> (\<Sum>t<N. units_added (spcs (sema s) t))" using ok by (intro sum_nonneg) blast
  moreover have "int (size (put s)) = int (size (got s)) + int (size M)" using D(2) by simp
  ultimately show ?thesis using D(7,8) sema_units_le [OF D(3)] by linarith
qed

lemma taker_finds:
  assumes "bq_inv N s M" "t < N" "bpcs s t = B_take"
  shows "M \<noteq> {#}"
proof -
  have "0 < taking N s" using assms(2,3) by (intro sum_pos2 [of _ t]) auto
  moreover have "0 \<le> (\<Sum>t<N. held_units (spcs (sema s) t))"
    using bq_invD(3) [OF assms(1)] by (intro sum_nonneg) (simp add: lsema_inv_def held_units_nonneg)
  ultimately show ?thesis using bq_units [OF assms(1)] by auto
qed

lemma taking_goto: "t < N \<Longrightarrow> taking N (goto_b t p s) =
    taking N s + of_bool (p = B_take) - of_bool (bpcs s t = B_take)"
  using sum_fun_upd [of t N "\<lambda>p. of_bool (p = B_take)" "bpcs s" p] by (simp add: goto_b_def)

text \<open>A thread enters or leaves the semaphore, or moves in it.\<close>

lemma inv_start:
  assumes inv: "bq_inv N s M" and t: "t < N" "bpcs s t = B_idle" and N: "int N < 2 ^ 31" and c: "sema_event_ok N (SStart t c)"
    and p: "pc_agrees p (sema_start c)" "p \<noteq> B_stuck" "p \<noteq> B_take"
    and s': "rep (inner s') M'" "put s' = got s' + M'" "sema s' = sema s" "bpcs s' = bpcs s" "misses s' = 0" "got s' = got s"
    and size: "int (size (put s')) = int (size (put s)) + units_added (sema_start c)"
  shows "bq_inv N (goto_b t p (on_sema (SStart t c) s')) M'"
proof -
  note D = bq_invD [OF inv]
  have idle: "spcs (sema s) t = L_idle" using D(4) [of t] t(2) by simp
  let ?s = "goto_b t p (on_sema (SStart t c) s')"
  have sm: "sema ?s = (sema s)\<lparr>spcs := (spcs (sema s))(t := sema_start c)\<rparr>" "bpcs ?s = (bpcs s)(t := p)"
    using idle by (simp_all add: goto_b_def on_sema_def s')
  have "lsema_inv N (sema ?s)" using lsema_inv_step [OF D(3) N c] idle by (simp add: goto_b_def on_sema_def s')
  moreover have "pc_agrees (bpcs ?s u) (spcs (sema ?s) u)" "bpcs ?s u \<noteq> B_stuck" for u
    unfolding sm using D(4,5) [of u] p by simp_all
  moreover have "int (size (put s')) = given (sema ?s) + (\<Sum>u<N. units_added (spcs (sema ?s) u))"
    unfolding sm using D(7) size sum_fun_upd [OF t(1), of units_added "spcs (sema s)" "sema_start c"] idle by simp
  moreover have "taking N ?s = taking N s" unfolding sm(2)
    using sum_fun_upd [OF t(1), of "\<lambda>p. of_bool (p = B_take)" "bpcs s" p] t(2) p(3) by simp
  moreover have "inner ?s = inner s'" "put ?s = put s'" "got ?s = got s'" "misses ?s = misses s'" "taken (sema ?s) = taken (sema s)"
    unfolding sm by (simp_all add: goto_b_def on_sema_def)
  ultimately show ?thesis unfolding bq_inv_def using s' D(8) by simp
qed

lemma inv_sema_step:
  assumes inv: "bq_inv N s M" and t: "t < N" and N: "int N < 2 ^ 31" and nd: "\<And>r. spcs (sema s) t \<noteq> L_done r"
  shows "bq_inv N (on_sema (SStep t b) s) M"
proof -
  note D = bq_invD [OF inv]
  obtain p c k where st: "sema_step b (spcs (sema s) t) (m_count (sema s), m_sema (sema s)) = (p, c, k)" by (metis prod_cases3)
  let ?s = "on_sema (SStep t b) s"
  have sm: "spcs (sema ?s) = (spcs (sema s))(t := p)" "given (sema ?s) = given (sema s) + units_added (spcs (sema s) t)"
    "taken (sema ?s) = taken (sema s)" using st by (simp_all add: on_sema_def)
  have "lsema_inv N (sema ?s)" using lsema_inv_step [OF D(3) N, of "SStep t b"] t by (simp add: on_sema_def)
  moreover have "pc_agrees (bpcs s u) (spcs (sema ?s) u)" for u
    unfolding sm using D(4) [of u] pc_agrees_step [OF D(4) nd st] by simp
  moreover have "int (size (put s)) = given (sema ?s) + (\<Sum>u<N. units_added (spcs (sema ?s) u))"
    unfolding sm using D(7) sum_fun_upd [OF t, of units_added "spcs (sema s)" p] units_added_step [OF st] by simp
  moreover have "inner ?s = inner s" "put ?s = put s" "got ?s = got s" "misses ?s = misses s" "bpcs ?s = bpcs s"
    by (simp_all add: on_sema_def)
  ultimately show ?thesis unfolding bq_inv_def using D sm(3) by simp
qed

lemma inv_return:
  assumes inv: "bq_inv N s M" and t: "t < N" and N: "int N < 2 ^ 31" and r: "spcs (sema s) t = L_done r"
    and p: "bpcs s t \<in> {B_signal, B_try, B_wait}"
  shows "bq_inv N (goto_b t (bq_resume (bpcs s t) r) (on_sema (SReturn t) s)) M"
proof -
  note D = bq_invD [OF inv]
  let ?p = "bq_resume (bpcs s t) r"
  let ?s = "goto_b t ?p (on_sema (SReturn t) s)"
  have rp: "r = of_bool (?p = B_take)" "pc_agrees ?p L_idle" "?p \<noteq> B_stuck" "bpcs s t \<noteq> B_take"
    using D(4) [of t] r p by auto
  have sm: "sema ?s = (sema s)\<lparr>spcs := (spcs (sema s))(t := L_idle), taken := taken (sema s) + r\<rparr>" "bpcs ?s = (bpcs s)(t := ?p)"
    using r by (simp_all add: goto_b_def on_sema_def)
  have "lsema_inv N (sema ?s)" using lsema_inv_step [OF D(3) N, of "SReturn t"] t by (simp add: goto_b_def on_sema_def)
  moreover have "pc_agrees (bpcs ?s u) (spcs (sema ?s) u)" "bpcs ?s u \<noteq> B_stuck" for u
    unfolding sm using D(4,5) [of u] rp by simp_all
  moreover have "int (size (put s)) = given (sema ?s) + (\<Sum>u<N. units_added (spcs (sema ?s) u))"
    unfolding sm using D(7) sum_fun_upd [OF t, of units_added "spcs (sema s)" L_idle] r by simp
  moreover have "int (size (got s)) + taking N ?s = taken (sema ?s)" unfolding sm
    using D(8) sum_fun_upd [OF t, of "\<lambda>p. of_bool (p = B_take)" "bpcs s" ?p] rp by simp
  moreover have "inner ?s = inner s" "put ?s = put s" "got ?s = got s" "misses ?s = misses s"
    by (simp_all add: goto_b_def on_sema_def)
  ultimately show ?thesis unfolding bq_inv_def using D by simp
qed

lemma inv_take:
  assumes inv: "bq_inv N s M" and t: "t < N" "bpcs s t = B_take"
  shows "\<exists>M'. bq_inv N (bq_take deq t s) M'"
proof -
  note D = bq_invD [OF inv]
  obtain x q where x: "deq (inner s) = Some (Some x, q)" "x \<in># M" "rep q (M - {#x#})"
    using deq_some [OF D(1) taker_finds [OF inv t]] by blast
  let ?s = "goto_b t B_idle (s\<lparr>inner := q, got := got s + {#x#}\<rparr>)"
  have "bq_take deq t s = ?s" using x(1) by (simp add: bq_take_def)
  moreover have "pc_agrees (bpcs ?s u) (spcs (sema ?s) u)" "bpcs ?s u \<noteq> B_stuck" for u
    using D(4) [of t] D(4,5) [of u] t by (simp_all add: goto_b_def)
  moreover have "taking N ?s = taking N s - 1" unfolding taking_goto [OF t(1)] using t(2) by simp
  ultimately have "bq_inv N (bq_take deq t s) (M - {#x#})"
    using D x by (simp add: bq_inv_def goto_b_def)
  then show ?thesis by blast
qed

lemma bq_inv_step:
  assumes inv: "bq_inv N s M" and N: "int N < 2 ^ 31" and ok: "bq_event_ok valid N ev"
  shows "\<exists>M'. bq_inv N (bq_event_step enq deq ev s) M'"
proof (cases ev)
  case (BEnqueue t e x)
  note D = bq_invD [OF inv]
  have t: "t < N" "valid e" using ok BEnqueue by (simp_all add: bq_event_ok_def)
  obtain r q where r: "enq e x (inner s) = Some (r, q)" "rep q (if r then M + {#x#} else M)"
    using enq_law [OF D(1) t(2)] by blast
  show ?thesis
  proof (cases "bpcs s t = B_idle")
    case idle: True
    show ?thesis
    proof (cases r)
      case True
      have "bq_inv N (goto_b t B_signal (on_sema (SStart t (SSignal 1)) (s\<lparr>inner := q, put := put s + {#x#}\<rparr>))) (M + {#x#})"
        using r True D by (intro inv_start [OF inv t(1) idle N]) (simp_all add: t)
      then show ?thesis using BEnqueue idle r True by (auto simp: bq_enqueue_def)
    next
      case False
      have "bq_inv N (s\<lparr>inner := q\<rparr>) M" using inv r False unfolding bq_inv_def by auto
      then show ?thesis using BEnqueue idle r False by (auto simp: bq_enqueue_def)
    qed
  qed (use inv BEnqueue in auto)
next
  case (BTryDequeue t)
  have "bq_inv N (bq_try_dequeue t s) M" if "bpcs s t = B_idle" "t < N"
    unfolding bq_try_dequeue_def using that bq_invD [OF inv]
    by (intro inv_start [OF inv _ _ N]) simp_all
  then show ?thesis using BTryDequeue inv ok by (auto simp: bq_event_ok_def)
next
  case (BWaitDequeue t)
  have "bq_inv N (bq_wait_dequeue t s) M" if "bpcs s t = B_idle" "t < N"
    unfolding bq_wait_dequeue_def using that bq_invD [OF inv]
    by (intro inv_start [OF inv _ _ N]) simp_all
  then show ?thesis using BWaitDequeue inv ok by (auto simp: bq_event_ok_def)
next
  case (BStep t b)
  have t: "t < N" using ok BStep by (simp add: bq_event_ok_def)
  consider "bpcs s t = B_idle" | "bpcs s t = B_take"
    | r where "bpcs s t \<in> {B_signal, B_try, B_wait}" "spcs (sema s) t = L_done r"
    | "bpcs s t \<in> {B_signal, B_try, B_wait}" "\<And>r. spcs (sema s) t \<noteq> L_done r"
    using bq_invD(5) [OF inv, of t] by (cases "bpcs s t") auto
  then show ?thesis
  proof cases
    case 1
    then show ?thesis using inv BStep by (auto simp: bq_step_def)
  next
    case 2
    then show ?thesis using inv_take [OF inv t 2] BStep by (simp add: bq_step_def)
  next
    case (3 r)
    then have "bq_step deq t b s = goto_b t (bq_resume (bpcs s t) r) (on_sema (SReturn t) s)" by (auto simp: bq_step_def)
    then show ?thesis using inv_return [OF inv t N 3(2,1)] BStep by auto
  next
    case 4
    then have "bq_step deq t b s = on_sema (SStep t b) s" by (auto simp: bq_step_def split: sema_pc.splits)
    then show ?thesis using inv_sema_step [OF inv t N 4(2)] BStep by auto
  qed
qed

lemma bq_inv_run:
  assumes "rep q {#}" and N: "int N < 2 ^ 31" and "list_all (bq_event_ok valid N) es"
  shows "\<exists>M. bq_inv N (run (bq_event_step enq deq) es (bq_new q)) M"
proof (rule run_invariant_on [where P = "bq_event_ok valid N"])
  have "lsema_inv N (sema_init 0)" by (simp add: lsema_inv_def sema_init_def)
  then have "bq_inv N (bq_new q) {#}" using assms(1) by (simp add: bq_inv_def bq_new_def sema_init_def)
  then show "\<exists>M. bq_inv N (bq_new q) M" by blast
qed (use assms in \<open>auto intro: bq_inv_step\<close>)

text \<open>Nobody can be served: the queue has nothing but what other threads already have units for.\<close>

lemma sleeper_finds_nothing:
  assumes inv: "bq_inv N s M" and t: "t < N" "asleep (spcs (sema s) t) = 1" and quiet: "m_sema (sema s) = 0"
    "\<And>u. u < N \<Longrightarrow> bpcs s u \<in> {B_idle, B_wait} \<and> (bpcs s u = B_wait \<longrightarrow> asleep (spcs (sema s) u) = 1)"
  shows "M = {#}"
proof -
  note D = bq_invD [OF inv]
  have none: "owed_posts (spcs (sema s) u) = 0" "held_units (spcs (sema s) u) = 0" "units_added (spcs (sema s) u) = 0"
    "bpcs s u \<noteq> B_take" if "u < N" for u
    using quiet(2) [OF that] D(4) [of u] by (cases "bpcs s u"; cases "spcs (sema s) u"; auto)+
  have "0 < (\<Sum>u<N. asleep (spcs (sema s) u))" using t asleep_bounds(1) by (intro sum_pos2 [of _ t]) auto
  then have "taken (sema s) = given (sema s)"
    using D(3) quiet(1) none unfolding lsema_inv_def by auto
  then show ?thesis using D(2,7,8) none by simp
qed

end

section \<open>The inner queue\<close>

text \<open>\<open>enqueue\<close> or \<open>try_enqueue\<close> of the inner queue by a thread, with the outcome of its allocations.\<close>

record inner_call =
  can_alloc :: bool
  call_mem :: mem_result
  call_raw :: "nat \<Rightarrow> index_entry"
  caller :: thread_id

definition inner_enqueue :: "inner_call \<Rightarrow> 'a \<Rightarrow> 'a tqueue \<Rightarrow> (bool \<times> 'a tqueue) option" where
  "inner_enqueue c x s =
     (if can_alloc c then tq_enqueue (call_mem c) (call_raw c) (caller c) x s
      else tq_try_enqueue (call_mem c) (call_raw c) (caller c) x s)"

definition inner_try_dequeue :: "'a tqueue \<Rightarrow> ('a option \<times> 'a tqueue) option" where
  "inner_try_dequeue s = Some (tq_try_dequeue s)"

definition inner_call_ok :: "inner_call \<Rightarrow> bool" where
  "inner_call_ok c \<longleftrightarrow> valid_thread_id (caller c) \<and> mem_ok (call_mem c)"

definition tq_bag :: "'a tqueue \<Rightarrow> 'a multiset \<Rightarrow> bool" where
  "tq_bag s M \<longleftrightarrow> (\<exists>al. tq_rep s al \<and> M = mset (concat (map snd al)))"

lemma mset_concat_update:
  "i < length xss \<Longrightarrow> mset (concat (xss[i := ys])) + mset (xss ! i) = mset (concat xss) + mset ys"
proof (induction xss arbitrary: i)
  case (Cons xs xss)
  then show ?case by (cases i) (auto simp: ac_simps)
qed simp

lemma mset_enrolled: "mset (concat (map snd (enrolled tid al))) = mset (concat (map snd al))"
  by (simp add: enrolled_def)

lemma mset_add_to:
  assumes "distinct (map fst (enrolled tid al))"
  shows "mset (concat (map snd (add_to tid x al))) = mset (concat (map snd al)) + {#x#}"
proof -
  let ?en = "enrolled tid al"
  have "tid \<in> set (map fst ?en)" by (auto simp: enrolled_def)
  then obtain i where i: "i < length ?en" "fst (?en ! i) = tid" by (auto simp: in_set_conv_nth)
  have "map snd (add_to tid x al) = (map snd ?en)[i := map snd ?en ! i @ [x]]"
    unfolding add_to_def add_to_update [OF assms i] using i by (simp add: map_update)
  then show ?thesis
    using mset_concat_update [of i "map snd ?en" "map snd ?en ! i @ [x]"] i(1) unfolding mset_enrolled by simp
qed

lemma tq_rep_distinct: "tq_rep s al \<Longrightarrow> distinct (map fst al)"
  unfolding tq_rep_def by (blast dest: hashes_okD(2))

lemma distinct_enrolled: "distinct (map fst al) \<Longrightarrow> distinct (map fst (enrolled tid al))"
  by (auto simp: enrolled_def)

lemma tq_bag_enqueue:
  assumes bag: "tq_bag s M" and c: "valid_thread_id tid" "mem_ok mem"
  shows "\<exists>r s'. tq_inner_enqueue md mem raw tid x s = Some (r, s') \<and> tq_bag s' (if r then M + {#x#} else M)"
proof -
  obtain al where al: "tq_rep s al" "M = mset (concat (map snd al))" using bag by (auto simp: tq_bag_def)
  obtain r s' where r: "tq_inner_enqueue md mem raw tid x s = Some (r, s')"
    "if r then tq_rep s' (add_to tid x al) else tq_rep s' al \<or> tq_rep s' (enrolled tid al)"
    using tq_inner_enqueue_rep [OF al(1) c, of md raw x] by blast
  note m = mset_add_to [OF distinct_enrolled [OF tq_rep_distinct [OF al(1)]], of tid x] mset_enrolled [of tid al]
  have "tq_bag s' (if r then M + {#x#} else M)"
  proof (cases r)
    case True
    then show ?thesis using r(2) m(1) al(2) unfolding tq_bag_def by auto
  next
    case False
    then show ?thesis using r(2) m(2) al(2) unfolding tq_bag_def by (metis (no_types, lifting))
  qed
  then show ?thesis using r(1) by blast
qed

lemma tq_bag_dequeue:
  assumes bag: "tq_bag s M" and ne: "M \<noteq> {#}"
  shows "\<exists>x s'. tq_try_dequeue s = (Some x, s') \<and> x \<in># M \<and> tq_bag s' (M - {#x#})"
proof -
  obtain al where al: "tq_rep s al" "M = mset (concat (map snd al))" using bag by (auto simp: tq_bag_def)
  have "\<not> list_all (\<lambda>(t, xs). xs = []) al" using ne al(2) by (fastforce simp: list_all_iff)
  then obtain i x xs s' where x: "i < length al" "snd (al ! i) = x # xs" "tq_try_dequeue s = (Some x, s')"
      "tq_rep s' (al[i := (fst (al ! i), xs)])"
    using tq_try_dequeue_rep [OF al(1)] by blast
  let ?al = "al[i := (fst (al ! i), xs)]"
  have "mset (concat (map snd ?al)) + {#x#} = M"
    using mset_concat_update [of i "map snd al" xs] x(1,2) al(2) by (simp add: map_update)
  then have "x \<in># M" "M - {#x#} = mset (concat (map snd ?al))" by auto
  then show ?thesis using x(3,4) unfolding tq_bag_def by metis
qed

interpretation cq: bag_queue tq_bag inner_enqueue inner_try_dequeue inner_call_ok
proof unfold_locales
  fix s :: "'a tqueue" and M c x
  assume "tq_bag s M" "inner_call_ok c"
  then show "\<exists>r s'. inner_enqueue c x s = Some (r, s') \<and> tq_bag s' (if r then M + {#x#} else M)"
    unfolding inner_enqueue_def tq_enqueue_def tq_try_enqueue_def inner_call_ok_def
    by (simp only: hash_not_disabled if_False tq_bag_enqueue split: if_split) simp
next
  fix s :: "'a tqueue"
  assume "tq_bag s {#}"
  then obtain al where al: "tq_rep s al" "concat (map snd al) = []" by (auto simp: tq_bag_def)
  then have "\<not> (i < length al \<and> snd (al ! i) = x # xs)" for i x xs using nth_mem [of i al] by fastforce
  then show "inner_try_dequeue s = Some (None, s)" using tq_try_dequeue_rep [OF al(1)] by (auto simp: inner_try_dequeue_def)
next
  fix s :: "'a tqueue" and M
  assume "tq_bag s M" "M \<noteq> {#}"
  then show "\<exists>x s'. inner_try_dequeue s = Some (Some x, s') \<and> x \<in># M \<and> tq_bag s' (M - {#x#})"
    using tq_bag_dequeue by (simp add: inner_try_dequeue_def)
qed

lemma tq_new_bag: "tq_bag (tq_new m el cap) {#}"
  using tq_new_rep [of m el cap] by (auto simp: tq_bag_def)

section \<open>Properties\<close>


definition bq_sample :: "(inner_call, nat) bq_event list" where
  "bq_sample = [BEnqueue 0 (\<lparr>can_alloc = True, call_mem = all_memory, call_raw = (\<lambda>_. \<lparr>entry_key = 0, entry_value = None\<rparr>), caller = 4096\<rparr>) 5, BTryDequeue 1, BStep 0 False, BStep 0 False,
     BStep 1 False, BStep 1 False, BStep 1 False, BStep 1 False]"


text \<open>
  C9. A consumer is not left asleep beside an element: when a thread sleeps in
  \<open>wait_dequeue\<close>, nothing is posted on the kernel semaphore, and every other thread is out of
  the queue or asleep too, then the inner queue is empty.
\<close>

theorem blocking_queue_no_lost_wakeup:
  assumes "int N < 2 ^ 31" and "list_all (bq_event_ok inner_call_ok N) es"
    and "s = run (bq_event_step inner_enqueue inner_try_dequeue) es (bq_new (tq_new m el cap))"
    and "t < N" and "asleep (spcs (sema s) t) = 1" and "m_sema (sema s) = 0"
    and "list_all (\<lambda>u. bpcs s u = B_idle \<or> bpcs s u = B_wait \<and> asleep (spcs (sema s) u) = 1) [0..<N]"
  shows "\<exists>al. tq_rep (inner s) al \<and> concat (map snd al) = []"
proof -
  obtain M where inv: "cq.bq_inv N s M"
    using cq.bq_inv_run [OF tq_new_bag assms(1,2), of m el cap] assms(3) by blast
  have "bpcs s u \<in> {B_idle, B_wait} \<and> (bpcs s u = B_wait \<longrightarrow> asleep (spcs (sema s) u) = 1)" if "u < N" for u
    using assms(7) that by (auto simp: list_all_length)
  then have "M = {#}" by (rule cq.sleeper_finds_nothing [OF inv assms(4-6)])
  then show ?thesis using cq.bq_invD(1) [OF inv] by (auto simp: tq_bag_def)
qed

text \<open>The run in which a consumer waits on an empty queue.\<close>

definition bq_sleep_run :: "(inner_call, nat) bq_event list" where
  "bq_sleep_run = BWaitDequeue 0 # map (\<lambda>_. BStep 0 False) (tl sleep_run)"

lemma bq_step_on_sema:
  assumes "bpcs s 0 = B_wait" "pc_agrees B_wait (spcs (sema s) 0)" "\<And>r. spcs (sema s) 0 \<noteq> L_done r"
  shows "bq_event_step enq deq (BStep 0 False) s = on_sema (SStep 0 False) s"
  using assms by (auto simp: bq_step_def split: sema_pc.splits)

lemma bq_spin_run:
  assumes "bpcs s 0 = B_wait" "m_count (sema s) = 0" "spcs (sema s) = (\<lambda>_. L_idle)(0 := L_spin (PS_load n))"
  shows "run (bq_event_step enq deq) (replicate n (BStep 0 False)) s =
    s\<lparr>sema := (sema s)\<lparr>spcs := (\<lambda>_. L_idle)(0 := L_spin (PS_load 0))\<rparr>\<rparr>"
  using assms
proof (induction n arbitrary: s)
  case 0
  then show ?case by (cases s; cases "sema s") simp
next
  case (Suc n)
  let ?s = "s\<lparr>sema := (sema s)\<lparr>spcs := (\<lambda>_. L_idle)(0 := L_spin (PS_load n))\<rparr>\<rparr>"
  have "sema_event_step (SStep 0 False) (sema s) = (sema s)\<lparr>spcs := (\<lambda>_. L_idle)(0 := L_spin (PS_load n))\<rparr>"
    using Suc.prems by (cases "sema s") (simp add: fun_eq_iff)
  then have "bq_event_step enq deq (BStep 0 False) s = ?s"
    using Suc.prems by (subst bq_step_on_sema) (auto simp: on_sema_def)
  then show ?case using Suc.IH [of ?s] Suc.prems by simp
qed

lemma bq_sleep_run_state:
  "run (bq_event_step enq deq) bq_sleep_run (bq_new q) =
    (bq_new q)\<lparr>sema := run sema_event_step sleep_run (sema_init 0), bpcs := (\<lambda>_. B_idle)(0 := B_wait)\<rparr>"
proof -
  let ?st = "\<lambda>l. \<lparr>m_count = 0, m_sema = 0, spcs = (\<lambda>_. L_idle)(0 := L_spin (PS_load l)), given = 0, taken = 0\<rparr>"
  have 1: "run (bq_event_step enq deq) [BWaitDequeue 0, BStep 0 False] (bq_new q) =
      (bq_new q)\<lparr>sema := ?st SPIN_COUNT, bpcs := (\<lambda>_. B_idle)(0 := B_wait)\<rparr>" (is "_ = ?s")
    by (simp add: bq_wait_dequeue_def bq_step_def goto_b_def on_sema_def bq_new_def sema_init_def)
  have 2: "run (bq_event_step enq deq) (replicate SPIN_COUNT (BStep 0 False)) ?s =
      (bq_new q)\<lparr>sema := ?st 0, bpcs := (\<lambda>_. B_idle)(0 := B_wait)\<rparr>"
    by (subst bq_spin_run [where n = SPIN_COUNT]) (simp_all add: bq_new_def)
  have 3: "bq_sleep_run = [BWaitDequeue 0, BStep 0 False] @ replicate SPIN_COUNT (BStep 0 False) @ [BStep 0 False, BStep 0 False]"
    by (simp add: bq_sleep_run_def sleep_run_def)
  have "run (bq_event_step enq deq) bq_sleep_run (bq_new q) =
      run (bq_event_step enq deq) [BStep 0 False, BStep 0 False] ((bq_new q)\<lparr>sema := ?st 0, bpcs := (\<lambda>_. B_idle)(0 := B_wait)\<rparr>)"
    unfolding 3 run_append 1 2 ..
  then show ?thesis unfolding sleep_run_state by (simp add: bq_step_def on_sema_def bq_new_def)
qed

theorem blocking_queue_no_lost_wakeup_witness:
  "int 1 < 2 ^ 31 \<and> list_all (bq_event_ok inner_call_ok 1) bq_sleep_run \<and>
   asleep (spcs (sema (run (bq_event_step inner_enqueue inner_try_dequeue) bq_sleep_run
     (bq_new (tq_new True (\<lambda>_ _. 0) 64)))) 0) = 1 \<and>
   (\<exists>al. tq_rep (inner (run (bq_event_step inner_enqueue inner_try_dequeue) bq_sleep_run
     (bq_new (tq_new True (\<lambda>_ _. 0) 64)))) al \<and> concat (map snd al) = [])"
proof -
  have "list_all (bq_event_ok inner_call_ok 1) bq_sleep_run"
    by (auto simp: bq_sleep_run_def list_all_iff bq_event_ok_def)
  then show ?thesis
    using blocking_queue_no_lost_wakeup [of 1 bq_sleep_run _ True "\<lambda>_ _. 0" 64 0, OF _ _ refl]
    by (simp add: bq_sleep_run_state sleep_run_state)
qed

end
