(* ===== verification/CQFreeList.thy ===== *)
theory CQFreeList
  imports CQPool
begin

text \<open>
  The lock-free free list of \<open>inc/concurrentqueue.h\<close> (\<open>FreeList\<close>) under concurrent \<open>add\<close> and
  \<open>try_get\<close>, one access to memory per step.  Each node has a reference count with a bit that
  says it should be on the list; the count keeps a node's next pointer fixed while some thread
  is about to swing the head past it, which is what makes the compare-and-swap safe against
  nodes that come back.
\<close>

section \<open>Operations\<close>

text \<open>Where \<open>add_knowing_refcount_is_zero\<close> goes on: out of \<open>add\<close>, or in the loop of \<open>try_get\<close>.\<close>

datatype fl_cont = To_caller | To_loop "nat option"

datatype fl_pc =
    F_idle | F_got "nat option"
  | TG_load | TG_refs nat | TG_cas nat c_uint | TG_next nat | TG_swing nat "nat option"
  | TG_drop2 nat | TG_drop1 nat "nat option"
  | FA_set nat
  | AK_load nat fl_cont | AK_next nat "nat option" fl_cont | AK_refs nat "nat option" fl_cont
  | AK_cas nat "nat option" fl_cont | AK_undo nat "nat option" fl_cont

text \<open>\<open>out\<close> records how often a node is in the hands of users; the code does not have it.\<close>

record flsys =
  fl_head :: "nat option"
  fl_next :: "nat \<Rightarrow> nat option"
  fl_refs :: "nat \<Rightarrow> c_uint"
  fl_pcs :: "nat \<Rightarrow> fl_pc"
  out :: "nat \<Rightarrow> nat"

text \<open>The loop of \<open>try_get\<close> with the head it looks at.\<close>

fun get_loop :: "nat option \<Rightarrow> fl_pc" where
  "get_loop None = F_got None"
| "get_loop (Some h) = TG_refs h"

fun fl_continue :: "fl_cont \<Rightarrow> fl_pc" where
  "fl_continue To_caller = F_idle"
| "fl_continue (To_loop h) = get_loop h"

fun fl_thread_step :: "nat \<Rightarrow> fl_pc \<Rightarrow> flsys \<Rightarrow> fl_pc \<times> flsys" where
  "fl_thread_step t F_idle s = (F_idle, s)"
| "fl_thread_step t (F_got r) s = (F_idle, s)"
| "fl_thread_step t TG_load s = (get_loop (fl_head s), s)"
| "fl_thread_step t (TG_refs h) s =
     (if fl_refs s h AND REFS_MASK = 0 then TG_load else TG_cas h (fl_refs s h), s)"
| "fl_thread_step t (TG_cas h r) s =
     (if fl_refs s h = r then (TG_next h, s\<lparr>fl_refs := (fl_refs s)(h := r + 1)\<rparr>) else (TG_load, s))"
| "fl_thread_step t (TG_next h) s = (TG_swing h (fl_next s h), s)"
| "fl_thread_step t (TG_swing h nx) s =
     (if fl_head s = Some h then (TG_drop2 h, s\<lparr>fl_head := nx\<rparr>) else (TG_drop1 h (fl_head s), s))"
| "fl_thread_step t (TG_drop2 h) s =
     (F_got (Some h), s\<lparr>fl_refs := (fl_refs s)(h := fl_refs s h - 2), out := (out s)(h := Suc (out s h))\<rparr>)"
| "fl_thread_step t (TG_drop1 h nh) s =
     (if fl_refs s h = SHOULD_BE_ON_FREELIST + 1 then AK_load h (To_loop nh) else get_loop nh,
      s\<lparr>fl_refs := (fl_refs s)(h := fl_refs s h - 1)\<rparr>)"
| "fl_thread_step t (FA_set n) s =
     (if fl_refs s n = 0 then AK_load n To_caller else F_idle,
      s\<lparr>fl_refs := (fl_refs s)(n := fl_refs s n + SHOULD_BE_ON_FREELIST)\<rparr>)"
| "fl_thread_step t (AK_load n k) s = (AK_next n (fl_head s) k, s)"
| "fl_thread_step t (AK_next n hp k) s = (AK_refs n hp k, s\<lparr>fl_next := (fl_next s)(n := hp)\<rparr>)"
| "fl_thread_step t (AK_refs n hp k) s = (AK_cas n hp k, s\<lparr>fl_refs := (fl_refs s)(n := 1)\<rparr>)"
| "fl_thread_step t (AK_cas n hp k) s =
     (if fl_head s = hp then (fl_continue k, s\<lparr>fl_head := Some n\<rparr>) else (AK_undo n (fl_head s) k, s))"
| "fl_thread_step t (AK_undo n hp k) s =
     (if fl_refs s n = 1 then AK_next n hp k else fl_continue k,
      s\<lparr>fl_refs := (fl_refs s)(n := fl_refs s n + (SHOULD_BE_ON_FREELIST - 1))\<rparr>)"

text \<open>
  A thread that is in no operation may ask for a node or give back one that is in the hands of
  users.
\<close>

datatype fl_event = FL_get nat | FL_add nat nat | FL_step nat

fun fl_event_step :: "fl_event \<Rightarrow> flsys \<Rightarrow> flsys" where
  "fl_event_step (FL_get t) s =
     (if fl_pcs s t = F_idle then s\<lparr>fl_pcs := (fl_pcs s)(t := TG_load)\<rparr> else s)"
| "fl_event_step (FL_add t n) s =
     (if fl_pcs s t = F_idle \<and> 0 < out s n
      then s\<lparr>fl_pcs := (fl_pcs s)(t := FA_set n), out := (out s)(n := out s n - 1)\<rparr> else s)"
| "fl_event_step (FL_step t) s =
     (case fl_thread_step t (fl_pcs s t) s of (p, s') \<Rightarrow> s'\<lparr>fl_pcs := (fl_pcs s')(t := p)\<rparr>)"

text \<open>At first all nodes are in use.\<close>

definition fl_init :: "(nat \<Rightarrow> nat option) \<Rightarrow> flsys" where
  "fl_init nx = \<lparr>fl_head = None, fl_next = nx, fl_refs = (\<lambda>_. 0), fl_pcs = (\<lambda>_. F_idle), out = (\<lambda>_. 1)\<rparr>"

section \<open>Invariant\<close>

text \<open>
  What a node is: in the hands of users, about to be given back by a thread, waiting for its
  last reference to go, being added by a thread (before and after it has set the count to 1),
  on the list, or just taken off it by a thread.
\<close>

datatype fl_status = Out | Giving nat | Limbo | Early nat | Late nat | Listed | Taken nat

fun ref_base :: "fl_status \<Rightarrow> c_uint" where
  "ref_base Out = 0" | "ref_base (Giving t) = 0"
| "ref_base Limbo = SHOULD_BE_ON_FREELIST" | "ref_base (Early t) = SHOULD_BE_ON_FREELIST"
| "ref_base (Late t) = 1" | "ref_base Listed = 1" | "ref_base (Taken t) = 1"

text \<open>The node a thread has a reference to, and the node it is responsible for.\<close>

fun holds :: "fl_pc \<Rightarrow> nat \<Rightarrow> bool" where
  "holds (TG_next h) n = (n = h)" | "holds (TG_swing h nx) n = (n = h)"
| "holds (TG_drop2 h) n = (n = h)" | "holds (TG_drop1 h nh) n = (n = h)" | "holds _ n = False"

fun role :: "nat \<Rightarrow> fl_pc \<Rightarrow> (nat \<times> fl_status) option" where
  "role t (TG_drop2 h) = Some (h, Taken t)" | "role t (FA_set n) = Some (n, Giving t)"
| "role t (AK_load n k) = Some (n, Early t)" | "role t (AK_next n hp k) = Some (n, Early t)"
| "role t (AK_refs n hp k) = Some (n, Early t)" | "role t (AK_cas n hp k) = Some (n, Late t)"
| "role t (AK_undo n hp k) = Some (n, Late t)" | "role t _ = None"

fun responsible :: "fl_status \<Rightarrow> nat option" where
  "responsible (Giving t) = Some t" | "responsible (Early t) = Some t" | "responsible (Late t) = Some t"
| "responsible (Taken t) = Some t" | "responsible _ = None"

fun pc_local :: "fl_pc \<Rightarrow> (nat \<Rightarrow> nat option) \<Rightarrow> bool" where
  "pc_local (TG_cas h r) nx = (r AND REFS_MASK \<noteq> 0)" | "pc_local (TG_swing h n) nx = (nx h = n)"
| "pc_local (AK_refs n hp k) nx = (nx n = hp)" | "pc_local (AK_cas n hp k) nx = (nx n = hp)"
| "pc_local _ nx = True"

definition holders :: "nat \<Rightarrow> (nat \<Rightarrow> fl_pc) \<Rightarrow> nat \<Rightarrow> int" where
  "holders T pcs n = (\<Sum>t<T. of_bool (holds (pcs t) n))"

definition refs_ok :: "nat \<Rightarrow> flsys \<Rightarrow> (nat \<Rightarrow> fl_status) \<Rightarrow> bool" where
  "refs_ok T s st \<longleftrightarrow> (\<forall>n. fl_refs s n = ref_base (st n) + of_int (holders T (fl_pcs s) n) \<and>
     (st n = Limbo \<longrightarrow> 1 \<le> holders T (fl_pcs s) n) \<and> (\<forall>t. st n = Early t \<longrightarrow> holders T (fl_pcs s) n = 0))"

definition chain_ok :: "flsys \<Rightarrow> (nat \<Rightarrow> fl_status) \<Rightarrow> nat list \<Rightarrow> bool" where
  "chain_ok s st fs \<longleftrightarrow> free_chain (fl_next s) (fl_head s) fs \<and> distinct fs \<and> (\<forall>n. n \<in> set fs \<longleftrightarrow> st n = Listed)"

definition roles_ok :: "flsys \<Rightarrow> (nat \<Rightarrow> fl_status) \<Rightarrow> bool" where
  "roles_ok s st \<longleftrightarrow> (\<forall>t n q. role t (fl_pcs s t) = Some (n, q) \<longrightarrow> st n = q) \<and>
     (\<forall>n t. responsible (st n) = Some t \<longrightarrow> role t (fl_pcs s t) = Some (n, st n))"

definition fl_inv :: "nat \<Rightarrow> flsys \<Rightarrow> (nat \<Rightarrow> fl_status) \<Rightarrow> nat list \<Rightarrow> bool" where
  "fl_inv T s st fs \<longleftrightarrow> refs_ok T s st \<and> chain_ok s st fs \<and> roles_ok s st \<and>
     (\<forall>t. pc_local (fl_pcs s t) (fl_next s)) \<and> (\<forall>t\<ge>T. fl_pcs s t = F_idle) \<and> (\<forall>n. out s n = (if st n = Out then 1 else 0))"

lemma holders_upd:
  "t < T \<Longrightarrow> holders T (pcs(t := p)) n = holders T pcs n + of_bool (holds p n) - of_bool (holds (pcs t) n)"
  using sum_fun_upd [of t T "\<lambda>p. of_bool (holds p n)" pcs p] by (simp add: holders_def)

lemma holders_bounds: "0 \<le> holders T pcs n" "holders T pcs n \<le> int T"
  using sum_mono [of "{..<T}" "\<lambda>t. of_bool (holds (pcs t) n)" "\<lambda>_. 1 :: int"]
  by (simp_all add: holders_def sum_nonneg)

lemma holder_counted:
  assumes "t < T" "holds (pcs t) n"
  shows "1 \<le> holders T pcs n"
  using holders_upd [OF assms(1), of pcs F_idle n] holders_bounds(1) [of T "pcs(t := F_idle)" n] assms(2) by simp

lemma fl_invD:
  assumes "fl_inv T s st fs"
  shows "refs_ok T s st" "chain_ok s st fs" "roles_ok s st" "\<And>t. pc_local (fl_pcs s t) (fl_next s)"
    "\<And>t. T \<le> t \<Longrightarrow> fl_pcs s t = F_idle" "\<And>n. out s n = (if st n = Out then 1 else 0)"
  using assms unfolding fl_inv_def by blast+

lemma role_responsible: "role t p = Some (n, q) \<Longrightarrow> responsible q = Some t"
  by (cases p) auto

lemma refs_okD:
  assumes "refs_ok T s st"
  shows "fl_refs s n = ref_base (st n) + of_int (holders T (fl_pcs s) n)"
    "st n = Limbo \<Longrightarrow> 1 \<le> holders T (fl_pcs s) n" "st n = Early t \<Longrightarrow> holders T (fl_pcs s) n = 0"
  using assms unfolding refs_ok_def by blast+

lemma roles_okD:
  assumes "roles_ok s st"
  shows "role t (fl_pcs s t) = Some (n, q) \<Longrightarrow> st n = q"
    "responsible (st n) = Some t \<Longrightarrow> role t (fl_pcs s t) = Some (n, st n)"
  using assms unfolding roles_ok_def by blast+

text \<open>Node \<open>m\<close> gets status \<open>q\<close> while thread \<open>t\<close> goes to \<open>p\<close>.\<close>

lemma refs_update:
  assumes ok: "refs_ok T s st" and t: "t < T"
    and s': "fl_pcs s' = (fl_pcs s)(t := p)" "\<And>n. n \<noteq> m \<Longrightarrow> fl_refs s' n = fl_refs s n"
    and same: "\<And>n. n \<noteq> m \<Longrightarrow> holds p n = holds (fl_pcs s t) n"
    and m: "H = holders T (fl_pcs s) m + of_bool (holds p m) - of_bool (holds (fl_pcs s t) m)"
    "fl_refs s' m = ref_base q + of_int H" "q = Limbo \<Longrightarrow> 1 \<le> H" "\<And>u. q = Early u \<Longrightarrow> H = 0"
  shows "refs_ok T s' (st(m := q))"
  unfolding refs_ok_def
proof
  fix n
  show "fl_refs s' n = ref_base ((st(m := q)) n) + of_int (holders T (fl_pcs s') n) \<and>
     ((st(m := q)) n = Limbo \<longrightarrow> 1 \<le> holders T (fl_pcs s') n) \<and>
     (\<forall>t. (st(m := q)) n = Early t \<longrightarrow> holders T (fl_pcs s') n = 0)"
  proof (cases "n = m")
    case True
    have "holders T (fl_pcs s') m = H" unfolding s'(1) holders_upd [OF t] m(1) ..
    then show ?thesis using True m by simp
  next
    case False
    have "holders T (fl_pcs s') n = holders T (fl_pcs s) n" unfolding s'(1) holders_upd [OF t] using same [OF False] by simp
    then show ?thesis using False s'(2) refs_okD [OF ok] by simp
  qed
qed

lemma roles_update:
  assumes ok: "roles_ok s st" and s': "fl_pcs s' = (fl_pcs s)(t := p)"
    and old: "role t (fl_pcs s t) = (if responsible (st m) = Some t then Some (m, st m) else None)"
    "responsible (st m) = None \<or> responsible (st m) = Some t"
    and new: "role t p = (if responsible q = Some t then Some (m, q) else None)" "responsible q = None \<or> responsible q = Some t"
  shows "roles_ok s' (st(m := q))"
  unfolding roles_ok_def
proof (intro conjI allI impI)
  fix u n r assume r: "role u (fl_pcs s' u) = Some (n, r)"
  show "(st(m := q)) n = r"
  proof (cases "u = t")
    case True
    then show ?thesis using r new s' by (auto split: if_splits)
  next
    case False
    then have *: "role u (fl_pcs s u) = Some (n, r)" using r s' by simp
    then have "st n = r" "responsible r = Some u" using roles_okD(1) [OF ok] role_responsible by blast+
    then have "n \<noteq> m" using old(2) False by auto
    then show ?thesis using \<open>st n = r\<close> by simp
  qed
next
  fix n u assume r: "responsible ((st(m := q)) n) = Some u"
  show "role u (fl_pcs s' u) = Some (n, (st(m := q)) n)"
  proof (cases "n = m")
    case True
    then show ?thesis using r new s' by auto
  next
    case False
    then have *: "role u (fl_pcs s u) = Some (n, st n)" using r roles_okD(2) [OF ok] by simp
    then have "u \<noteq> t" using old(1) False by (auto split: if_splits)
    then show ?thesis using * s' False by simp
  qed
qed

lemma fl_inv_silent:
  assumes inv: "fl_inv T s st fs" and t: "t < T"
    and p: "\<And>n. holds p n = holds (fl_pcs s t) n" "role t p = role t (fl_pcs s t)" "pc_local p (fl_next s)"
  shows "fl_inv T (s\<lparr>fl_pcs := (fl_pcs s)(t := p)\<rparr>) st fs"
proof -
  note D = fl_invD [OF inv]
  have "holders T ((fl_pcs s)(t := p)) n = holders T (fl_pcs s) n" for n
    unfolding holders_upd [OF t] p(1) by simp
  then have "refs_ok T (s\<lparr>fl_pcs := (fl_pcs s)(t := p)\<rparr>) st" using D(1) by (simp add: refs_ok_def)
  moreover have "roles_ok (s\<lparr>fl_pcs := (fl_pcs s)(t := p)\<rparr>) st"
    using D(3) p(2) unfolding roles_ok_def by auto
  moreover have "chain_ok (s\<lparr>fl_pcs := (fl_pcs s)(t := p)\<rparr>) st fs" using D(2) by (simp add: chain_ok_def)
  ultimately show ?thesis using D(4-6) p(3) t unfolding fl_inv_def by auto
qed

text \<open>A change of node \<open>m\<close> that leaves the list alone.\<close>

lemma fl_inv_node:
  assumes inv: "fl_inv T s st fs" and t: "t < T"
    and s': "fl_pcs s' = (fl_pcs s)(t := p)" "fl_refs s' = (fl_refs s)(m := r)" "fl_next s' = fl_next s" "fl_head s' = fl_head s"
    "out s' = (out s)(m := if q = Out then 1 else 0)"
    and same: "\<And>n. n \<noteq> m \<Longrightarrow> holds p n = holds (fl_pcs s t) n"
    and m: "r = ref_base q + of_int (holders T (fl_pcs s) m + of_bool (holds p m) - of_bool (holds (fl_pcs s t) m))"
    "q = Limbo \<Longrightarrow> 1 \<le> holders T (fl_pcs s) m + of_bool (holds p m) - of_bool (holds (fl_pcs s t) m)"
    "\<And>u. q = Early u \<Longrightarrow> holders T (fl_pcs s) m + of_bool (holds p m) - of_bool (holds (fl_pcs s t) m) = 0"
    and roles: "roles_ok s' (st(m := q))" and lists: "q = Listed \<longleftrightarrow> st m = Listed" and loc: "pc_local p (fl_next s)"
  shows "fl_inv T s' (st(m := q)) fs"
proof -
  note D = fl_invD [OF inv]
  have "refs_ok T s' (st(m := q))"
    by (rule refs_update [OF D(1) t s'(1) _ same refl]) (use s'(2) m in simp_all)
  moreover have "chain_ok s' (st(m := q)) fs" using D(2) lists by (auto simp: chain_ok_def s')
  moreover have "\<forall>u. pc_local (fl_pcs s' u) (fl_next s')" using D(4) loc by (simp add: s')
  moreover have "\<forall>u\<ge>T. fl_pcs s' u = F_idle" using D(5) t by (auto simp: s')
  moreover have "\<forall>n. out s' n = (if (st(m := q)) n = Out then 1 else 0)" using D(6) by (simp add: s')
  ultimately show ?thesis using roles unfolding fl_inv_def by blast
qed

section \<open>Preservation\<close>

lemma c_uint_eq_iff:
  assumes "0 \<le> a" "a < 2 ^ 32" "0 \<le> b" "b < 2 ^ 32"
  shows "(of_int a :: c_uint) = of_int b \<longleftrightarrow> a = b"
proof -
  have "(of_int a :: c_uint) = of_int b \<longleftrightarrow> take_bit LENGTH(32) a = take_bit LENGTH(32) b" by (rule word_of_int_eq_iff)
  then show ?thesis using assms by (simp add: take_bit_int_eq_self)
qed

lemma SHOULD_BE_ON_FREELIST_int: "SHOULD_BE_ON_FREELIST = of_int (2 ^ 31)"
  by (simp add: SHOULD_BE_ON_FREELIST_def)

text \<open>The count that makes a thread the last one with a reference to a waiting node.\<close>

lemma last_reference:
  assumes ok: "refs_ok T s st" and T: "int T < 2 ^ 31 - 1"
  shows "fl_refs s h = SHOULD_BE_ON_FREELIST + 1 \<longleftrightarrow> st h = Limbo \<and> holders T (fl_pcs s) h = 1"
proof -
  let ?H = "holders T (fl_pcs s) h"
  have H: "0 \<le> ?H" "?H < 2 ^ 31 - 1" using holders_bounds [of T "fl_pcs s" h] T by auto
  have eq: "(of_int (b + ?H) :: c_uint) = of_int (2 ^ 31 + 1) \<longleftrightarrow> b + ?H = 2 ^ 31 + 1" if "0 \<le> b" "b \<le> 2 ^ 31" for b
    using H that by (intro c_uint_eq_iff) auto
  have flag: "SHOULD_BE_ON_FREELIST + 1 = (of_int (2 ^ 31 + 1) :: c_uint)" by (simp add: SHOULD_BE_ON_FREELIST_def)
  note R = refs_okD(1) [OF ok, of h] and E = refs_okD(3) [OF ok, of h]
  show ?thesis
  proof (cases "st h")
    case Limbo
    then show ?thesis using R eq [of "2 ^ 31"] unfolding flag by (simp add: SHOULD_BE_ON_FREELIST_int)
  next
    case (Early u)
    then show ?thesis using R E [OF Early] by (simp add: SHOULD_BE_ON_FREELIST_def)
  qed (use R eq [of 0] eq [of 1] H in \<open>simp_all add: flag\<close>)
qed

lemma no_reference:
  assumes ok: "refs_ok T s st" and T: "int T < 2 ^ 31 - 1"
  shows "ref_base (st n) = 0 \<Longrightarrow> fl_refs s n = 0 \<longleftrightarrow> holders T (fl_pcs s) n = 0"
    "ref_base (st n) = 1 \<Longrightarrow> fl_refs s n = 1 \<longleftrightarrow> holders T (fl_pcs s) n = 0"
proof -
  let ?H = "holders T (fl_pcs s) n"
  have H: "0 \<le> ?H" "?H < 2 ^ 31 - 1" using holders_bounds [of T "fl_pcs s" n] T by auto
  then have z: "(of_int ?H :: c_uint) = of_int 0 \<longleftrightarrow> ?H = 0" by (intro c_uint_eq_iff) auto
  show "ref_base (st n) = 0 \<Longrightarrow> fl_refs s n = 0 \<longleftrightarrow> ?H = 0" "ref_base (st n) = 1 \<Longrightarrow> fl_refs s n = 1 \<longleftrightarrow> ?H = 0"
    using z refs_okD(1) [OF ok, of n] by simp_all
qed

text \<open>The assertion of \<open>try_get\<close>: a node just taken off the list does not have the flag.\<close>

lemma taken_flag:
  assumes ok: "refs_ok T s st" and T: "int T < 2 ^ 31 - 1" and st: "st h = Taken t"
  shows "fl_refs s h AND SHOULD_BE_ON_FREELIST = 0"
proof -
  let ?H = "holders T (fl_pcs s) h"
  have H: "0 \<le> ?H" "?H < 2 ^ 31 - 1" using holders_bounds [of T "fl_pcs s" h] T by auto
  have "fl_refs s h = of_int (1 + ?H)" using refs_okD(1) [OF ok, of h] st by simp
  moreover have "\<not> bit (1 + ?H) 31" using H by (simp add: bit_iff_odd)
  ultimately have "\<not> bit (fl_refs s h) 31" by (simp add: bit_word_of_int_iff del: of_int_add)
  moreover have F: "SHOULD_BE_ON_FREELIST = 2 ^ 31" by (simp add: SHOULD_BE_ON_FREELIST_def)
  have "bit SHOULD_BE_ON_FREELIST i \<longleftrightarrow> i = 31" for i unfolding F bit_exp_iff by auto
  ultimately show ?thesis by (auto intro!: bit_word_eqI simp: bit_and_iff simp del: F)
qed

lemma continue_harmless:
  "holds (fl_continue k) n = False" "role t (fl_continue k) = None" "pc_local (fl_continue k) nx"
  "holds (get_loop h) n = False" "role t (get_loop h) = None" "pc_local (get_loop h) nx"
  by (cases k; cases h; simp; (cases "case k of To_loop h \<Rightarrow> h | _ \<Rightarrow> None"; simp)?)+

text \<open>A thread takes or drops a reference; the status of the node stays.\<close>

lemma inv_reference:
  assumes inv: "fl_inv T s st fs" and t: "t < T"
    and p: "\<And>n. n \<noteq> h \<Longrightarrow> holds p n = holds (fl_pcs s t) n" "role t p = None" "role t (fl_pcs s t) = None" "pc_local p (fl_next s)"
    and d: "d = of_bool (holds p h) - of_bool (holds (fl_pcs s t) h)"
    and keep: "st h = Limbo \<Longrightarrow> 1 \<le> holders T (fl_pcs s) h + d" "\<And>u. st h = Early u \<Longrightarrow> d = 0"
  shows "fl_inv T (s\<lparr>fl_refs := (fl_refs s)(h := fl_refs s h + of_int d), fl_pcs := (fl_pcs s)(t := p)\<rparr>) st fs"
proof -
  note D = fl_invD [OF inv]
  let ?s = "s\<lparr>fl_refs := (fl_refs s)(h := fl_refs s h + of_int d), fl_pcs := (fl_pcs s)(t := p)\<rparr>"
  have "refs_ok T ?s (st(h := st h))"
    by (rule refs_update [OF D(1) t _ _ p(1) refl])
      (use keep refs_okD(1) [OF D(1), of h] refs_okD(3) [OF D(1), of h] in \<open>auto simp: d\<close>)
  moreover have "roles_ok ?s st" using D(3) p(2,3) unfolding roles_ok_def by auto
  moreover have "chain_ok ?s st fs" using D(2) by (simp add: chain_ok_def)
  ultimately show ?thesis using D(4-6) p(4) t unfolding fl_inv_def by auto
qed

lemma inv_cas:
  assumes inv: "fl_inv T s st fs" and t: "t < T" "fl_pcs s t = TG_cas h r" and ok: "fl_refs s h = r"
  shows "fl_inv T (s\<lparr>fl_refs := (fl_refs s)(h := r + 1), fl_pcs := (fl_pcs s)(t := TG_next h)\<rparr>) st fs"
proof -
  note D = fl_invD [OF inv]
  have mask: "r AND REFS_MASK \<noteq> 0" using D(4) [of t] t(2) by simp
  have "st h \<noteq> Early u" for u
  proof
    assume e: "st h = Early u"
    then have "fl_refs s h = SHOULD_BE_ON_FREELIST" using refs_okD(1,3) [OF D(1), of h] by simp
    then show False using mask ok by (simp add: SHOULD_BE_ON_FREELIST_def REFS_MASK_def)
  qed
  then have "fl_inv T (s\<lparr>fl_refs := (fl_refs s)(h := fl_refs s h + of_int 1), fl_pcs := (fl_pcs s)(t := TG_next h)\<rparr>) st fs"
    using refs_okD(2) [OF D(1), of h] t by (intro inv_reference [OF inv t(1)]) auto
  then show ?thesis using ok by simp
qed

lemma inv_drop1:
  assumes inv: "fl_inv T s st fs" and t: "t < T" "fl_pcs s t = TG_drop1 h nh" and T: "int T < 2 ^ 31 - 1"
  shows "\<exists>st'. fl_inv T (s\<lparr>fl_refs := (fl_refs s)(h := fl_refs s h - 1), fl_pcs := (fl_pcs s)(t :=
    if fl_refs s h = SHOULD_BE_ON_FREELIST + 1 then AK_load h (To_loop nh) else get_loop nh)\<rparr>) st' fs"
proof -
  note D = fl_invD [OF inv]
  let ?H = "holders T (fl_pcs s) h"
  have H: "1 \<le> ?H" using holder_counted [of t T "fl_pcs s" h] t by simp
  note last = last_reference [OF D(1) T, of h]
  have ne: "st h \<noteq> Early u" for u using refs_okD(3) [OF D(1), of h u] H by auto
  show ?thesis
  proof (cases "st h = Limbo \<and> ?H = 1")
    case True
    let ?s = "s\<lparr>fl_refs := (fl_refs s)(h := fl_refs s h - 1), fl_pcs := (fl_pcs s)(t := AK_load h (To_loop nh))\<rparr>"
    have "roles_ok ?s (st(h := Early t))" by (rule roles_update [OF D(3)]) (use t True in auto)
    then have "fl_inv T ?s (st(h := Early t)) fs"
      using True t refs_okD(1) [OF D(1), of h] D(6) [of h] by (intro fl_inv_node [OF inv t(1)]) auto
    then show ?thesis using last True by auto
  next
    case False
    have "fl_inv T (s\<lparr>fl_refs := (fl_refs s)(h := fl_refs s h + of_int (- 1)), fl_pcs := (fl_pcs s)(t := get_loop nh)\<rparr>) st fs"
      using t H False ne by (intro inv_reference [OF inv t(1)]) (auto simp: continue_harmless)
    then show ?thesis using last False by auto
  qed
qed

lemma inv_set:
  assumes inv: "fl_inv T s st fs" and t: "t < T" "fl_pcs s t = FA_set n" and T: "int T < 2 ^ 31 - 1"
  shows "\<exists>st'. fl_inv T (s\<lparr>fl_refs := (fl_refs s)(n := fl_refs s n + SHOULD_BE_ON_FREELIST), fl_pcs := (fl_pcs s)(t :=
    if fl_refs s n = 0 then AK_load n To_caller else F_idle)\<rparr>) st' fs"
proof -
  note D = fl_invD [OF inv]
  let ?H = "holders T (fl_pcs s) n"
  let ?p = "if fl_refs s n = 0 then AK_load n To_caller else F_idle"
  let ?q = "if fl_refs s n = 0 then Early t else Limbo"
  have st: "st n = Giving t" using roles_okD(1) [OF D(3), of t n] t(2) by simp
  have z: "fl_refs s n = 0 \<longleftrightarrow> ?H = 0" using no_reference(1) [OF D(1) T, of n] st by simp
  let ?s = "s\<lparr>fl_refs := (fl_refs s)(n := fl_refs s n + SHOULD_BE_ON_FREELIST), fl_pcs := (fl_pcs s)(t := ?p)\<rparr>"
  have "roles_ok ?s (st(n := ?q))" by (rule roles_update [OF D(3)]) (use t st in auto)
  then have "fl_inv T ?s (st(n := ?q)) fs"
    using st t z refs_okD(1) [OF D(1), of n] D(6) [of n] holders_bounds(1) [of T "fl_pcs s" n]
    by (intro fl_inv_node [OF inv t(1)]) (auto split: if_splits)
  then show ?thesis by blast
qed

lemma inv_undo:
  assumes inv: "fl_inv T s st fs" and t: "t < T" "fl_pcs s t = AK_undo n hp k" and T: "int T < 2 ^ 31 - 1"
  shows "\<exists>st'. fl_inv T (s\<lparr>fl_refs := (fl_refs s)(n := fl_refs s n + (SHOULD_BE_ON_FREELIST - 1)), fl_pcs := (fl_pcs s)(t :=
    if fl_refs s n = 1 then AK_next n hp k else fl_continue k)\<rparr>) st' fs"
proof -
  note D = fl_invD [OF inv]
  let ?H = "holders T (fl_pcs s) n"
  let ?p = "if fl_refs s n = 1 then AK_next n hp k else fl_continue k"
  let ?q = "if fl_refs s n = 1 then Early t else Limbo"
  have st: "st n = Late t" using roles_okD(1) [OF D(3), of t n] t(2) by simp
  have z: "fl_refs s n = 1 \<longleftrightarrow> ?H = 0" using no_reference(2) [OF D(1) T, of n] st by simp
  let ?s = "s\<lparr>fl_refs := (fl_refs s)(n := fl_refs s n + (SHOULD_BE_ON_FREELIST - 1)), fl_pcs := (fl_pcs s)(t := ?p)\<rparr>"
  have "roles_ok ?s (st(n := ?q))" by (rule roles_update [OF D(3)]) (use t st in \<open>auto simp: continue_harmless\<close>)
  then have "fl_inv T ?s (st(n := ?q)) fs"
    using st t z refs_okD(1) [OF D(1), of n] D(6) [of n] holders_bounds(1) [of T "fl_pcs s" n]
    by (intro fl_inv_node [OF inv t(1)]) (auto simp: continue_harmless split: if_splits)
  then show ?thesis by blast
qed

lemma inv_drop2:
  assumes inv: "fl_inv T s st fs" and t: "t < T" "fl_pcs s t = TG_drop2 h"
  shows "fl_inv T (s\<lparr>fl_refs := (fl_refs s)(h := fl_refs s h - 2), out := (out s)(h := Suc (out s h)),
    fl_pcs := (fl_pcs s)(t := F_got (Some h))\<rparr>) (st(h := Out)) fs"
proof -
  note D = fl_invD [OF inv]
  have st: "st h = Taken t" using roles_okD(1) [OF D(3), of t h] t(2) by simp
  let ?s = "s\<lparr>fl_refs := (fl_refs s)(h := fl_refs s h - 2), out := (out s)(h := Suc (out s h)),
    fl_pcs := (fl_pcs s)(t := F_got (Some h))\<rparr>"
  have "roles_ok ?s (st(h := Out))" by (rule roles_update [OF D(3)]) (use t st in auto)
  then show ?thesis
    using st t refs_okD(1) [OF D(1), of h] D(6) [of h] by (intro fl_inv_node [OF inv t(1)]) auto
qed

lemma inv_set_refs:
  assumes inv: "fl_inv T s st fs" and t: "t < T" "fl_pcs s t = AK_refs n hp k"
  shows "fl_inv T (s\<lparr>fl_refs := (fl_refs s)(n := 1), fl_pcs := (fl_pcs s)(t := AK_cas n hp k)\<rparr>) (st(n := Late t)) fs"
proof -
  note D = fl_invD [OF inv]
  have st: "st n = Early t" using roles_okD(1) [OF D(3), of t n] t(2) by simp
  let ?s = "s\<lparr>fl_refs := (fl_refs s)(n := 1), fl_pcs := (fl_pcs s)(t := AK_cas n hp k)\<rparr>"
  have "roles_ok ?s (st(n := Late t))" by (rule roles_update [OF D(3)]) (use t st in auto)
  then show ?thesis
    using st t refs_okD(3) [OF D(1) st] D(4) [of t] D(6) [of n] by (intro fl_inv_node [OF inv t(1)]) auto
qed

lemma inv_add:
  assumes inv: "fl_inv T s st fs" and t: "t < T" "fl_pcs s t = F_idle" and n: "0 < out s n"
  shows "fl_inv T (s\<lparr>fl_pcs := (fl_pcs s)(t := FA_set n), out := (out s)(n := out s n - 1)\<rparr>) (st(n := Giving t)) fs"
proof -
  note D = fl_invD [OF inv]
  have st: "st n = Out" "out s n = 1" using D(6) [of n] n by (auto split: if_splits)
  let ?s = "s\<lparr>fl_pcs := (fl_pcs s)(t := FA_set n), out := (out s)(n := out s n - 1)\<rparr>"
  have "roles_ok ?s (st(n := Giving t))" by (rule roles_update [OF D(3)]) (use t st in auto)
  then show ?thesis
    using st t refs_okD(1) [OF D(1), of n]
    by (intro fl_inv_node [OF inv t(1), where m = n and p = "FA_set n" and r = "fl_refs s n"]) auto
qed

text \<open>The head is swung past a node whose next pointer cannot have changed.\<close>

lemma inv_swing:
  assumes inv: "fl_inv T s st fs" and t: "t < T" "fl_pcs s t = TG_swing h nx" and hp: "fl_head s = Some h"
  shows "\<exists>fs'. fl_inv T (s\<lparr>fl_head := nx, fl_pcs := (fl_pcs s)(t := TG_drop2 h)\<rparr>) (st(h := Taken t)) fs'"
proof -
  note D = fl_invD [OF inv]
  have C: "free_chain (fl_next s) (Some h) fs" "distinct fs" "\<And>n. n \<in> set fs \<longleftrightarrow> st n = Listed"
    using D(2) hp by (simp_all add: chain_ok_def)
  then obtain fs' where fs: "fs = h # fs'" "free_chain (fl_next s) (fl_next s h) fs'" by (cases fs) auto
  have nx: "fl_next s h = nx" using D(4) [of t] t(2) by simp
  have st: "st h = Listed" using C(3) [of h] fs(1) by simp
  let ?s = "s\<lparr>fl_head := nx, fl_pcs := (fl_pcs s)(t := TG_drop2 h)\<rparr>"
  have "roles_ok ?s (st(h := Taken t))" by (rule roles_update [OF D(3)]) (use t st in auto)
  moreover have "refs_ok T ?s (st(h := Taken t))"
    by (rule refs_update [OF D(1) t(1) _ _ _ refl]) (use refs_okD(1) [OF D(1), of h] st t in auto)
  moreover have "chain_ok ?s (st(h := Taken t)) fs'"
    using fs nx C(2,3) by (auto simp: chain_ok_def)
  ultimately have "fl_inv T ?s (st(h := Taken t)) fs'"
    using D(4-6) t st unfolding fl_inv_def by auto
  then show ?thesis by blast
qed

lemma inv_push:
  assumes inv: "fl_inv T s st fs" and t: "t < T" "fl_pcs s t = AK_cas n hp k" and hp: "fl_head s = hp"
  shows "fl_inv T (s\<lparr>fl_head := Some n, fl_pcs := (fl_pcs s)(t := fl_continue k)\<rparr>) (st(n := Listed)) (n # fs)"
proof -
  note D = fl_invD [OF inv]
  have st: "st n = Late t" using roles_okD(1) [OF D(3), of t n] t(2) by simp
  have nx: "fl_next s n = hp" using D(4) [of t] t(2) by simp
  let ?s = "s\<lparr>fl_head := Some n, fl_pcs := (fl_pcs s)(t := fl_continue k)\<rparr>"
  have "roles_ok ?s (st(n := Listed))" by (rule roles_update [OF D(3)]) (use t st in \<open>auto simp: continue_harmless\<close>)
  moreover have "refs_ok T ?s (st(n := Listed))"
    by (rule refs_update [OF D(1) t(1) _ _ _ refl]) (use refs_okD(1) [OF D(1), of n] st t in \<open>auto simp: continue_harmless\<close>)
  moreover have "chain_ok ?s (st(n := Listed)) (n # fs)"
    using D(2) nx hp st by (auto simp: chain_ok_def)
  ultimately show ?thesis
    using D(4-6) t st unfolding fl_inv_def by (auto simp: continue_harmless)
qed

text \<open>A next pointer is stored while nobody has a reference to the node.\<close>

lemma inv_set_next:
  assumes inv: "fl_inv T s st fs" and t: "t < T" "fl_pcs s t = AK_next n hp k"
  shows "fl_inv T (s\<lparr>fl_next := (fl_next s)(n := hp), fl_pcs := (fl_pcs s)(t := AK_refs n hp k)\<rparr>) st fs"
proof -
  note D = fl_invD [OF inv]
  have st: "st n = Early t" using roles_okD(1) [OF D(3), of t n] t(2) by simp
  have H: "holders T (fl_pcs s) n = 0" using refs_okD(3) [OF D(1) st] .
  let ?s = "s\<lparr>fl_next := (fl_next s)(n := hp), fl_pcs := (fl_pcs s)(t := AK_refs n hp k)\<rparr>"
  have "holders T ((fl_pcs s)(t := AK_refs n hp k)) m = holders T (fl_pcs s) m" for m
    unfolding holders_upd [OF t(1)] t(2) by simp
  then have "refs_ok T ?s st" using D(1) by (simp add: refs_ok_def)
  moreover have "role u (fl_pcs ?s u) = role u (fl_pcs s u)" for u using t(2) by simp
  then have "roles_ok ?s st" using D(3) by (simp only: roles_ok_def)
  moreover have "n \<notin> set fs" using D(2) st by (simp add: chain_ok_def)
  then have "free_chain ((fl_next s)(n := hp)) (fl_head s) fs = free_chain (fl_next s) (fl_head s) fs"
    by (intro free_chain_cong) auto
  then have "chain_ok ?s st fs" using D(2) by (simp add: chain_ok_def)
  moreover have "pc_local (fl_pcs ?s u) (fl_next ?s)" for u
  proof (cases "u = t")
    case False
    have free: "\<not> holds (fl_pcs s u) n"
      using holder_counted [of u T "fl_pcs s" n] H D(5) [of u] by (cases "u < T") auto
    have "role u (fl_pcs s u) \<noteq> Some (n, q)" for q
      using roles_okD(1) [OF D(3), of u n q] role_responsible [of u "fl_pcs s u" n q] st False by auto
    then show ?thesis using free False D(4) [of u] by (cases "fl_pcs s u") auto
  qed simp
  ultimately show ?thesis using D(5,6) t(1) unfolding fl_inv_def by auto
qed

definition fl_ok :: "nat \<Rightarrow> flsys \<Rightarrow> bool" where
  "fl_ok T s = (\<exists>st fs. fl_inv T s st fs)"

lemma fl_okI [intro]: "fl_inv T s st fs \<Longrightarrow> fl_ok T s"
  unfolding fl_ok_def by blast

lemma fl_inv_step:
  assumes inv: "fl_inv T s st fs" and t: "t < T" and T: "int T < 2 ^ 31 - 1"
  shows "fl_ok T (fl_event_step (FL_step t) s)"
proof (cases "fl_pcs s t")
  case (TG_cas h r)
  show ?thesis
  proof (cases "fl_refs s h = r")
    case True
    then show ?thesis using inv_cas [OF inv t TG_cas True] TG_cas by auto
  next
    case False
    then show ?thesis using fl_inv_silent [OF inv t, of TG_load] TG_cas by auto
  qed
next
  case (TG_swing h nx)
  show ?thesis
  proof (cases "fl_head s = Some h")
    case True
    then show ?thesis using inv_swing [OF inv t TG_swing True] TG_swing by auto
  next
    case False
    then show ?thesis using fl_inv_silent [OF inv t, of "TG_drop1 h (fl_head s)"] TG_swing by auto
  qed
next
  case (TG_drop2 h)
  then show ?thesis using inv_drop2 [OF inv t TG_drop2] by auto
next
  case (TG_drop1 h nh)
  then show ?thesis using inv_drop1 [OF inv t TG_drop1 T] by auto
next
  case (FA_set n)
  then show ?thesis using inv_set [OF inv t FA_set T] by auto
next
  case (AK_next n hp k)
  then show ?thesis using inv_set_next [OF inv t AK_next] by auto
next
  case (AK_refs n hp k)
  then show ?thesis using inv_set_refs [OF inv t AK_refs] by auto
next
  case (AK_cas n hp k)
  show ?thesis
  proof (cases "fl_head s = hp")
    case True
    then show ?thesis using inv_push [OF inv t AK_cas True] AK_cas by auto
  next
    case False
    then show ?thesis using fl_inv_silent [OF inv t, of "AK_undo n (fl_head s) k"] AK_cas by auto
  qed
next
  case (AK_undo n hp k)
  then show ?thesis using inv_undo [OF inv t AK_undo T] by auto
next
  case (TG_refs h)
  then show ?thesis
    using fl_inv_silent [OF inv t, of "if fl_refs s h AND REFS_MASK = 0 then TG_load else TG_cas h (fl_refs s h)"] by auto
next
  case TG_load
  then show ?thesis using fl_inv_silent [OF inv t, of "get_loop (fl_head s)"] by (auto simp: continue_harmless)
next
  case (TG_next h)
  then show ?thesis using fl_inv_silent [OF inv t, of "TG_swing h (fl_next s h)"] by auto
next
  case (AK_load n k)
  then show ?thesis using fl_inv_silent [OF inv t, of "AK_next n (fl_head s) k"] by auto
next
  case F_idle
  then show ?thesis using fl_inv_silent [OF inv t, of F_idle] by auto
next
  case (F_got r)
  then show ?thesis using fl_inv_silent [OF inv t, of F_idle] by auto
qed

definition fl_event_ok :: "nat \<Rightarrow> fl_event \<Rightarrow> bool" where
  "fl_event_ok T e = (case e of FL_get t \<Rightarrow> t < T | FL_add t n \<Rightarrow> t < T | FL_step t \<Rightarrow> t < T)"

lemma fl_inv_event:
  assumes inv: "fl_inv T s st fs" and e: "fl_event_ok T e" and T: "int T < 2 ^ 31 - 1"
  shows "fl_ok T (fl_event_step e s)"
proof (cases e)
  case (FL_get t)
  then show ?thesis using fl_inv_silent [of T s st fs t TG_load] inv e by (auto simp: fl_event_ok_def)
next
  case (FL_add t n)
  then show ?thesis using inv_add [OF inv, of t n] inv e by (auto simp: fl_event_ok_def)
next
  case (FL_step t)
  then show ?thesis using fl_inv_step [OF inv _ T, of t] e by (simp add: fl_event_ok_def)
qed

lemma fl_inv_run:
  assumes "int T < 2 ^ 31 - 1" "list_all (fl_event_ok T) es"
  shows "fl_ok T (run fl_event_step es (fl_init nx))"
proof (rule run_invariant_on [where P = "fl_event_ok T"])
  have "fl_inv T (fl_init nx) (\<lambda>_. Out) []"
    by (simp add: fl_inv_def refs_ok_def chain_ok_def roles_ok_def fl_init_def holders_def)
  then show "fl_ok T (fl_init nx)" ..
next
  fix l s assume "fl_ok T s" "fl_event_ok T l"
  then show "fl_ok T (fl_event_step l s)" using fl_inv_event assms(1) unfolding fl_ok_def by blast
qed (rule assms(2))

section \<open>Properties\<close>

text \<open>
  C13. The lock-free free list never hands out a node twice: in every interleaving of \<open>add\<close> and
  \<open>try_get\<close> by fewer than \<open>2 ^ 31 - 1\<close> threads a node is in the hands of at most one user, the
  list is a chain without repetition, no node is on it and in use at the same time, and the
  assertion of \<open>try_get\<close> on a node it has taken holds.
\<close>

theorem free_list_exclusive:
  assumes "int T < 2 ^ 31 - 1" and "list_all (fl_event_ok T) es" and "s = run fl_event_step es (fl_init nx)"
  shows "\<exists>fs. free_chain (fl_next s) (fl_head s) fs \<and> distinct fs \<and>
    (\<forall>n. out s n = 0 \<or> out s n = 1 \<and> n \<notin> set fs) \<and>
    (\<forall>t h. fl_pcs s t = TG_drop2 h \<longrightarrow> fl_refs s h AND SHOULD_BE_ON_FREELIST = 0)"
proof -
  obtain st fs where inv: "fl_inv T s st fs" using fl_inv_run [OF assms(1,2)] assms(3) unfolding fl_ok_def by blast
  note D = fl_invD [OF inv]
  have "out s n = 0 \<or> out s n = 1 \<and> n \<notin> set fs" for n using D(2) D(6) [of n] by (auto simp: chain_ok_def)
  moreover have "fl_refs s h AND SHOULD_BE_ON_FREELIST = 0" if "fl_pcs s t = TG_drop2 h" for t h
    by (rule taken_flag [OF D(1) assms(1)]) (use roles_okD(1) [OF D(3), of t h] that in simp)
  ultimately show ?thesis using D(2) unfolding chain_ok_def by blast
qed

definition fl_sample :: "fl_event list" where
  "fl_sample = FL_add 0 3 # replicate 5 (FL_step 0) @ FL_get 1 # replicate 6 (FL_step 1)"

theorem free_list_exclusive_witness:
  "int 2 < 2 ^ 31 - 1 \<and> list_all (fl_event_ok 2) fl_sample \<and>
   (\<exists>fs. free_chain (fl_next (run fl_event_step fl_sample (fl_init (\<lambda>_. None))))
      (fl_head (run fl_event_step fl_sample (fl_init (\<lambda>_. None)))) fs \<and> distinct fs)"
  using free_list_exclusive [of 2 fl_sample _ "\<lambda>_. None", OF _ _ refl] by (auto simp: fl_sample_def fl_event_ok_def list_all_iff)

text \<open>
  No node is lost: when no thread is inside an operation, every node is in use or on the
  list.
\<close>

theorem free_list_complete:
  assumes "int T < 2 ^ 31 - 1" and "list_all (fl_event_ok T) es" and "s = run fl_event_step es (fl_init nx)"
    and "fl_pcs s = (\<lambda>_. F_idle)"
  shows "\<exists>fs. free_chain (fl_next s) (fl_head s) fs \<and> (\<forall>n. out s n = 1 \<or> n \<in> set fs)"
proof -
  obtain st fs where inv: "fl_inv T s st fs" using fl_inv_run [OF assms(1,2)] assms(3) unfolding fl_ok_def by blast
  note D = fl_invD [OF inv]
  have "responsible (st n) = None" for n using roles_okD(2) [OF D(3), of n] assms(4) by (cases "responsible (st n)") auto
  moreover have "st n \<noteq> Limbo" for n using refs_okD(2) [OF D(1), of n] assms(4) by (auto simp: holders_def)
  ultimately have "st n = Out \<or> st n = Listed" for n by (cases "st n") (metis option.distinct(1) responsible.simps)+
  then show ?thesis using D(2) D(6) unfolding chain_ok_def by metis
qed

theorem free_list_complete_witness:
  "(\<exists>fs. free_chain (fl_next (run fl_event_step (FL_add 0 3 # replicate 5 (FL_step 0)) (fl_init (\<lambda>_. None))))
      (fl_head (run fl_event_step (FL_add 0 3 # replicate 5 (FL_step 0)) (fl_init (\<lambda>_. None)))) fs \<and>
    (\<forall>n. out (run fl_event_step (FL_add 0 3 # replicate 5 (FL_step 0)) (fl_init (\<lambda>_. None))) n = 1 \<or> n \<in> set fs))"
  by (rule free_list_complete [of 1, OF _ _ refl])
    (auto simp: fl_event_ok_def list_all_iff fl_init_def numeral_eq_Suc SHOULD_BE_ON_FREELIST_def fun_eq_iff)

end
