(* ===== verification/SpscQueue.thy ===== *)
theory SpscQueue
  imports RWQueueSpec LightSema
begin

text \<open>
  \<open>BlockingReaderWriterQueue\<close> of \<open>inc/readerwriterqueue.h\<close> on the single-producer
  single-consumer semaphore of \<open>inc/atomicops.h\<close>.  One producer and one consumer interleave; a
  step is one access to the count, one call of the kernel semaphore or one operation of the
  inner queue.  Without other consumers the semaphore needs no compare-and-swap: a count the
  consumer has seen positive stays so until it takes its unit.
\<close>

section \<open>The semaphore\<close>

text \<open>\<open>tryWait\<close>.  As in \<^const>\<open>tryWait_step\<close> the count is an \<^typ>\<open>int\<close>.\<close>

datatype cw_pc = CW_load | CW_sub

fun spsc_tryWait_step :: "cw_pc \<Rightarrow> int \<Rightarrow> (cw_pc, bool) outcome \<times> int" where
  "spsc_tryWait_step CW_load c = (if c > 0 then Goto CW_sub else Done False, c)"
| "spsc_tryWait_step CW_sub c = (Done True, c - 1)"

text \<open>\<open>waitWithPartialSpinning\<close>: \<open>CS_load n\<close> has \<open>n\<close> rounds left.\<close>

datatype cs_pc = CS_load nat | CS_sub | CS_dec | CS_sleep

definition SPSC_SPIN :: nat where
  "SPSC_SPIN = 10000"

fun spsc_waitWithPartialSpinning_step :: "bool \<Rightarrow> cs_pc \<Rightarrow> int \<times> nat \<Rightarrow> (cs_pc, bool) outcome \<times> int \<times> nat" where
  "spsc_waitWithPartialSpinning_step eintr (CS_load spin) (c, k) =
     (case spin of 0 \<Rightarrow> (Goto CS_dec, c, k)
      | Suc n \<Rightarrow> (Goto (if c > 0 then CS_sub else CS_load n), c, k))"
| "spsc_waitWithPartialSpinning_step eintr CS_sub (c, k) = (Done True, c - 1, k)"
| "spsc_waitWithPartialSpinning_step eintr CS_dec (c, k) = (if c \<le> 0 then Goto CS_sleep else Done True, c - 1, k)"
| "spsc_waitWithPartialSpinning_step eintr CS_sleep (c, k) =
     (case Semaphore_wait eintr k of None \<Rightarrow> (Goto CS_sleep, c, k) | Some k' \<Rightarrow> (Done True, c, k'))"

text \<open>
  \<open>signal\<close>: unlike the semaphore for many consumers it posts at most once, as at most one thread
  sleeps.  \<open>SP_post m\<close> is the loop of \<open>Semaphore::signal\<close>.  \<open>None\<close> is a failed assertion.
\<close>

datatype sg_pc = SP_add | SP_post nat

fun spsc_signal_step :: "int \<Rightarrow> sg_pc \<Rightarrow> int \<times> nat \<Rightarrow> ((sg_pc, unit) outcome \<times> int \<times> nat) option" where
  "spsc_signal_step n SP_add (c, k) =
     (if n < 0 \<or> c < -1 then None
      else Some (if c < 0 then Goto (SP_post 1) else Done (), c + n, k))"
| "spsc_signal_step n (SP_post m) (c, k) =
     Some (case m of 0 \<Rightarrow> (Done (), c, k) | Suc j \<Rightarrow> (Goto (SP_post j), c, Semaphore_signal k))"

definition spsc_availableApprox :: "int \<Rightarrow> int" where
  "spsc_availableApprox c = (if c > 0 then c else 0)"

section \<open>The queue\<close>

text \<open>
  Where the producer and the consumer are; \<open>wait_dequeue\<close> and \<open>try_dequeue\<close> end with the inner
  \<open>try_dequeue\<close>, \<open>pop\<close> with the inner \<open>pop\<close>.  A failed assertion stops the thread.
\<close>

datatype taker = By_dequeue | By_pop

datatype ppc = P_idle | P_signal sg_pc | P_abort

datatype cpc = C_idle | C_try taker cw_pc | C_wait cw_pc | C_spin cs_pc | C_take taker | C_abort

text \<open>
  \<open>sent\<close> records the elements enqueued, \<open>taken_off\<close> for each element removed what the caller got:
  the element from a dequeue, nothing from \<open>pop\<close>.
\<close>

record ('q, 'a) spscq =
  sq_inner :: 'q
  sq_count :: int
  sq_sema :: nat
  prod_pc :: ppc
  cons_pc :: cpc
  sent :: "'a list"
  taken_off :: "'a option list"

definition sq_new :: "'q \<Rightarrow> ('q, 'a) spscq" where
  "sq_new q = \<lparr>sq_inner = q, sq_count = 0, sq_sema = 0, prod_pc = P_idle, cons_pc = C_idle, sent = [], taken_off = []\<rparr>"

text \<open>\<open>enqueue\<close> and \<open>try_enqueue\<close> up to the signal; \<open>enq\<close> is the inner operation.\<close>

definition sq_enqueue :: "('a \<Rightarrow> 'q \<Rightarrow> (bool \<times> 'q) option) \<Rightarrow> 'a \<Rightarrow> ('q, 'a) spscq \<Rightarrow> ('q, 'a) spscq" where
  "sq_enqueue enq x s = (case enq x (sq_inner s) of
     None \<Rightarrow> s\<lparr>prod_pc := P_abort\<rparr>
   | Some (True, q) \<Rightarrow> s\<lparr>sq_inner := q, sent := sent s @ [x], prod_pc := P_signal SP_add\<rparr>
   | Some (False, q) \<Rightarrow> s\<lparr>sq_inner := q\<rparr>)"

definition sq_producer_step :: "('q, 'a) spscq \<Rightarrow> ('q, 'a) spscq" where
  "sq_producer_step s = (case prod_pc s of
     P_signal p \<Rightarrow> (case spsc_signal_step 1 p (sq_count s, sq_sema s) of
         None \<Rightarrow> s\<lparr>prod_pc := P_abort\<rparr>
       | Some (Goto p', c, k) \<Rightarrow> s\<lparr>prod_pc := P_signal p', sq_count := c, sq_sema := k\<rparr>
       | Some (Done _, c, k) \<Rightarrow> s\<lparr>prod_pc := P_idle, sq_count := c, sq_sema := k\<rparr>)
   | _ \<Rightarrow> s)"

text \<open>The inner operation after a unit was taken, with the assertion that it succeeds.\<close>

definition sq_take :: "('q \<Rightarrow> ('a option \<times> 'q) option) \<Rightarrow> ('q \<Rightarrow> (bool \<times> 'q) option) \<Rightarrow> taker \<Rightarrow>
    ('q, 'a) spscq \<Rightarrow> ('q, 'a) spscq" where
  "sq_take deq pop w s = (case w of
     By_dequeue \<Rightarrow> (case deq (sq_inner s) of
         Some (Some x, q) \<Rightarrow> s\<lparr>sq_inner := q, cons_pc := C_idle, taken_off := taken_off s @ [Some x]\<rparr>
       | _ \<Rightarrow> s\<lparr>cons_pc := C_abort\<rparr>)
   | By_pop \<Rightarrow> (case pop (sq_inner s) of
         Some (True, q) \<Rightarrow> s\<lparr>sq_inner := q, cons_pc := C_idle, taken_off := taken_off s @ [None]\<rparr>
       | _ \<Rightarrow> s\<lparr>cons_pc := C_abort\<rparr>))"

definition sq_consumer_step :: "('q \<Rightarrow> ('a option \<times> 'q) option) \<Rightarrow> ('q \<Rightarrow> (bool \<times> 'q) option) \<Rightarrow> bool \<Rightarrow>
    ('q, 'a) spscq \<Rightarrow> ('q, 'a) spscq" where
  "sq_consumer_step deq pop eintr s = (case cons_pc s of
     C_try w p \<Rightarrow> (case spsc_tryWait_step p (sq_count s) of
         (Goto p', c) \<Rightarrow> s\<lparr>cons_pc := C_try w p', sq_count := c\<rparr>
       | (Done ok, c) \<Rightarrow> s\<lparr>cons_pc := if ok then C_take w else C_idle, sq_count := c\<rparr>)
   | C_wait p \<Rightarrow> (case spsc_tryWait_step p (sq_count s) of
         (Goto p', c) \<Rightarrow> s\<lparr>cons_pc := C_wait p', sq_count := c\<rparr>
       | (Done ok, c) \<Rightarrow> s\<lparr>cons_pc := if ok then C_take By_dequeue else C_spin (CS_load SPSC_SPIN), sq_count := c\<rparr>)
   | C_spin p \<Rightarrow> (case spsc_waitWithPartialSpinning_step eintr p (sq_count s, sq_sema s) of
         (Goto p', c, k) \<Rightarrow> s\<lparr>cons_pc := C_spin p', sq_count := c, sq_sema := k\<rparr>
       | (Done _, c, k) \<Rightarrow> s\<lparr>cons_pc := C_take By_dequeue, sq_count := c, sq_sema := k\<rparr>)
   | C_take w \<Rightarrow> sq_take deq pop w s
   | _ \<Rightarrow> s)"

text \<open>\<open>peek\<close> goes to the inner queue past the semaphore.\<close>

definition sq_peek :: "('q \<Rightarrow> ('a option \<times> 'q) option) \<Rightarrow> ('q, 'a) spscq \<Rightarrow> ('q, 'a) spscq" where
  "sq_peek peek s = (case peek (sq_inner s) of None \<Rightarrow> s\<lparr>cons_pc := C_abort\<rparr> | Some (_, q) \<Rightarrow> s\<lparr>sq_inner := q\<rparr>)"

definition sq_size_approx :: "('q, 'a) spscq \<Rightarrow> c_size" where
  "sq_size_approx s = of_int (spsc_availableApprox (sq_count s))"

datatype ('e, 'a) sq_event =
    S_enqueue 'e 'a | S_try_dequeue | S_wait_dequeue | S_pop | S_peek | S_produce | S_consume bool

fun sq_event_step :: "('e \<Rightarrow> 'a \<Rightarrow> 'q \<Rightarrow> (bool \<times> 'q) option) \<Rightarrow> ('q \<Rightarrow> ('a option \<times> 'q) option) \<Rightarrow>
    ('q \<Rightarrow> (bool \<times> 'q) option) \<Rightarrow> ('q \<Rightarrow> ('a option \<times> 'q) option) \<Rightarrow>
    ('e, 'a) sq_event \<Rightarrow> ('q, 'a) spscq \<Rightarrow> ('q, 'a) spscq" where
  "sq_event_step enq deq pop peek (S_enqueue e x) s = (if prod_pc s = P_idle then sq_enqueue (enq e) x s else s)"
| "sq_event_step enq deq pop peek S_try_dequeue s =
     (if cons_pc s = C_idle then s\<lparr>cons_pc := C_try By_dequeue CW_load\<rparr> else s)"
| "sq_event_step enq deq pop peek S_wait_dequeue s = (if cons_pc s = C_idle then s\<lparr>cons_pc := C_wait CW_load\<rparr> else s)"
| "sq_event_step enq deq pop peek S_pop s = (if cons_pc s = C_idle then s\<lparr>cons_pc := C_try By_pop CW_load\<rparr> else s)"
| "sq_event_step enq deq pop peek S_peek s = (if cons_pc s = C_idle then sq_peek peek s else s)"
| "sq_event_step enq deq pop peek S_produce s = sq_producer_step s"
| "sq_event_step enq deq pop peek (S_consume eintr) s = sq_consumer_step deq pop eintr s"

section \<open>Units\<close>

text \<open>
  The count: one unit per element in the queue, less the one the consumer has taken, less the
  one the producer has still to add; one less while the consumer sleeps.  The sleeper is woken
  by a post that is done or owed unless the count says nobody came.
\<close>

fun unsignalled :: "ppc \<Rightarrow> int" where
  "unsignalled (P_signal SP_add) = 1" | "unsignalled _ = 0"

fun owes :: "ppc \<Rightarrow> int" where
  "owes (P_signal (SP_post m)) = int m" | "owes _ = 0"

fun sleeping :: "cpc \<Rightarrow> int" where
  "sleeping (C_spin CS_sleep) = 1" | "sleeping _ = 0"

fun has_unit :: "cpc \<Rightarrow> int" where
  "has_unit (C_take w) = 1" | "has_unit _ = 0"

fun needs_positive :: "cpc \<Rightarrow> bool" where
  "needs_positive (C_try w CW_sub) = True" | "needs_positive (C_wait CW_sub) = True"
| "needs_positive (C_spin CS_sub) = True" | "needs_positive _ = False"

text \<open>Inside \<open>wait_dequeue\<close>, and how many steps of the consumer end it once there is an element.\<close>

fun waiting :: "cpc \<Rightarrow> bool" where
  "waiting (C_wait p) = True" | "waiting (C_spin p) = True" | "waiting (C_take w) = (w = By_dequeue)" | "waiting _ = False"

fun steps_left :: "cpc \<Rightarrow> nat" where
  "steps_left (C_wait CW_load) = 3" | "steps_left (C_spin (CS_load n)) = 3"
| "steps_left (C_take w) = 1" | "steps_left _ = 2"

section \<open>The interface of the inner queue\<close>

text \<open>A first-in first-out list \<open>xs\<close>; the laws of each operation on it.\<close>

locale fifo_queue =
  fixes rep :: "'q \<Rightarrow> 'a list \<Rightarrow> bool"
    and enq :: "'e \<Rightarrow> 'a \<Rightarrow> 'q \<Rightarrow> (bool \<times> 'q) option"
    and deq :: "'q \<Rightarrow> ('a option \<times> 'q) option"
    and pop :: "'q \<Rightarrow> (bool \<times> 'q) option"
    and peek :: "'q \<Rightarrow> ('a option \<times> 'q) option"
  assumes enq_law: "rep q xs \<Longrightarrow> \<exists>ok q'. enq e x q = Some (ok, q') \<and> rep q' (if ok then xs @ [x] else xs)"
    and deq_law: "rep q xs \<Longrightarrow> \<exists>q'. deq q = Some (head_opt xs, q') \<and> rep q' (tl xs)"
    and pop_law: "rep q xs \<Longrightarrow> \<exists>q'. pop q = Some (xs \<noteq> [], q') \<and> rep q' (tl xs)"
    and peek_law: "rep q xs \<Longrightarrow> \<exists>q'. peek q = Some (head_opt xs, q') \<and> rep q' xs"
begin

abbreviation sq_step :: "('e, 'a) sq_event \<Rightarrow> ('q, 'a) spscq \<Rightarrow> ('q, 'a) spscq" where
  "sq_step \<equiv> sq_event_step enq deq pop peek"

definition fifo_log :: "('q, 'a) spscq \<Rightarrow> 'a list \<Rightarrow> bool" where
  "fifo_log s xs \<longleftrightarrow> length (taken_off s) \<le> length (sent s) \<and> xs = drop (length (taken_off s)) (sent s) \<and>
     list_all2 (\<lambda>r x. r = None \<or> r = Some x) (taken_off s) (take (length (taken_off s)) (sent s))"

definition sq_inv :: "('q, 'a) spscq \<Rightarrow> 'a list \<Rightarrow> bool" where
  "sq_inv s xs \<longleftrightarrow> rep (sq_inner s) xs \<and> fifo_log s xs \<and> prod_pc s \<noteq> P_abort \<and> cons_pc s \<noteq> C_abort \<and>
     sq_count s + sleeping (cons_pc s) + has_unit (cons_pc s) + unsignalled (prod_pc s) = int (length xs) \<and>
     max 0 (- sq_count s) + int (sq_sema s) + owes (prod_pc s) = sleeping (cons_pc s) \<and>
     (needs_positive (cons_pc s) \<longrightarrow> sq_count s > 0)"

lemma bounds: "0 \<le> owes p" "0 \<le> sleeping r" "sleeping r \<le> 1" "0 \<le> unsignalled p"
  by (cases p rule: owes.cases; cases r rule: sleeping.cases; cases p rule: unsignalled.cases; simp)+

lemma fifo_log_put: "fifo_log s xs \<Longrightarrow> sent s' = sent s @ [x] \<Longrightarrow> taken_off s' = taken_off s \<Longrightarrow> fifo_log s' (xs @ [x])"
  by (simp add: fifo_log_def)

lemma fifo_log_take:
  assumes "fifo_log s (x # xs)" "sent s' = sent s" "taken_off s' = taken_off s @ [r]" "r = None \<or> r = Some x"
  shows "fifo_log s' xs"
proof -
  let ?n = "length (taken_off s)"
  have d: "x # xs = drop ?n (sent s)" using assms(1) by (simp add: fifo_log_def)
  then have n: "?n < length (sent s)" by (metis drop_eq_Nil linorder_not_less list.distinct(1))
  have "sent s ! ?n = x" "xs = drop (Suc ?n) (sent s)" using d n by (metis Cons_nth_drop_Suc list.inject)+
  moreover have "take (Suc ?n) (sent s) = take ?n (sent s) @ [sent s ! ?n]" using n by (rule take_Suc_conv_app_nth)
  ultimately show ?thesis using assms n unfolding fifo_log_def by (auto intro!: list_all2_appendI)
qed

lemma fifo_log_same: "fifo_log s xs \<Longrightarrow> sent s' = sent s \<Longrightarrow> taken_off s' = taken_off s \<Longrightarrow> fifo_log s' xs"
  by (simp add: fifo_log_def)

lemma sq_inv_enqueue:
  assumes inv: "sq_inv s xs" and p: "prod_pc s = P_idle"
  shows "\<exists>xs'. sq_inv (sq_enqueue (enq e) x s) xs'"
proof -
  obtain ok q' where q: "enq e x (sq_inner s) = Some (ok, q')" "rep q' (if ok then xs @ [x] else xs)"
    using enq_law inv unfolding sq_inv_def by blast
  show ?thesis
  proof (cases ok)
    case True
    then have "sq_inv (sq_enqueue (enq e) x s) (xs @ [x])"
      using inv p q fifo_log_put [of s xs _ x] unfolding sq_inv_def by (simp add: sq_enqueue_def)
    then show ?thesis ..
  next
    case False
    then have "sq_inv (sq_enqueue (enq e) x s) xs"
      using inv p q fifo_log_same [of s xs] unfolding sq_inv_def by (simp add: sq_enqueue_def)
    then show ?thesis ..
  qed
qed

lemma sq_inv_produce:
  assumes "sq_inv s xs"
  shows "sq_inv (sq_producer_step s) xs"
proof (cases "prod_pc s")
  case (P_signal p)
  note L = fifo_log_same [of s xs]
  show ?thesis
  proof (cases p)
    case SP_add
    then show ?thesis using assms P_signal L bounds(2,3) [of "cons_pc s"] unfolding sq_inv_def
      by (auto simp: sq_producer_step_def)
  next
    case (SP_post m)
    then show ?thesis using assms P_signal L unfolding sq_inv_def
      by (cases m) (auto simp: sq_producer_step_def Semaphore_signal_def)
  qed
qed (use assms in \<open>simp_all add: sq_producer_step_def\<close>)

lemma taker_finds:
  assumes "sq_inv s xs" "cons_pc s = C_take w"
  obtains y ys where "xs = y # ys"
  using assms bounds(1,4) [of "prod_pc s"] unfolding sq_inv_def by (cases xs) auto

lemma sq_take_law:
  assumes inv: "sq_inv s (y # ys)" and c: "cons_pc s = C_take w"
  shows "\<exists>q'. sq_take deq pop w s = s\<lparr>sq_inner := q', cons_pc := C_idle,
      taken_off := taken_off s @ [case w of By_dequeue \<Rightarrow> Some y | By_pop \<Rightarrow> None]\<rparr> \<and> rep q' ys"
  using deq_law [of "sq_inner s" "y # ys"] pop_law [of "sq_inner s" "y # ys"] inv
  unfolding sq_inv_def by (cases w) (auto simp: sq_take_def)

lemma sq_inv_take:
  assumes inv: "sq_inv s (y # ys)" and c: "cons_pc s = C_take w"
  shows "sq_inv (sq_take deq pop w s) ys"
proof -
  let ?r = "case w of By_dequeue \<Rightarrow> Some y | By_pop \<Rightarrow> None"
  obtain q' where q: "sq_take deq pop w s = s\<lparr>sq_inner := q', cons_pc := C_idle, taken_off := taken_off s @ [?r]\<rparr>" "rep q' ys"
    using sq_take_law [OF assms] by blast
  have "fifo_log (sq_take deq pop w s) ys"
    by (rule fifo_log_take [of s y]) (use inv q in \<open>auto simp: sq_inv_def split: taker.splits\<close>)
  then show ?thesis using inv c q unfolding sq_inv_def by simp
qed

lemma sq_inv_consume:
  assumes inv: "sq_inv s xs"
  shows "\<exists>xs'. sq_inv (sq_consumer_step deq pop b s) xs'"
proof (cases "cons_pc s")
  case (C_take w)
  obtain y ys where "xs = y # ys" using taker_finds [OF inv C_take] .
  then show ?thesis using sq_inv_take [of s y ys w] inv C_take by (auto simp: sq_consumer_step_def)
next
  case (C_try w p)
  then have "sq_inv (sq_consumer_step deq pop b s) xs" using inv fifo_log_same [of s xs]
    by (cases p) (auto simp: sq_consumer_step_def sq_inv_def)
  then show ?thesis ..
next
  case (C_wait p)
  then have "sq_inv (sq_consumer_step deq pop b s) xs" using inv fifo_log_same [of s xs]
    by (cases p) (auto simp: sq_consumer_step_def sq_inv_def)
  then show ?thesis ..
next
  case (C_spin p)
  then have "sq_inv (sq_consumer_step deq pop b s) xs" using inv fifo_log_same [of s xs] bounds(1) [of "prod_pc s"]
    by (cases p) (auto simp: sq_consumer_step_def sq_inv_def Semaphore_wait_def split: nat.splits)
  then show ?thesis ..
qed (use inv in \<open>auto simp: sq_consumer_step_def\<close>)

lemma sq_inv_peek:
  assumes "sq_inv s xs"
  shows "sq_inv (sq_peek peek s) xs"
proof -
  obtain q' where "peek (sq_inner s) = Some (head_opt xs, q')" "rep q' xs"
    using peek_law assms unfolding sq_inv_def by blast
  then show ?thesis using assms fifo_log_same [of s xs] by (simp add: sq_peek_def sq_inv_def)
qed

lemma sq_inv_cons_start:
  assumes "sq_inv s xs" "cons_pc s = C_idle" "sleeping p = 0" "has_unit p = 0" "\<not> needs_positive p" "p \<noteq> C_abort"
  shows "sq_inv (s\<lparr>cons_pc := p\<rparr>) xs"
  using assms fifo_log_same [of s xs] by (simp add: sq_inv_def)

lemma sq_inv_step:
  assumes "\<exists>xs. sq_inv s xs"
  shows "\<exists>xs. sq_inv (sq_step ev s) xs"
proof -
  obtain xs where inv: "sq_inv s xs" using assms ..
  show ?thesis
  proof (cases ev)
    case (S_enqueue e x)
    then show ?thesis using sq_inv_enqueue [OF inv, of e x] inv by auto
  next
    case S_peek
    then show ?thesis using sq_inv_peek [OF inv] inv by auto
  next
    case S_produce
    then show ?thesis using sq_inv_produce [OF inv] by auto
  next
    case (S_consume b)
    then show ?thesis using sq_inv_consume [OF inv, of b] by auto
  next
    case S_try_dequeue
    then show ?thesis using sq_inv_cons_start [OF inv, of "C_try By_dequeue CW_load"] inv by auto
  next
    case S_wait_dequeue
    then show ?thesis using sq_inv_cons_start [OF inv, of "C_wait CW_load"] inv by auto
  next
    case S_pop
    then show ?thesis using sq_inv_cons_start [OF inv, of "C_try By_pop CW_load"] inv by auto
  qed
qed

lemma sq_inv_run:
  assumes "rep q []"
  shows "\<exists>xs. sq_inv (run sq_step evs (sq_new q)) xs"
proof (rule run_invariant [where I = "\<lambda>s. \<exists>xs. sq_inv s xs"])
  have "sq_inv (sq_new q) []" using assms by (simp add: sq_inv_def sq_new_def fifo_log_def)
  then show "\<exists>xs. sq_inv (sq_new q) xs" ..
qed (rule sq_inv_step)

text \<open>What a reachable state shows.\<close>

lemma reachable_facts:
  assumes "rep q []" "s = run sq_step evs (sq_new q)"
  shows "prod_pc s \<noteq> P_abort" "cons_pc s \<noteq> C_abort" "length (taken_off s) \<le> length (sent s)"
    "list_all2 (\<lambda>r x. r = None \<or> r = Some x) (taken_off s) (take (length (taken_off s)) (sent s))"
    "map_option fst (peek (sq_inner s)) = Some (head_opt (drop (length (taken_off s)) (sent s)))"
proof -
  obtain xs where inv: "sq_inv s xs" using sq_inv_run [OF assms(1)] assms(2) by blast
  then show "prod_pc s \<noteq> P_abort" "cons_pc s \<noteq> C_abort" "length (taken_off s) \<le> length (sent s)"
    "list_all2 (\<lambda>r x. r = None \<or> r = Some x) (taken_off s) (take (length (taken_off s)) (sent s))"
    by (simp_all add: sq_inv_def fifo_log_def)
  show "map_option fst (peek (sq_inner s)) = Some (head_opt (drop (length (taken_off s)) (sent s)))"
    using peek_law [of "sq_inner s" xs] inv unfolding sq_inv_def fifo_log_def by auto
qed

lemma sleeper_has_nothing:
  assumes "rep q []" "s = run sq_step evs (sq_new q)" "cons_pc s = C_spin CS_sleep" "sq_sema s = 0" "prod_pc s = P_idle"
  shows "length (taken_off s) = length (sent s)"
proof -
  obtain xs where inv: "sq_inv s xs" using sq_inv_run [OF assms(1)] assms(2) by blast
  then have "sq_count s + 1 = int (length xs)" "max 0 (- sq_count s) = 1" using assms(3-5) by (simp_all add: sq_inv_def)
  then have "length xs = 0" by linarith
  then show ?thesis using inv by (auto simp: sq_inv_def fifo_log_def)
qed

lemma take_one:
  assumes "sq_inv s (y # ys)" "cons_pc s = C_take By_dequeue"
  shows "cons_pc (sq_consumer_step deq pop b s) = C_idle \<and>
    taken_off (sq_consumer_step deq pop b s) = taken_off s @ [Some y]"
  using sq_take_law [OF assms] assms(2) by (auto simp: sq_consumer_step_def)

text \<open>With an element in the queue and its unit added, every step of the consumer brings it closer.\<close>

lemma wait_closer:
  assumes inv: "sq_inv s (y # ys)" and p: "prod_pc s = P_idle" and w: "waiting (cons_pc s)"
    and left: "steps_left (cons_pc s) = Suc (Suc n)"
  shows "sq_inv (sq_consumer_step deq pop False s) (y # ys) \<and> prod_pc (sq_consumer_step deq pop False s) = P_idle \<and>
    waiting (cons_pc (sq_consumer_step deq pop False s)) \<and>
    steps_left (cons_pc (sq_consumer_step deq pop False s)) = Suc n \<and>
    taken_off (sq_consumer_step deq pop False s) = taken_off s"
proof (cases "cons_pc s")
  case (C_wait q)
  then show ?thesis using inv p left fifo_log_same [of s "y # ys"]
    by (cases q) (auto simp: sq_consumer_step_def sq_inv_def)
next
  case (C_spin q)
  show ?thesis
  proof (cases "q = CS_sleep")
    case True
    then have "sq_sema s = 1" using inv p C_spin by (auto simp: sq_inv_def)
    then show ?thesis using inv p C_spin True left fifo_log_same [of s "y # ys"]
      by (auto simp: sq_consumer_step_def sq_inv_def Semaphore_wait_def)
  next
    case False
    then have "0 < sq_count s" using inv p C_spin by (cases q) (auto simp: sq_inv_def)
    then show ?thesis using inv p C_spin False left fifo_log_same [of s "y # ys"]
      by (cases q) (auto simp: sq_consumer_step_def sq_inv_def split: nat.splits)
  qed
qed (use w left in auto)

lemma wait_done:
  assumes "sq_inv s (y # ys)" "prod_pc s = P_idle" "waiting (cons_pc s)" "steps_left (cons_pc s) = Suc n"
  shows "cons_pc (run sq_step (replicate (Suc n) (S_consume False)) s) = C_idle \<and>
    taken_off (run sq_step (replicate (Suc n) (S_consume False)) s) = taken_off s @ [Some y]"
  using assms
proof (induction n arbitrary: s)
  case 0
  then obtain w where "cons_pc s = C_take w" by (cases "cons_pc s" rule: steps_left.cases) auto
  then show ?case using take_one [of s y ys False] 0 by simp
next
  case (Suc n)
  note S = wait_closer [OF Suc.prems]
  show ?case using Suc.IH [of "sq_consumer_step deq pop False s"] S by simp
qed

lemma steps_left_range: "waiting p \<Longrightarrow> \<exists>n<3. steps_left p = Suc n"
  by (cases p rule: steps_left.cases) auto

lemma waiter_served:
  assumes "rep q []" "s = run sq_step evs (sq_new q)" "waiting (cons_pc s)" "prod_pc s = P_idle"
    "length (taken_off s) < length (sent s)"
  shows "\<exists>n\<le>3. cons_pc (run sq_step (replicate n (S_consume False)) s) = C_idle \<and>
    taken_off (run sq_step (replicate n (S_consume False)) s) = taken_off s @ [Some (sent s ! length (taken_off s))]"
proof -
  obtain xs where inv: "sq_inv s xs" using sq_inv_run [OF assms(1)] assms(2) by blast
  then have "xs = sent s ! length (taken_off s) # drop (Suc (length (taken_off s))) (sent s)"
    using assms(5) by (simp add: sq_inv_def fifo_log_def Cons_nth_drop_Suc)
  moreover obtain n where n: "n < 3" "steps_left (cons_pc s) = Suc n" using steps_left_range [OF assms(3)] by blast
  ultimately show ?thesis using wait_done [of s _ _ n] inv assms(3,4) n(1) by (intro exI [of _ "Suc n"]) auto
qed

end

section \<open>On the reader-writer queue\<close>

text \<open>
  The inner enqueue: \<open>try_enqueue\<close>, or \<open>enqueue\<close> with what \<open>malloc\<close> gives it.
\<close>

definition rwq_either_enqueue :: "(c_size \<Rightarrow> 'a) option option \<Rightarrow> 'a \<Rightarrow> 'a rwq \<Rightarrow> (bool \<times> 'a rwq) option" where
  "rwq_either_enqueue e x q = (case e of None \<Rightarrow> rwq_try_enqueue x q | Some mem \<Rightarrow> rwq_enqueue mem x q)"

interpretation rwfifo: fifo_queue rwq_rep rwq_either_enqueue rwq_try_dequeue rwq_pop rwq_peek
proof
  fix q :: "'a rwq" and xs e x
  assume r: "rwq_rep q xs"
  show "\<exists>ok q'. rwq_either_enqueue e x q = Some (ok, q') \<and> rwq_rep q' (if ok then xs @ [x] else xs)"
  proof (cases e)
    case None
    then show ?thesis using inner_enqueue_rep [OF r, of CannotAlloc None x]
      by (auto simp: rwq_either_enqueue_def rwq_try_enqueue_def split: if_splits)
  next
    case (Some mem)
    then show ?thesis using inner_enqueue_rep [OF r, of CanAlloc mem x]
      by (auto simp: rwq_either_enqueue_def rwq_enqueue_def split: if_splits)
  qed
  show "\<exists>q'. rwq_try_dequeue q = Some (head_opt xs, q') \<and> rwq_rep q' (tl xs)"
    using try_dequeue_rep [OF r] by (simp add: head_opt_alt)
  show "\<exists>q'. rwq_pop q = Some (xs \<noteq> [], q') \<and> rwq_rep q' (tl xs)"
    using try_dequeue_rep [OF r] by (auto simp: pop_as_dequeue)
  show "\<exists>q'. rwq_peek q = Some (head_opt xs, q') \<and> rwq_rep q' xs"
    using peek_rep [OF r] by (simp add: head_opt_alt)
qed

abbreviation brw_step :: "((c_size \<Rightarrow> 'a) option option, 'a) sq_event \<Rightarrow> ('a rwq, 'a) spscq \<Rightarrow> ('a rwq, 'a) spscq" where
  "brw_step \<equiv> sq_event_step rwq_either_enqueue rwq_try_dequeue rwq_pop rwq_peek"

text \<open>The constructor: the semaphore starts at 0.\<close>

definition brw_new :: "(nat \<Rightarrow> (c_size \<Rightarrow> 'a) option) \<Rightarrow> c_size \<Rightarrow> ('a rwq, 'a) spscq option" where
  "brw_new mem maxSize = map_option sq_new (rwq_new mem maxSize)"

lemma brw_newE:
  assumes "\<forall>i. mem i \<noteq> None" "0 < maxSize" "maxSize < 2 ^ 63" "brw_new mem maxSize = Some b"
  obtains q where "rwq_rep q []" "b = sq_new q"
  using rwq_new_rep [OF assms(1-3)] assms(4) that by (auto simp: brw_new_def)

text \<open>Sample runs: a consumer that spins to the end and sleeps, and an enqueue that gets its memory.\<close>

lemma brw_spin_run:
  assumes "sq_count s = 0" "cons_pc s = C_spin (CS_load n)"
  shows "run brw_step (replicate n (S_consume False)) s = s\<lparr>cons_pc := C_spin (CS_load 0)\<rparr>"
  using assms
proof (induction n arbitrary: s)
  case (Suc n)
  have "sq_consumer_step rwq_try_dequeue rwq_pop False s = s\<lparr>cons_pc := C_spin (CS_load n)\<rparr>"
    using Suc.prems by (cases s) (simp add: sq_consumer_step_def)
  then show ?case using Suc.IH [of "s\<lparr>cons_pc := C_spin (CS_load n)\<rparr>"] Suc.prems by simp
qed simp

definition brw_sleep_run :: "((c_size \<Rightarrow> 'a) option option, 'a) sq_event list" where
  "brw_sleep_run = [S_wait_dequeue, S_consume False] @ replicate SPSC_SPIN (S_consume False) @ [S_consume False, S_consume False]"

lemma brw_sleep_run_state:
  "run brw_step brw_sleep_run (sq_new q) = (sq_new q)\<lparr>sq_count := -1, cons_pc := C_spin CS_sleep\<rparr>"
proof -
  have "run brw_step [S_wait_dequeue, S_consume False] (sq_new q) = (sq_new q)\<lparr>cons_pc := C_spin (CS_load SPSC_SPIN)\<rparr>"
    by (simp add: sq_new_def sq_consumer_step_def)
  then show ?thesis unfolding brw_sleep_run_def run_append
    by (simp add: brw_spin_run sq_consumer_step_def sq_new_def)
qed

lemma brw_new_sample: "\<exists>q. brw_new (\<lambda>_. Some (\<lambda>_. 0 :: int)) 1 = Some (sq_new q) \<and> rwq_rep q []"
  using rwq_new_rep [of "\<lambda>_. Some (\<lambda>_. 0 :: int)" 1] by (auto simp: brw_new_def)

lemma brw_enqueue_run:
  assumes "rwq_rep q []"
  shows "\<exists>q'. run brw_step [S_enqueue (Some (Some r)) x, S_produce, S_wait_dequeue] (sq_new q) =
    (sq_new q')\<lparr>sq_count := 1, sent := [x], cons_pc := C_wait CW_load\<rparr>"
proof -
  obtain q' where "rwq_enqueue (Some r) x q = Some (True, q')"
    using inner_enqueue_rep [OF assms, of CanAlloc "Some r" x] by (auto simp: rwq_enqueue_def)
  then show ?thesis
    by (intro exI [of _ q']) (simp add: sq_new_def sq_enqueue_def rwq_either_enqueue_def sq_producer_step_def)
qed

section \<open>Properties\<close>

text \<open>
  C15. \<open>BlockingReaderWriterQueue\<close> delivers in order: in every interleaving of one producer and
  one consumer, with interrupted system calls and failing allocations, no assertion fails, the
  elements taken off are a prefix of those enqueued in the same order, each dequeue returns
  the element at its place, and \<open>peek\<close> shows the next one.
\<close>

theorem blocking_rw_queue_fifo:
  assumes "\<forall>i. mem i \<noteq> None" and "0 < maxSize" and "maxSize < 2 ^ 63" and "brw_new mem maxSize = Some b"
    and "s = run brw_step evs b"
  shows "prod_pc s \<noteq> P_abort \<and> cons_pc s \<noteq> C_abort \<and> length (taken_off s) \<le> length (sent s) \<and>
    list_all2 (\<lambda>r x. r = None \<or> r = Some x) (taken_off s) (take (length (taken_off s)) (sent s)) \<and>
    map_option fst (rwq_peek (sq_inner s)) = Some (head_opt (drop (length (taken_off s)) (sent s)))"
proof -
  obtain q where "rwq_rep q []" "b = sq_new q" using brw_newE [OF assms(1-4)] .
  then show ?thesis using rwfifo.reachable_facts [of q s evs] assms(5) by blast
qed

theorem blocking_rw_queue_fifo_witness:
  "\<exists>b s. brw_new (\<lambda>_. Some (\<lambda>_. 0 :: int)) 1 = Some b \<and>
     s = run brw_step [S_enqueue None 5, S_produce, S_wait_dequeue, S_enqueue (Some None) 6, S_consume True, S_consume False] b \<and>
     prod_pc s \<noteq> P_abort \<and> cons_pc s \<noteq> C_abort \<and> length (taken_off s) \<le> length (sent s)"
proof -
  obtain q where q: "brw_new (\<lambda>_. Some (\<lambda>_. 0 :: int)) 1 = Some (sq_new q)" using brw_new_sample by blast
  have "\<forall>i :: nat. Some (\<lambda>_ :: c_size. 0 :: int) \<noteq> None" "(0 :: c_size) < 1" "(1 :: c_size) < 2 ^ 63" by simp_all
  from blocking_rw_queue_fifo [OF this q refl] q show ?thesis by blast
qed

text \<open>
  A consumer that sleeps in \<open>wait_dequeue\<close> with nothing posted, while the producer is in no
  operation, has taken everything that was enqueued: no wake-up is lost.
\<close>

theorem blocking_rw_queue_no_lost_wakeup:
  assumes "\<forall>i. mem i \<noteq> None" and "0 < maxSize" and "maxSize < 2 ^ 63" and "brw_new mem maxSize = Some b"
    and "s = run brw_step evs b" and "cons_pc s = C_spin CS_sleep" and "sq_sema s = 0" and "prod_pc s = P_idle"
  shows "length (taken_off s) = length (sent s)"
proof -
  obtain q where "rwq_rep q []" "b = sq_new q" using brw_newE [OF assms(1-4)] .
  then show ?thesis using rwfifo.sleeper_has_nothing [of q s evs] assms(5-8) by blast
qed

theorem blocking_rw_queue_no_lost_wakeup_witness:
  "\<exists>b s. brw_new (\<lambda>_. Some (\<lambda>_. 0 :: int)) 1 = Some b \<and> s = run brw_step brw_sleep_run b \<and>
     cons_pc s = C_spin CS_sleep \<and> sq_sema s = 0 \<and> prod_pc s = P_idle \<and> length (taken_off s) = length (sent s)"
proof -
  obtain q where q: "brw_new (\<lambda>_. Some (\<lambda>_. 0 :: int)) 1 = Some (sq_new q)" using brw_new_sample by blast
  let ?s = "run brw_step brw_sleep_run (sq_new q)"
  have s: "cons_pc ?s = C_spin CS_sleep" "sq_sema ?s = 0" "prod_pc ?s = P_idle"
    unfolding brw_sleep_run_state by (simp_all add: sq_new_def)
  have "length (taken_off ?s) = length (sent ?s)"
    by (rule blocking_rw_queue_no_lost_wakeup [OF _ _ _ q refl s]) simp_all
  then show ?thesis using q s by blast
qed

text \<open>
  C25. \<open>wait_dequeue\<close> makes progress: when the producer has finished an enqueue and an element
  is there, a consumer anywhere inside \<open>wait_dequeue\<close>, asleep or not, returns the next element
  after at most three of its own steps.
\<close>

theorem wait_dequeue_progress:
  assumes "\<forall>i. mem i \<noteq> None" and "0 < maxSize" and "maxSize < 2 ^ 63" and "brw_new mem maxSize = Some b"
    and "s = run brw_step evs b" and "waiting (cons_pc s)" and "prod_pc s = P_idle"
    and "length (taken_off s) < length (sent s)"
  shows "\<exists>n\<le>3. cons_pc (run brw_step (replicate n (S_consume False)) s) = C_idle \<and>
    taken_off (run brw_step (replicate n (S_consume False)) s) = taken_off s @ [Some (sent s ! length (taken_off s))]"
proof -
  obtain q where "rwq_rep q []" "b = sq_new q" using brw_newE [OF assms(1-4)] .
  then show ?thesis using rwfifo.waiter_served [of q s evs] assms(5-8) by blast
qed

theorem wait_dequeue_progress_witness:
  "\<exists>b s. brw_new (\<lambda>_. Some (\<lambda>_. 0 :: int)) 1 = Some b \<and>
     s = run brw_step [S_enqueue (Some (Some (\<lambda>_. 0))) 5, S_produce, S_wait_dequeue] b \<and> waiting (cons_pc s) \<and>
     (\<exists>n\<le>3. taken_off (run brw_step (replicate n (S_consume False)) s) = [Some 5])"
proof -
  obtain q where q: "brw_new (\<lambda>_. Some (\<lambda>_. 0 :: int)) 1 = Some (sq_new q)" "rwq_rep q []" using brw_new_sample by blast
  let ?s = "run brw_step [S_enqueue (Some (Some (\<lambda>_. 0))) 5, S_produce, S_wait_dequeue] (sq_new q)"
  obtain q' where q': "?s = (sq_new q')\<lparr>sq_count := 1, sent := [5], cons_pc := C_wait CW_load\<rparr>"
    using brw_enqueue_run [OF q(2)] by blast
  have s: "waiting (cons_pc ?s)" "prod_pc ?s = P_idle" "length (taken_off ?s) < length (sent ?s)"
    "taken_off ?s = []" "sent ?s = [5]" unfolding q' by (simp_all add: sq_new_def)
  have "\<exists>n\<le>3. cons_pc (run brw_step (replicate n (S_consume False)) ?s) = C_idle \<and>
      taken_off (run brw_step (replicate n (S_consume False)) ?s) = taken_off ?s @ [Some (sent ?s ! length (taken_off ?s))]"
    by (rule wait_dequeue_progress [OF _ _ _ q(1) refl s(1-3)]) simp_all
  then have "\<exists>n\<le>3. taken_off (run brw_step (replicate n (S_consume False)) ?s) = [Some 5]" unfolding s(4,5) by auto
  then show ?thesis using q(1) s(1) by blast
qed

end
