(* ===== verification/LFBarrier.thy ===== *)
theory LFBarrier
  imports HBarrier
begin

text \<open>
  The lock-free barrier of \<open>inc/strategy.h\<close>, built with \<open>LOCKFREE_BARRIER\<close> in place of
  \<open>BLOCKED_BARRIER\<close>: the threads of a round wait by yielding until the round has changed.  It
  uses the same \<open>hthread_barrier_t\<close>.
\<close>

section \<open>Operations\<close>

text \<open>
  Program points with the locals \<open>cur_round\<close> and \<open>cur_waiter\<close>.  The last component of a step
  says whether it prints \<open>should not run to here\<close>.
\<close>

datatype lfb_pc = LB_round | LB_add c_uint | LB_spin c_uint | LB_check c_uint | LB_cas c_uint | LB_next

fun lf_barrier_wait_step :: "lfb_pc \<Rightarrow> 'q hthread_barrier \<Rightarrow> lfb_pc action \<times> 'q hthread_barrier \<times> bool" where
  "lf_barrier_wait_step LB_round b = (Go (LB_add (cur_round b)), b, False)"
| "lf_barrier_wait_step (LB_add r) b =
     (case sync_add_and_fetch (cur_waiters b) 1 of (cw, m) \<Rightarrow>
        (Go (if cw \<noteq> waiters b then LB_spin r else LB_cas cw), b\<lparr>cur_waiters := m\<rparr>, False))"
| "lf_barrier_wait_step (LB_spin r) b =
     (if r = cur_round b then Yield STATUS_SUSPENDED (LB_spin r) else Go (LB_check r), b, False)"
| "lf_barrier_wait_step (LB_check r) b =
     (if r + 1 = cur_round b then (Return 0, b, False) else (Go (LB_spin r), b, True))"
| "lf_barrier_wait_step (LB_cas cw) b =
     (case sync_bool_compare_and_swap (cur_waiters b) cw 0 of (ok, m) \<Rightarrow>
        (Go LB_next, b\<lparr>cur_waiters := m\<rparr>, \<not> ok))"
| "lf_barrier_wait_step LB_next b =
     (Return PTHREAD_BARRIER_SERIAL_THREAD, b\<lparr>cur_round := snd (sync_add_and_fetch (cur_round b) 1)\<rparr>, False)"

section \<open>A barrier and its participants\<close>

text \<open>
  Threads \<open>0, \<dots>, waiters - 1\<close> call the operation over and over.  \<open>lf_rounds\<close>, \<open>lf_arrived\<close>,
  \<open>lf_left\<close>, \<open>lf_serials\<close> and \<open>complaints\<close> count started rounds, arrivals and returns of a
  thread, serial returns and complaints printed.
\<close>

record 'q lfb_sys =
  lfb :: "'q hthread_barrier"
  lfb_pcs :: "nat \<Rightarrow> lfb_pc option"
  lf_rounds :: nat
  lf_arrived :: "nat \<Rightarrow> nat"
  lf_left :: "nat \<Rightarrow> nat"
  lf_serials :: nat
  complaints :: nat

fun adds :: "lfb_pc \<Rightarrow> bool" where
  "adds (LB_add r) = True" | "adds _ = False"

definition lfb_do :: "nat \<Rightarrow> lfb_pc \<Rightarrow> 'q lfb_sys \<Rightarrow> 'q lfb_sys" where
  "lfb_do t pc s = (case lf_barrier_wait_step pc (lfb s) of (act, hb', bad) \<Rightarrow>
     s\<lparr>lfb := hb', lfb_pcs := (lfb_pcs s)(t := continue_at act),
       lf_rounds := lf_rounds s + of_bool (pc = LB_next),
       lf_arrived := (lf_arrived s)(t := lf_arrived s t + of_bool (adds pc)),
       lf_left := (lf_left s)(t := lf_left s t + of_bool (returns act)),
       lf_serials := lf_serials s + of_bool (act = Return PTHREAD_BARRIER_SERIAL_THREAD),
       complaints := complaints s + of_bool bad\<rparr>)"

fun lfb_step :: "barrier_event \<Rightarrow> 'q lfb_sys \<Rightarrow> 'q lfb_sys" where
  "lfb_step (BarrierWait t) s =
     (if lfb_pcs s t = None \<and> t < unat (waiters (lfb s)) then s\<lparr>lfb_pcs := (lfb_pcs s)(t := Some LB_round)\<rparr> else s)"
| "lfb_step (BarrierStep t) s = (case lfb_pcs s t of None \<Rightarrow> s | Some pc \<Rightarrow> lfb_do t pc s)"

definition lfb_start :: "'q boost_queue \<Rightarrow> c_uint \<Rightarrow> 'q lfb_sys" where
  "lfb_start bq cnt = \<lparr>lfb = snd (pthread_barrier_init bq cnt), lfb_pcs = (\<lambda>_. None), lf_rounds = 0,
     lf_arrived = (\<lambda>_. 0), lf_left = (\<lambda>_. 0), lf_serials = 0, complaints = 0\<rparr>"

section \<open>The invariant\<close>

text \<open>
  Where a thread is in the rounds: \<open>R\<close> rounds are complete, the thread has arrived \<open>a\<close> times and
  left \<open>l\<close> times.
\<close>

fun lf_local :: "c_uint \<Rightarrow> nat \<Rightarrow> nat \<Rightarrow> nat \<Rightarrow> lfb_pc option \<Rightarrow> bool" where
  "lf_local n R a l None = (a = R \<and> l = R)"
| "lf_local n R a l (Some LB_round) = (a = R \<and> l = R)"
| "lf_local n R a l (Some (LB_add r)) = (a = R \<and> l = R \<and> r = of_nat R)"
| "lf_local n R a l (Some (LB_spin r)) = (a = Suc l \<and> r = of_nat l \<and> (l = R \<or> Suc l = R))"
| "lf_local n R a l (Some (LB_check r)) = (a = Suc l \<and> r = of_nat l \<and> Suc l = R)"
| "lf_local n R a l (Some (LB_cas cw)) = (a = Suc R \<and> l = R \<and> cw = n)"
| "lf_local n R a l (Some LB_next) = (a = Suc R \<and> l = R)"

fun lf_closing :: "lfb_pc option \<Rightarrow> bool" where
  "lf_closing (Some (LB_cas cw)) = True" | "lf_closing (Some LB_next) = True" | "lf_closing _ = False"

abbreviation lf_n :: "'q lfb_sys \<Rightarrow> nat" where
  "lf_n s \<equiv> unat (waiters (lfb s))"

text \<open>The threads that have arrived in the current round.\<close>

definition here :: "'q lfb_sys \<Rightarrow> nat set" where
  "here s = {t. t < lf_n s \<and> lf_arrived s t = Suc (lf_rounds s)}"

definition lfb_inv :: "'q lfb_sys \<Rightarrow> bool" where
  "lfb_inv s \<longleftrightarrow> 0 < lf_n s \<and> cur_round (lfb s) = of_nat (lf_rounds s) \<and>
     (\<forall>t<lf_n s. lf_local (waiters (lfb s)) (lf_rounds s) (lf_arrived s t) (lf_left s t) (lfb_pcs s t)) \<and>
     (\<forall>t. lf_n s \<le> t \<longrightarrow> lfb_pcs s t = None) \<and>
     unat (cur_waiters (lfb s)) = (if \<exists>t. lfb_pcs s t = Some LB_next then 0 else card (here s)) \<and>
     ((\<exists>t. lf_closing (lfb_pcs s t)) \<longleftrightarrow> here s = {..<lf_n s}) \<and>
     (\<forall>t u. lf_closing (lfb_pcs s t) \<longrightarrow> lf_closing (lfb_pcs s u) \<longrightarrow> t = u) \<and>
     lf_serials s = lf_rounds s \<and> complaints s = 0"

lemma lfb_invD:
  assumes "lfb_inv s"
  shows "0 < lf_n s" "cur_round (lfb s) = of_nat (lf_rounds s)"
    "\<And>t. t < lf_n s \<Longrightarrow> lf_local (waiters (lfb s)) (lf_rounds s) (lf_arrived s t) (lf_left s t) (lfb_pcs s t)"
    "\<And>t. lf_n s \<le> t \<Longrightarrow> lfb_pcs s t = None"
    "unat (cur_waiters (lfb s)) = (if \<exists>t. lfb_pcs s t = Some LB_next then 0 else card (here s))"
    "(\<exists>t. lf_closing (lfb_pcs s t)) \<longleftrightarrow> here s = {..<lf_n s}"
    "\<And>t u. lf_closing (lfb_pcs s t) \<Longrightarrow> lf_closing (lfb_pcs s u) \<Longrightarrow> t = u"
    "lf_serials s = lf_rounds s" "complaints s = 0"
  using assms unfolding lfb_inv_def by blast+

lemma lfb_invI:
  assumes "0 < lf_n s" "cur_round (lfb s) = of_nat (lf_rounds s)"
    "\<And>t. t < lf_n s \<Longrightarrow> lf_local (waiters (lfb s)) (lf_rounds s) (lf_arrived s t) (lf_left s t) (lfb_pcs s t)"
    "\<And>t. lf_n s \<le> t \<Longrightarrow> lfb_pcs s t = None"
    "unat (cur_waiters (lfb s)) = (if \<exists>t. lfb_pcs s t = Some LB_next then 0 else card (here s))"
    "(\<exists>t. lf_closing (lfb_pcs s t)) \<longleftrightarrow> here s = {..<lf_n s}"
    "\<And>t u. lf_closing (lfb_pcs s t) \<Longrightarrow> lf_closing (lfb_pcs s u) \<Longrightarrow> t = u"
    "lf_serials s = lf_rounds s" "complaints s = 0"
  shows "lfb_inv s"
  using assms unfolding lfb_inv_def by blast

lemma here_sub: "here s \<subseteq> {..<lf_n s}"
  by (auto simp: here_def)

lemma here_full_iff: "here s = {..<lf_n s} \<longleftrightarrow> card (here s) = lf_n s"
  using card_subset_eq [OF finite_lessThan here_sub, of s] by (metis card_lessThan)

text \<open>A step that neither counts in nor closes a round.\<close>

lemma lfb_inv_quiet:
  assumes inv: "lfb_inv s" and t: "t < lf_n s"
    and pc: "\<not> lf_closing (lfb_pcs s t)" "\<not> lf_closing p"
    and loc: "lf_local (waiters (lfb s)) (lf_rounds s) (lf_arrived s t) l p"
    and s': "lfb s' = lfb s" "lfb_pcs s' = (lfb_pcs s)(t := p)" "lf_rounds s' = lf_rounds s" "\<And>u. lf_arrived s' u = lf_arrived s u"
      "\<And>u. lf_left s' u = (if u = t then l else lf_left s u)" "lf_serials s' = lf_serials s" "complaints s' = complaints s"
  shows "lfb_inv s'"
proof -
  note D = lfb_invD [OF inv]
  have h: "here s' = here s" by (simp add: s' here_def)
  have cl: "lf_closing (lfb_pcs s' u) = lf_closing (lfb_pcs s u)" for u using pc by (simp add: s')
  have nx: "(lfb_pcs s' u = Some LB_next) = (lfb_pcs s u = Some LB_next)" for u using pc by (auto simp: s')
  show ?thesis
  proof (rule lfb_invI)
    show "lf_local (waiters (lfb s')) (lf_rounds s') (lf_arrived s' u) (lf_left s' u) (lfb_pcs s' u)" if "u < lf_n s'" for u
      using D(3) [of u] loc that by (simp add: s')
    show "lfb_pcs s' u = None" if "lf_n s' \<le> u" for u using D(4) [of u] t that by (auto simp: s')
    show "t = u" if "lf_closing (lfb_pcs s' t)" "lf_closing (lfb_pcs s' u)" for t u using that unfolding cl by (rule D(7))
    show "unat (cur_waiters (lfb s')) = (if \<exists>t. lfb_pcs s' t = Some LB_next then 0 else card (here s'))"
      unfolding nx h s'(1) by (rule D(5))
    show "(\<exists>t. lf_closing (lfb_pcs s' t)) \<longleftrightarrow> here s' = {..<lf_n s'}" unfolding cl h s'(1) by (rule D(6))
  qed (simp_all add: s' D(1,2,8,9))
qed

lemma lfb_inv_add:
  assumes inv: "lfb_inv s" and t: "t < lf_n s" and pc: "lfb_pcs s t = Some (LB_add r)"
  shows "lfb_inv (lfb_do t (LB_add r) s)"
proof -
  note D = lfb_invD [OF inv]
  have loc: "lf_arrived s t = lf_rounds s" "lf_left s t = lf_rounds s" "r = of_nat (lf_rounds s)" using D(3) [OF t] pc by auto
  then have tn: "t \<notin> here s" by (simp add: here_def)
  then have nf: "here s \<noteq> {..<lf_n s}" using t by auto
  then have nc: "\<not> lf_closing (lfb_pcs s u)" for u using D(6) by blast
  then have nx: "lfb_pcs s u \<noteq> Some LB_next" for u by (metis lf_closing.simps(2))
  let ?s = "lfb_do t (LB_add r) s"
  let ?cw = "cur_waiters (lfb s) + 1"
  have h: "here ?s = insert t (here s)"
    using t loc by (auto simp: here_def lfb_do_def sync_defs)
  have fin: "finite (here s)" using here_sub finite_subset by blast
  have lt: "card (here s) < lf_n s" using nf here_full_iff [of s] card_mono [OF _ here_sub, of s] by auto
  have c: "card (here ?s) = Suc (card (here s))" unfolding h using fin tn by simp
  have "lf_n s < 2 ^ LENGTH(32)" by (rule unsigned_less)
  then have cw: "unat ?cw = Suc (card (here s))" using D(5) nx lt by (simp add: unat_word_ariths)
  have full: "?cw = waiters (lfb s) \<longleftrightarrow> here ?s = {..<lf_n s}"
    using here_full_iff [of ?s] c cw by (auto simp: word_unat_eq_iff lfb_do_def sync_defs)
  have f: "lfb ?s = (lfb s)\<lparr>cur_waiters := ?cw\<rparr>" "lf_rounds ?s = lf_rounds s" "lf_serials ?s = lf_serials s" "complaints ?s = complaints s"
    "lfb_pcs ?s = (lfb_pcs s)(t := Some (if ?cw \<noteq> waiters (lfb s) then LB_spin r else LB_cas ?cw))"
    "lf_arrived ?s = (lf_arrived s)(t := Suc (lf_rounds s))" "lf_left ?s = lf_left s"
    by (simp_all add: lfb_do_def sync_defs loc fun_eq_iff)
  have nx': "lfb_pcs ?s u \<noteq> Some LB_next" for u using nx by (simp add: f)
  have cl: "lf_closing (lfb_pcs ?s u) \<longleftrightarrow> u = t \<and> ?cw = waiters (lfb s)" for u using nc by (simp add: f)
  show ?thesis
  proof (rule lfb_invI)
    show "lf_local (waiters (lfb ?s)) (lf_rounds ?s) (lf_arrived ?s u) (lf_left ?s u) (lfb_pcs ?s u)" if "u < lf_n ?s" for u
      using D(3) [of u] that loc(2,3) unfolding f by simp
    show "lfb_pcs ?s u = None" if "lf_n ?s \<le> u" for u using D(4) [of u] t that unfolding f by auto
    show "unat (cur_waiters (lfb ?s)) = (if \<exists>t. lfb_pcs ?s t = Some LB_next then 0 else card (here ?s))"
      using cw c nx' unfolding f(1) by simp
    show "(\<exists>t. lf_closing (lfb_pcs ?s t)) \<longleftrightarrow> here ?s = {..<lf_n ?s}" unfolding cl using full unfolding f(1) by simp
    show "v = u" if "lf_closing (lfb_pcs ?s v)" "lf_closing (lfb_pcs ?s u)" for v u using that unfolding cl by simp
  qed (use D(1,2,8,9) in \<open>simp_all only: f, simp_all\<close>)
qed

text \<open>The last thread of a round.\<close>

lemma lfb_inv_close:
  assumes inv: "lfb_inv s" and t: "t < lf_n s" and pc: "lf_closing (lfb_pcs s t)" "lfb_pcs s t = Some p"
  shows "lfb_inv (lfb_do t p s)"
proof -
  note D = lfb_invD [OF inv]
  have full: "here s = {..<lf_n s}" using D(6) pc(1) by blast
  then have all: "lf_arrived s u = Suc (lf_rounds s)" if "u < lf_n s" for u using that by (auto simp: here_def)
  have only: "\<not> lf_closing (lfb_pcs s u)" if "u \<noteq> t" for u using D(7) pc(1) that by blast
  show ?thesis
  proof (cases p)
    case (LB_cas cw)
    have nx: "lfb_pcs s u \<noteq> Some LB_next" for u
      using only [of u] pc LB_cas by (cases "u = t") auto
    then have "cur_waiters (lfb s) = cw"
      using D(3) [OF t] D(5) full pc LB_cas by (simp add: word_unat_eq_iff)
    then have f: "lfb_do t p s = s\<lparr>lfb := (lfb s)\<lparr>cur_waiters := 0\<rparr>, lfb_pcs := (lfb_pcs s)(t := Some LB_next)\<rparr>"
      using LB_cas by (cases s) (simp add: lfb_do_def sync_defs)
    let ?s = "s\<lparr>lfb := (lfb s)\<lparr>cur_waiters := 0\<rparr>, lfb_pcs := (lfb_pcs s)(t := Some LB_next)\<rparr>"
    have h: "here ?s = here s" by (simp add: here_def)
    have cl: "lf_closing (lfb_pcs ?s u) \<longleftrightarrow> u = t" for u using only [of u] by simp
    show ?thesis unfolding f
    proof (rule lfb_invI)
      show "lf_local (waiters (lfb ?s)) (lf_rounds ?s) (lf_arrived ?s u) (lf_left ?s u) (lfb_pcs ?s u)" if "u < lf_n ?s" for u
        using D(3) [of u] that pc LB_cas by (cases "u = t") simp_all
      show "lfb_pcs ?s u = None" if "lf_n ?s \<le> u" for u using D(4) [of u] t that by auto
      show "v = u" if "lf_closing (lfb_pcs ?s v)" "lf_closing (lfb_pcs ?s u)" for v u using that unfolding cl by simp
      show "(\<exists>t. lf_closing (lfb_pcs ?s t)) \<longleftrightarrow> here ?s = {..<lf_n ?s}" unfolding cl h using full by simp
    qed (use D(1,2,8,9) in auto)
  next
    case LB_next
    then have f: "lfb_do t p s = s\<lparr>lfb := (lfb s)\<lparr>cur_round := of_nat (Suc (lf_rounds s))\<rparr>, lfb_pcs := (lfb_pcs s)(t := None),
        lf_rounds := Suc (lf_rounds s), lf_left := (lf_left s)(t := Suc (lf_left s t)), lf_serials := Suc (lf_serials s)\<rparr>"
      using D(2) by (cases s) (simp add: lfb_do_def sync_defs add.commute)
    have cw: "unat (cur_waiters (lfb s)) = 0" using D(5) pc LB_next by auto
    have none: "here (lfb_do t p s) = {}" using all by (auto simp: f here_def)
    have cl: "\<not> lf_closing (lfb_pcs (lfb_do t p s) u)" for u using only [of u] by (simp add: f)
    then have nx: "lfb_pcs (lfb_do t p s) u \<noteq> Some LB_next" for u by (metis lf_closing.simps(2))
    have others: "lf_local (waiters (lfb s)) (Suc (lf_rounds s)) (lf_arrived s u) (lf_left s u) (lfb_pcs s u)"
      if "u < lf_n s" "u \<noteq> t" for u
      using D(3) [OF that(1)] all [OF that(1)] only [OF that(2)]
      by (cases "(waiters (lfb s), lf_rounds s, lf_arrived s u, lf_left s u, lfb_pcs s u)" rule: lf_local.cases) auto
    have left: "lf_left s t = lf_rounds s" using D(3) [OF t] pc LB_next by simp
    have loc: "lf_local (waiters (lfb s)) (Suc (lf_rounds s)) (lf_arrived s u)
        (lf_left (lfb_do t p s) u) (lfb_pcs (lfb_do t p s) u)" if "u < lf_n s" for u
      using others [OF that] left all [OF that] by (cases "u = t") (simp_all add: f)
    show ?thesis
    proof (rule lfb_invI)
      show "lf_local (waiters (lfb (lfb_do t p s))) (lf_rounds (lfb_do t p s)) (lf_arrived (lfb_do t p s) u)
        (lf_left (lfb_do t p s) u) (lfb_pcs (lfb_do t p s) u)" if "u < lf_n (lfb_do t p s)" for u
        using loc [of u] that by (simp add: f)
      show "lfb_pcs (lfb_do t p s) u = None" if "lf_n (lfb_do t p s) \<le> u" for u using D(4) [of u] that by (simp add: f)
      show "unat (cur_waiters (lfb (lfb_do t p s))) =
          (if \<exists>u. lfb_pcs (lfb_do t p s) u = Some LB_next then 0 else card (here (lfb_do t p s)))"
        using cw nx none by (simp add: f)
      show "(\<exists>u. lf_closing (lfb_pcs (lfb_do t p s) u)) \<longleftrightarrow> here (lfb_do t p s) = {..<lf_n (lfb_do t p s)}"
        unfolding none using cl D(1) by (auto simp: f)
    qed (use cl D(1,8,9) in \<open>auto simp: f\<close>)
  qed (use pc in auto)
qed

lemma lfb_inv_do:
  assumes inv: "lfb_inv s" and t: "t < lf_n s" and pc: "lfb_pcs s t = Some p"
  shows "lfb_inv (lfb_do t p s)"
proof -
  note D = lfb_invD [OF inv] and loc = lfb_invD(3) [OF inv t]
  note Q = lfb_inv_quiet [OF inv t]
  show ?thesis
  proof (cases p)
    case LB_round
    show ?thesis by (rule Q [of "Some (LB_add (cur_round (lfb s)))" "lf_left s t"])
      (use pc loc D(2) LB_round in \<open>auto simp: lfb_do_def\<close>)
  next
    case (LB_add r)
    then show ?thesis using lfb_inv_add [OF inv t] pc by simp
  next
    case (LB_spin r)
    show ?thesis
      by (rule Q [of "Some (if r = cur_round (lfb s) then LB_spin r else LB_check r)" "lf_left s t"])
        (use pc loc D(2) LB_spin in \<open>auto simp: lfb_do_def\<close>)
  next
    case (LB_check r)
    then have "r + 1 = cur_round (lfb s)" using loc pc D(2) by (simp flip: of_nat_Suc) (metis of_nat_Suc add.commute)
    then show ?thesis
      by (intro Q [of None "Suc (lf_left s t)"])
        (use pc loc D(2) LB_check in \<open>auto simp: lfb_do_def PTHREAD_BARRIER_SERIAL_THREAD_def\<close>)
  qed (use lfb_inv_close [OF inv t _ pc] pc in auto)
qed

lemma lfb_inv_step:
  assumes inv: "lfb_inv s"
  shows "lfb_inv (lfb_step e s)"
proof (cases e)
  case (BarrierWait t)
  show ?thesis
  proof (cases "lfb_pcs s t = None \<and> t < lf_n s")
    case True
    then have "lfb_inv (s\<lparr>lfb_pcs := (lfb_pcs s)(t := Some LB_round)\<rparr>)"
      using lfb_invD(3) [OF inv, of t] by (intro lfb_inv_quiet [OF inv, of t "Some LB_round" "lf_left s t"]) auto
    then show ?thesis using BarrierWait True by simp
  qed (use inv BarrierWait in auto)
next
  case (BarrierStep t)
  show ?thesis
  proof (cases "lfb_pcs s t")
    case (Some p)
    then have "t < lf_n s" using lfb_invD(4) [OF inv, of t] by (cases "lf_n s \<le> t") auto
    then show ?thesis using lfb_inv_do [OF inv _ Some] BarrierStep Some by simp
  qed (use inv BarrierStep in simp)
qed

lemma lfb_waiters [simp]: "waiters (lfb (lfb_step e s)) = waiters (lfb s)"
proof (cases e)
  case (BarrierStep t)
  show ?thesis
  proof (cases "lfb_pcs s t")
    case (Some p)
    then show ?thesis using BarrierStep by (cases p) (simp_all add: lfb_do_def sync_defs)
  qed (simp add: BarrierStep)
qed simp

lemma lfb_inv_run:
  assumes "0 < cnt"
  shows "lfb_inv (run lfb_step es (lfb_start bq cnt)) \<and> waiters (lfb (run lfb_step es (lfb_start bq cnt))) = cnt"
proof (rule run_invariant [where I = "\<lambda>s. lfb_inv s \<and> waiters (lfb s) = cnt"])
  have "here (lfb_start bq cnt) = {}" by (simp add: here_def lfb_start_def)
  moreover have "0 < unat cnt" using assms by (simp add: word_less_nat_alt)
  ultimately show "lfb_inv (lfb_start bq cnt) \<and> waiters (lfb (lfb_start bq cnt)) = cnt"
    by (auto simp: lfb_inv_def lfb_start_def pthread_barrier_init_def)
qed (simp add: lfb_inv_step)

section \<open>Properties\<close>

text \<open>
  C19. The lock-free barrier is a rendezvous: in every interleaving of its participants nobody
  has left more often than anybody has arrived, each completed round had one serial thread,
  and \<open>should not run to here\<close> is never printed.
\<close>

theorem lf_barrier_rendezvous:
  assumes "0 < cnt" and "s = run lfb_step es (lfb_start bq cnt)" and "t < unat cnt" and "u < unat cnt"
  shows "lf_left s t \<le> lf_arrived s u \<and> lf_serials s = lf_rounds s \<and> complaints s = 0"
proof -
  have inv: "lfb_inv s" and n: "lf_n s = unat cnt" using lfb_inv_run [OF assms(1), of es bq] unfolding assms(2) by auto
  note D = lfb_invD [OF inv]
  have "lf_left s v \<le> lf_rounds s \<and> lf_rounds s \<le> lf_arrived s v" if "v < unat cnt" for v
    using D(3) [of v] that n
    by (cases "(waiters (lfb s), lf_rounds s, lf_arrived s v, lf_left s v, lfb_pcs s v)" rule: lf_local.cases) auto
  from this [OF assms(3)] this [OF assms(4)] show ?thesis using D(8,9) by simp
qed

text \<open>Two participants: one waits, the other ends the round.\<close>

definition lf_sample :: "barrier_event list" where
  "lf_sample = [BarrierWait 0, BarrierStep 0, BarrierStep 0, BarrierStep 0, BarrierWait 1, BarrierStep 1, BarrierStep 1]"

theorem lf_barrier_rendezvous_witness:
  "(0 :: c_uint) < 2 \<and> (0 :: nat) < unat (2 :: c_uint) \<and>
   lf_left (run lfb_step lf_sample (lfb_start bounded_list_queue 2)) 0 \<le>
     lf_arrived (run lfb_step lf_sample (lfb_start bounded_list_queue 2)) 1 \<and>
   complaints (run lfb_step lf_sample (lfb_start bounded_list_queue 2)) = 0"
  using lf_barrier_rendezvous [of 2 _ lf_sample bounded_list_queue 0 1, OF _ refl] by simp

text \<open>
  The lock-free barrier does not deadlock: there is always a participant that is not
  waiting for the current round to end, so if all have called the operation one of them can
  go on and end it.
\<close>

theorem lf_barrier_no_deadlock:
  assumes "0 < cnt" and "s = run lfb_step es (lfb_start bq cnt)"
  shows "\<exists>t<unat cnt. lfb_pcs s t \<noteq> Some (LB_spin (cur_round (lfb s)))"
proof (rule ccontr)
  assume a: "\<not> ?thesis"
  have inv: "lfb_inv s" and n: "lf_n s = unat cnt" using lfb_inv_run [OF assms(1), of es bq] unfolding assms(2) by auto
  note D = lfb_invD [OF inv]
  have spin: "lfb_pcs s t = Some (LB_spin (of_nat (lf_rounds s)))" if "t < lf_n s" for t using a that n D(2) by auto
  have "t \<in> here s" if "t < lf_n s" for t
  proof -
    have "(of_nat (lf_rounds s) :: c_uint) = of_nat (lf_left s t)" "lf_left s t = lf_rounds s \<or> Suc (lf_left s t) = lf_rounds s"
      "lf_arrived s t = Suc (lf_left s t)" using D(3) [OF that] spin [OF that] by auto
    moreover have "Suc (lf_left s t) \<noteq> lf_rounds s"
    proof
      assume "Suc (lf_left s t) = lf_rounds s"
      then have "(of_nat (Suc (lf_left s t)) :: c_uint) = of_nat (lf_left s t)" using calculation(1) by simp
      then show False by simp
    qed
    ultimately show ?thesis using that by (auto simp: here_def)
  qed
  then have "here s = {..<lf_n s}" using here_sub [of s] by auto
  then obtain t where t: "lf_closing (lfb_pcs s t)" using D(6) by blast
  then have "t < lf_n s" using D(4) [of t] by (cases "lf_n s \<le> t") auto
  then show False using spin t by simp
qed

theorem lf_barrier_no_deadlock_witness:
  "(0 :: c_uint) < 2 \<and> (\<exists>t<unat (2 :: c_uint). lfb_pcs (run lfb_step lf_sample (lfb_start bounded_list_queue 2)) t \<noteq>
     Some (LB_spin (cur_round (lfb (run lfb_step lf_sample (lfb_start bounded_list_queue 2))))))"
  using lf_barrier_no_deadlock [of 2 _ lf_sample bounded_list_queue, OF _ refl] by simp

end
