(* ===== verification/BlkMutex.thy ===== *)
theory BlkMutex
  imports HFutex VTypes
begin

text \<open>
  The mutex of \<open>inc/strategy.h\<close> built without \<open>SPIN_LOCK_STYLE\<close>: the fields of
  \<open>hthread_mutex_t\<close> are protected by its spin lock (\<open>acquire_acess\<close>), a virtual thread that
  finds the mutex taken queues itself and leaves the spin lock to its worker, a kernel thread
  counts itself in \<open>tthread_num\<close> and waits on the binary semaphore.  \<open>pthread_mutex_lock\<close> passes
  no virtual thread, so through the pthread interface all callers are kernel threads here.
\<close>

section \<open>Operations\<close>

text \<open>
  The record holds the fields of \<open>hthread_mutex_t\<close> and where the threads are; the list of
  waiting nodes is a stack (\<open>vthread_node::enqueue\<close> and \<open>dequeue\<close> work at its head).  The
  semaphore is the machine of \<open>hthread_bin_sema_t\<close>.  \<open>run_queue\<close> collects what is put into
  \<open>vs_queue\<close>.

  Program points: \<open>BL_...\<close> of \<open>pthread_mutex_lock\<close> (\<open>me\<close> is the flag of a virtual thread), \<open>BU_...\<close>
  of \<open>pthread_mutex_unlock\<close>, \<open>BT_...\<close> of \<open>pthread_mutex_trylock\<close>.  At \<open>BM_hold\<close> the thread has
  the mutex and runs the program.
\<close>

datatype bm_pc =
    BM_idle | BM_hold
  | BL_acquire bool | BL_test bool | BL_enqueue | BL_parked | BL_count | BL_leave | BL_sleep | BL_set | BL_release
  | BU_acquire | BU_dequeue | BU_waited "nat option" | BU_count "nat option" c_uint | BU_clear "nat option" c_uint
  | BU_release "nat option" c_uint | BU_wake nat | BU_post
  | BT_acquire | BT_test | BT_set | BT_busy | BT_release

record bmutex =
  bm_c :: c_uint
  bm_spinlock :: c_uint
  bm_tthread_num :: c_uint
  bm_waiting :: "nat list"
  bm_sema :: bin_sema
  bm_pcs :: "nat \<Rightarrow> bm_pc"
  run_queue :: "nat list"

definition bm_init :: bmutex where
  "bm_init = \<lparr>bm_c = 0, bm_spinlock = 0, bm_tthread_num = 0, bm_waiting = [], bm_sema = hthread_bin_sema_t 0,
     bm_pcs = (\<lambda>_. BM_idle), run_queue = []\<rparr>"

abbreviation bm_goto :: "nat \<Rightarrow> bm_pc \<Rightarrow> bmutex \<Rightarrow> bmutex" where
  "bm_goto t p s \<equiv> s\<lparr>bm_pcs := (bm_pcs s)(t := p)\<rparr>"

text \<open>\<open>acquire_acess\<close>: one attempt at the spin lock; \<open>release_access\<close>.\<close>

definition bm_acquire :: "nat \<Rightarrow> bm_pc \<Rightarrow> bmutex \<Rightarrow> bmutex" where
  "bm_acquire t p s = (case sync_lock_test_and_set (bm_spinlock s) 1 of (old, m) \<Rightarrow>
     (if old = 0 then bm_goto t p (s\<lparr>bm_spinlock := m\<rparr>) else s\<lparr>bm_spinlock := m\<rparr>))"

definition bm_leave :: "nat \<Rightarrow> bm_pc \<Rightarrow> bmutex \<Rightarrow> bmutex" where
  "bm_leave t p s = bm_goto t p (s\<lparr>bm_spinlock := 0\<rparr>)"

text \<open>A step of \<open>bin_sema.wait\<close> or \<open>post\<close>; when it has returned the thread goes on at \<open>p\<close>.\<close>

definition bm_in_sema :: "nat \<Rightarrow> nat \<Rightarrow> bm_pc \<Rightarrow> bmutex \<Rightarrow> bmutex" where
  "bm_in_sema t i p s =
     (if sema_pcs (bm_sema s) t = S_idle then bm_goto t p s
      else s\<lparr>bm_sema := bin_sema_step (SemaStep t i) (bm_sema s)\<rparr>)"

text \<open>
  A yield of the mutex address (\<open>BL_enqueue\<close>): \<open>worker_routine\<close> without \<open>SPIN_LOCK_STYLE\<close> does
  nothing with it; the thread goes on when somebody has put it into the run queue.
\<close>

definition bm_thread_step :: "nat \<Rightarrow> nat \<Rightarrow> bmutex \<Rightarrow> bmutex" where
  "bm_thread_step t i s = (case bm_pcs s t of
     BM_idle \<Rightarrow> s
   | BM_hold \<Rightarrow> s
   | BL_acquire me \<Rightarrow> bm_acquire t (BL_test me) s
   | BL_test me \<Rightarrow> bm_goto t (if bm_c s = 1 then if me then BL_enqueue else BL_count else BL_set) s
   | BL_enqueue \<Rightarrow> bm_goto t BL_parked (s\<lparr>bm_waiting := t # bm_waiting s\<rparr>)
   | BL_parked \<Rightarrow> if t \<in> set (run_queue s) then bm_goto t (BL_acquire True) (s\<lparr>run_queue := remove1 t (run_queue s)\<rparr>) else s
   | BL_count \<Rightarrow> bm_goto t BL_leave (s\<lparr>bm_tthread_num := bm_tthread_num s + 1\<rparr>)
   | BL_leave \<Rightarrow> bm_leave t BL_sleep (s\<lparr>bm_sema := bin_sema_step (SemaWait t) (bm_sema s)\<rparr>)
   | BL_sleep \<Rightarrow> bm_in_sema t i (BL_acquire False) s
   | BL_set \<Rightarrow> bm_goto t BL_release (s\<lparr>bm_c := 1\<rparr>)
   | BL_release \<Rightarrow> bm_leave t BM_hold s
   | BU_acquire \<Rightarrow> bm_acquire t BU_dequeue s
   | BU_dequeue \<Rightarrow> (case bm_waiting s of
        [] \<Rightarrow> bm_goto t (BU_waited None) s
      | v # vs \<Rightarrow> bm_goto t (BU_waited (Some v)) (s\<lparr>bm_waiting := vs\<rparr>))
   | BU_waited v \<Rightarrow> bm_goto t (BU_count v (bm_tthread_num s)) s
   | BU_count v n \<Rightarrow> bm_goto t (BU_clear v n)
        (if bm_tthread_num s > 0 then s\<lparr>bm_tthread_num := bm_tthread_num s - 1\<rparr> else s)
   | BU_clear v n \<Rightarrow> bm_goto t (BU_release v n) (s\<lparr>bm_c := 0\<rparr>)
   | BU_release v n \<Rightarrow> (case v of
        Some u \<Rightarrow> bm_leave t (BU_wake u) s
      | None \<Rightarrow> if sint n > 0 then bm_leave t BU_post (s\<lparr>bm_sema := bin_sema_step (SemaPost t) (bm_sema s)\<rparr>)
                else bm_leave t BM_idle s)
   | BU_wake u \<Rightarrow> bm_goto t BM_idle (s\<lparr>run_queue := run_queue s @ [u]\<rparr>)
   | BU_post \<Rightarrow> bm_in_sema t i BM_idle s
   | BT_acquire \<Rightarrow> bm_acquire t BT_test s
   | BT_test \<Rightarrow> bm_goto t (if bm_c s = 1 then BT_busy else BT_set) s
   | BT_set \<Rightarrow> bm_goto t BT_release (s\<lparr>bm_c := 1\<rparr>)
   | BT_busy \<Rightarrow> bm_leave t BM_idle s
   | BT_release \<Rightarrow> bm_leave t BM_hold s)"

text \<open>Threads call the operations; only a holder unlocks.\<close>

datatype bm_event = BMLock nat bool | BMTry nat | BMUnlock nat | BMStep nat nat

fun bm_step :: "bm_event \<Rightarrow> bmutex \<Rightarrow> bmutex" where
  "bm_step (BMLock t me) s = (if bm_pcs s t = BM_idle then bm_goto t (BL_acquire me) s else s)"
| "bm_step (BMTry t) s = (if bm_pcs s t = BM_idle then bm_goto t BT_acquire s else s)"
| "bm_step (BMUnlock t) s = (if bm_pcs s t = BM_hold then bm_goto t BU_acquire s else s)"
| "bm_step (BMStep t i) s = bm_thread_step t i s"

section \<open>The invariant\<close>

text \<open>The threads with the spin lock (a parked thread has left it taken), and those with the mutex.\<close>

fun has_spin :: "bm_pc \<Rightarrow> bool" where
  "has_spin (BL_test me) = True" | "has_spin BL_enqueue = True" | "has_spin BL_parked = True"
| "has_spin BL_count = True" | "has_spin BL_leave = True" | "has_spin BL_set = True" | "has_spin BL_release = True"
| "has_spin BU_dequeue = True" | "has_spin (BU_waited v) = True" | "has_spin (BU_count v n) = True"
| "has_spin (BU_clear v n) = True" | "has_spin (BU_release v n) = True"
| "has_spin BT_test = True" | "has_spin BT_set = True" | "has_spin BT_busy = True" | "has_spin BT_release = True"
| "has_spin _ = False"

fun has_mutex :: "bm_pc \<Rightarrow> bool" where
  "has_mutex BM_hold = True" | "has_mutex BL_release = True" | "has_mutex BT_release = True"
| "has_mutex BU_acquire = True" | "has_mutex BU_dequeue = True" | "has_mutex (BU_waited v) = True"
| "has_mutex (BU_count v n) = True" | "has_mutex (BU_clear v n) = True" | "has_mutex _ = False"

text \<open>
  What a thread has seen of the word under the spin lock.  A thread that parks keeps the spin
  lock, so nobody ever takes it off the list of waiting threads.
\<close>

fun saw_free :: "bm_pc \<Rightarrow> bool" where
  "saw_free BL_set = True" | "saw_free BT_set = True" | "saw_free _ = False"

fun saw_taken :: "bm_pc \<Rightarrow> bool" where
  "saw_taken BL_enqueue = True" | "saw_taken BL_parked = True" | "saw_taken _ = False"

fun wakes_nobody :: "bm_pc \<Rightarrow> bool" where
  "wakes_nobody (BU_waited v) = (v = None)" | "wakes_nobody (BU_count v n) = (v = None)"
| "wakes_nobody (BU_clear v n) = (v = None)" | "wakes_nobody (BU_release v n) = (v = None)"
| "wakes_nobody (BU_wake u) = False" | "wakes_nobody _ = True"

definition bm_inv :: "bmutex \<Rightarrow> bool" where
  "bm_inv s \<longleftrightarrow> sole has_spin (bm_pcs s) (bm_spinlock s) \<and> sole has_mutex (bm_pcs s) (bm_c s) \<and>
     (\<forall>t. (saw_free (bm_pcs s t) \<longrightarrow> bm_c s = 0) \<and> (saw_taken (bm_pcs s t) \<longrightarrow> bm_c s = 1) \<and> wakes_nobody (bm_pcs s t)) \<and>
     run_queue s = [] \<and> (bm_waiting s = [] \<or> (\<exists>t. bm_pcs s t = BL_parked))"

lemma bm_invD:
  assumes "bm_inv s"
  shows "sole has_spin (bm_pcs s) (bm_spinlock s)" "sole has_mutex (bm_pcs s) (bm_c s)"
    "\<And>t. saw_free (bm_pcs s t) \<Longrightarrow> bm_c s = 0" "\<And>t. saw_taken (bm_pcs s t) \<Longrightarrow> bm_c s = 1"
    "\<And>t. wakes_nobody (bm_pcs s t)" "run_queue s = []" "bm_waiting s = [] \<or> (\<exists>t. bm_pcs s t = BL_parked)"
  using assms unfolding bm_inv_def by blast+

lemma saw_has_spin: "saw_free p \<or> saw_taken p \<Longrightarrow> has_spin p"
  by (cases p) auto

lemma bm_inv_move:
  assumes inv: "bm_inv s" and t: "bm_pcs s t \<noteq> BL_parked" and pcs: "bm_pcs s' = (bm_pcs s)(t := p)"
    and sp: "sole has_spin (bm_pcs s') (bm_spinlock s')" and mu: "sole has_mutex (bm_pcs s') (bm_c s')"
    and c: "bm_c s' = bm_c s \<or> has_spin (bm_pcs s t)"
    and p: "saw_free p \<Longrightarrow> bm_c s' = 0" "saw_taken p \<Longrightarrow> bm_c s' = 1" "wakes_nobody p"
    and q: "run_queue s' = run_queue s" and w: "bm_waiting s' = bm_waiting s \<or> p = BL_parked \<or> bm_waiting s' = []"
  shows "bm_inv s'"
proof -
  note D = bm_invD [OF inv]
  have "(saw_free (bm_pcs s' u) \<longrightarrow> bm_c s' = 0) \<and> (saw_taken (bm_pcs s' u) \<longrightarrow> bm_c s' = 1) \<and> wakes_nobody (bm_pcs s' u)" for u
  proof (cases "u = t")
    case True
    then show ?thesis using p by (simp add: pcs)
  next
    case False
    have "bm_c s' = bm_c s \<or> \<not> saw_free (bm_pcs s u) \<and> \<not> saw_taken (bm_pcs s u)"
      using c sole_other [OF D(1) _ False] saw_has_spin by blast
    then show ?thesis using D(3,4,5) [of u] False by (auto simp: pcs)
  qed
  moreover have "bm_waiting s' = [] \<or> (\<exists>u. bm_pcs s' u = BL_parked)"
    using w D(7) t unfolding pcs by (metis fun_upd_apply)
  ultimately show ?thesis unfolding bm_inv_def using sp mu q D(6) by simp
qed

lemma bm_inv_acquire:
  assumes inv: "bm_inv s" and t: "\<not> has_spin (bm_pcs s t)" and p: "has_spin p" "has_mutex p = has_mutex (bm_pcs s t)"
    "\<not> saw_free p" "\<not> saw_taken p" "wakes_nobody p"
  shows "bm_inv (bm_acquire t p s)"
proof (cases "bm_spinlock s = 0")
  case True
  note D = bm_invD [OF inv]
  show ?thesis
  proof (rule bm_inv_move [OF inv])
    show "sole has_spin (bm_pcs (bm_acquire t p s)) (bm_spinlock (bm_acquire t p s))"
      using True D(1) p(1) by (simp add: bm_acquire_def sync_defs sole_take)
    show "sole has_mutex (bm_pcs (bm_acquire t p s)) (bm_c (bm_acquire t p s))"
      using True sole_keep [OF D(2) p(2)] by (simp add: bm_acquire_def sync_defs)
  qed (use True t p in \<open>auto simp: bm_acquire_def sync_defs\<close>)
next
  case False
  then have "bm_spinlock s = 1" using bm_invD(1) [OF inv] by (auto simp: sole_def)
  then have "bm_acquire t p s = s" by (cases s) (simp add: bm_acquire_def sync_defs)
  then show ?thesis using inv by simp
qed

lemma bm_inv_leave:
  assumes inv: "bm_inv s" and t: "has_spin (bm_pcs s t)" "bm_pcs s t \<noteq> BL_parked"
    and p: "\<not> has_spin p" "has_mutex p = has_mutex (bm_pcs s t)" "wakes_nobody p"
    and s': "bm_pcs s' = (bm_pcs s)(t := p)" "bm_spinlock s' = 0" "bm_c s' = bm_c s" "run_queue s' = run_queue s" "bm_waiting s' = bm_waiting s"
  shows "bm_inv s'"
  by (rule bm_inv_move [OF inv t(2) s'(1)])
    (use sole_drop [OF bm_invD(1) [OF inv] t(1) p(1)] sole_keep [OF bm_invD(2) [OF inv] p(2)] saw_has_spin [of p] p s' in auto)

text \<open>A step that changes neither lock.\<close>

lemma bm_inv_local:
  assumes inv: "bm_inv s" and t: "bm_pcs s t \<noteq> BL_parked"
    and p: "has_spin p = has_spin (bm_pcs s t)" "has_mutex p = has_mutex (bm_pcs s t)"
      "saw_free p \<Longrightarrow> bm_c s = 0" "saw_taken p \<Longrightarrow> bm_c s = 1" "wakes_nobody p"
    and s': "bm_pcs s' = (bm_pcs s)(t := p)" "bm_spinlock s' = bm_spinlock s" "bm_c s' = bm_c s" "run_queue s' = run_queue s"
      "bm_waiting s' = bm_waiting s \<or> p = BL_parked \<or> bm_waiting s' = []"
  shows "bm_inv s'"
  by (rule bm_inv_move [OF inv t s'(1)])
    (use sole_keep [OF bm_invD(1) [OF inv] p(1)] sole_keep [OF bm_invD(2) [OF inv] p(2)] p s' in auto)

lemma bm_inv_same:
  assumes "bm_inv s" "bm_pcs s' = bm_pcs s" "bm_spinlock s' = bm_spinlock s" "bm_c s' = bm_c s" "run_queue s' = run_queue s"
    "bm_waiting s' = bm_waiting s"
  shows "bm_inv s'"
  using assms by (simp add: bm_inv_def)

lemma bm_inv_in_sema:
  assumes "bm_inv s" "bm_pcs s t \<noteq> BL_parked" "\<not> has_spin (bm_pcs s t)" "\<not> has_mutex (bm_pcs s t)"
    "\<not> has_spin p" "\<not> has_mutex p" "wakes_nobody p"
  shows "bm_inv (bm_in_sema t i p s)"
proof (cases "sema_pcs (bm_sema s) t = S_idle")
  case True
  have "\<not> saw_free p" "\<not> saw_taken p" using saw_has_spin [of p] assms(5) by blast+
  moreover have "bm_in_sema t i p s = bm_goto t p s" using True by (simp add: bm_in_sema_def)
  ultimately show ?thesis by (intro bm_inv_local [OF assms(1,2), of p]) (simp_all add: assms)
next
  case False
  show ?thesis by (rule bm_inv_same [OF assms(1)]) (use False in \<open>simp_all add: bm_in_sema_def\<close>)
qed

text \<open>Setting the word of the mutex and clearing it.\<close>

lemma bm_inv_set:
  assumes inv: "bm_inv s" and t: "saw_free (bm_pcs s t)" and p: "has_spin p" "has_mutex p" "\<not> saw_free p" "\<not> saw_taken p" "wakes_nobody p"
  shows "bm_inv (bm_goto t p (s\<lparr>bm_c := 1\<rparr>))" (is "bm_inv ?s")
proof -
  note D = bm_invD [OF inv]
  have sp: "has_spin (bm_pcs s t)" using saw_has_spin t by blast
  have np: "bm_pcs s t \<noteq> BL_parked" using t by (cases "bm_pcs s t") simp_all
  have "bm_c s = 0" using t by (rule D(3))
  then have "sole has_mutex (bm_pcs s) 0" using D(2) by simp
  then have mu: "sole has_mutex (bm_pcs ?s) (bm_c ?s)" using sole_take [of has_mutex "bm_pcs s" p t] p(2) by simp
  have k: "sole has_spin (bm_pcs ?s) (bm_spinlock ?s)" using sole_keep [OF D(1), of p t] sp p(1) by simp
  show ?thesis by (rule bm_inv_move [OF inv np _ k mu, of p]) (simp_all add: sp p)
qed

lemma bm_inv_clear:
  assumes inv: "bm_inv s" and t: "bm_pcs s t = BU_clear v n"
  shows "bm_inv (bm_goto t (BU_release v n) (s\<lparr>bm_c := 0\<rparr>))"
proof -
  note D = bm_invD [OF inv]
  show ?thesis
    by (rule bm_inv_move [OF inv, of t])
      (use sole_keep [OF D(1), of "BU_release v n" t] sole_drop [OF D(2), of t "BU_release v n"] t D(5) [of t] in auto)
qed

lemma bm_inv_dequeue:
  assumes inv: "bm_inv s" and t: "bm_pcs s t = BU_dequeue"
  shows "bm_waiting s = []"
proof (rule ccontr)
  assume "bm_waiting s \<noteq> []"
  then obtain u where u: "bm_pcs s u = BL_parked" using bm_invD(7) [OF inv] by blast
  then have "u \<noteq> t" using t by auto
  then show False using sole_other [OF bm_invD(1) [OF inv], of t u] t u by simp
qed

lemma bm_inv_thread_step:
  assumes inv: "bm_inv s"
  shows "bm_inv (bm_thread_step t i s)"
proof -
  note D = bm_invD [OF inv] and L = bm_inv_local [OF inv, of t]
  note S = bm_thread_step_def
  have c: "bm_c s = 0 \<or> bm_c s = 1" using D(2) by (auto simp: sole_def)
  show ?thesis
  proof (cases "bm_pcs s t")
    case (BL_acquire me)
    then show ?thesis using bm_inv_acquire [OF inv, of t "BL_test me"] by (simp add: S)
  next
    case BU_acquire
    then show ?thesis using bm_inv_acquire [OF inv, of t BU_dequeue] by (simp add: S)
  next
    case BT_acquire
    then show ?thesis using bm_inv_acquire [OF inv, of t BT_test] by (simp add: S)
  next
    case (BL_test me)
    then show ?thesis using c
      by (intro L [of "if bm_c s = 1 then if me then BL_enqueue else BL_count else BL_set"]) (auto simp: S split: if_splits)
  next
    case BT_test
    then show ?thesis using c by (intro L [of "if bm_c s = 1 then BT_busy else BT_set"]) (auto simp: S)
  next
    case BL_enqueue
    then show ?thesis using D(4) [of t] by (intro L [of BL_parked]) (auto simp: S)
  next
    case BL_count
    then show ?thesis by (intro L [of BL_leave]) (auto simp: S)
  next
    case BL_leave
    then show ?thesis by (intro bm_inv_leave [OF inv, of t BL_sleep]) (auto simp: S bm_leave_def)
  next
    case BL_sleep
    then show ?thesis using bm_inv_in_sema [OF inv, of t "BL_acquire False" i] by (simp add: S)
  next
    case BU_post
    then show ?thesis using bm_inv_in_sema [OF inv, of t BM_idle i] by (simp add: S)
  next
    case BL_set
    then show ?thesis using bm_inv_set [OF inv, of t BL_release] by (simp add: S)
  next
    case BT_set
    then show ?thesis using bm_inv_set [OF inv, of t BT_release] by (simp add: S)
  next
    case BL_release
    then show ?thesis by (intro bm_inv_leave [OF inv, of t BM_hold]) (auto simp: S bm_leave_def)
  next
    case BT_release
    then show ?thesis by (intro bm_inv_leave [OF inv, of t BM_hold]) (auto simp: S bm_leave_def)
  next
    case BT_busy
    then show ?thesis by (intro bm_inv_leave [OF inv, of t BM_idle]) (auto simp: S bm_leave_def)
  next
    case BU_dequeue
    then show ?thesis using bm_inv_dequeue [OF inv] by (intro L [of "BU_waited None"]) (auto simp: S)
  next
    case (BU_waited v)
    then show ?thesis using D(5) [of t] by (intro L [of "BU_count v (bm_tthread_num s)"]) (auto simp: S)
  next
    case (BU_count v n)
    then show ?thesis using D(5) [of t] by (intro L [of "BU_clear v n"]) (auto simp: S)
  next
    case (BU_clear v n)
    then show ?thesis using bm_inv_clear [OF inv, of t v n] by (simp add: S)
  next
    case (BU_release v n)
    then have "v = None" using D(5) [of t] by simp
    then show ?thesis using BU_release
      by (intro bm_inv_leave [OF inv, of t "if sint n > 0 then BU_post else BM_idle"]) (auto simp: S bm_leave_def)
  next
    case (BU_wake u)
    then show ?thesis using D(5) [of t] by simp
  qed (use inv D(6) in \<open>simp_all add: S\<close>)
qed

lemma bm_inv_step:
  assumes inv: "bm_inv s"
  shows "bm_inv (bm_step e s)"
proof (cases e)
  case (BMLock t me)
  then show ?thesis using bm_inv_local [OF inv, of t "BL_acquire me"] inv by simp
next
  case (BMTry t)
  then show ?thesis using bm_inv_local [OF inv, of t BT_acquire] inv by simp
next
  case (BMUnlock t)
  then show ?thesis using bm_inv_local [OF inv, of t BU_acquire] inv by simp
next
  case (BMStep t i)
  then show ?thesis using bm_inv_thread_step [OF inv] by simp
qed

lemma bm_inv_run: "bm_inv (run bm_step es bm_init)"
proof (rule run_invariant)
  show "bm_inv bm_init" by (simp add: bm_inv_def bm_init_def sole_def)
qed (rule bm_inv_step)

text \<open>A parked thread stays parked: nobody else ever gets the spin lock it keeps.\<close>

lemma parked_step:
  assumes inv: "bm_inv s" and t: "bm_pcs s t = BL_parked"
  shows "bm_pcs (bm_step e s) t = BL_parked"
proof -
  have "run_queue s = []" using bm_invD(6) [OF inv] .
  moreover have "bm_pcs (bm_thread_step u i s) t = bm_pcs s t" if "u \<noteq> t" for u i
    using that by (cases "bm_pcs s u")
      (simp_all add: bm_thread_step_def bm_acquire_def bm_leave_def bm_in_sema_def sync_defs split: list.split option.split)
  moreover have "bm_thread_step t i s = s" for i using t calculation(1) by (simp add: bm_thread_step_def)
  ultimately show ?thesis using t
  proof (cases e)
    case (BMStep u i)
    then show ?thesis using t \<open>\<And>u i. u \<noteq> t \<Longrightarrow> bm_pcs (bm_thread_step u i s) t = bm_pcs s t\<close>
        \<open>\<And>i. bm_thread_step t i s = s\<close> by (cases "u = t") simp_all
  qed (use t in auto)
qed

lemma parked_run:
  assumes "bm_inv s" "bm_pcs s t = BL_parked"
  shows "bm_inv (run bm_step es s) \<and> bm_pcs (run bm_step es s) t = BL_parked"
  by (rule run_invariant [where I = "\<lambda>s. bm_inv s \<and> bm_pcs s t = BL_parked"])
    (use assms in \<open>auto simp: bm_inv_step parked_step\<close>)

section \<open>Properties\<close>

text \<open>
  Mutual exclusion of the blocking mutex: in every interleaving of lock, trylock and unlock
  by virtual and kernel threads at most one thread is in its critical section.
\<close>

theorem blocking_mutex_exclusion:
  assumes "bm_pcs (run bm_step es bm_init) t = BM_hold" and "bm_pcs (run bm_step es bm_init) u = BM_hold"
  shows "t = u"
  using sole_other [OF bm_invD(2) [OF bm_inv_run [of es]], of t u] assms by auto

definition bm_take :: "bm_event list" where
  "bm_take = BMLock 0 False # replicate 4 (BMStep 0 0)"

theorem blocking_mutex_exclusion_witness:
  "bm_pcs (run bm_step bm_take bm_init) 0 = BM_hold \<and> (0 :: nat) = 0"
proof -
  have "bm_pcs (run bm_step bm_take bm_init) 0 = BM_hold"
    by (simp add: bm_take_def bm_init_def bm_thread_step_def bm_acquire_def bm_leave_def sync_defs numeral_eq_Suc)
  then show ?thesis using blocking_mutex_exclusion [of bm_take 0 0] by simp
qed

text \<open>
  A virtual thread that finds the blocking mutex taken stops everything: it yields with the
  spin lock taken, which the worker built without \<open>SPIN_LOCK_STYLE\<close> does not release, so it stays
  parked for ever and the mutex stays locked.
\<close>

theorem blocking_mutex_parks_forever:
  assumes "s = run bm_step es bm_init" and "bm_pcs s t = BL_parked"
  shows "bm_pcs (run bm_step es' s) t = BL_parked \<and> bm_c (run bm_step es' s) = 1 \<and> bm_spinlock (run bm_step es' s) = 1"
proof -
  have inv: "bm_inv (run bm_step es' s)" and p: "bm_pcs (run bm_step es' s) t = BL_parked"
    using parked_run [of s t es'] bm_inv_run [of es] assms by simp_all
  note D = bm_invD [OF inv]
  have "bm_spinlock (run bm_step es' s) = 1" using D(1) p unfolding sole_def by (metis has_spin.simps(3))
  then show ?thesis using p D(4) [of t] by simp
qed

theorem blocking_mutex_parks_forever_witness:
  "bm_pcs (run bm_step (bm_take @ BMLock 1 True # replicate 3 (BMStep 1 0)) bm_init) 1 = BL_parked \<and>
   bm_c (run bm_step [BMUnlock 0, BMStep 0 0, BMStep 0 0]
     (run bm_step (bm_take @ BMLock 1 True # replicate 3 (BMStep 1 0)) bm_init)) = 1"
proof -
  have p: "bm_pcs (run bm_step (bm_take @ BMLock 1 True # replicate 3 (BMStep 1 0)) bm_init) 1 = BL_parked" by code_simp
  from blocking_mutex_parks_forever [OF refl p] p show ?thesis by blast
qed

text \<open>Two sleepers, then two unlocks before the first of them runs.\<close>

definition bm_lost_run :: "bm_event list" where
  "bm_lost_run = bm_take
     @ BMLock 1 False # replicate 6 (BMStep 1 0) @ BMLock 2 False # replicate 6 (BMStep 2 0)
     @ BMUnlock 0 # replicate 9 (BMStep 0 0) @ BMLock 0 False # replicate 4 (BMStep 0 0)
     @ BMUnlock 0 # replicate 8 (BMStep 0 0)
     @ replicate 6 (BMStep 1 0) @ BMUnlock 1 # replicate 6 (BMStep 1 0)"


end
