(* ===== verification/CQDequeue.thy ===== *)
theory CQDequeue
  imports CQIndex
begin

text \<open>
  One implicit producer of \<open>inc/concurrentqueue.h\<close> under concurrency: its thread enqueues while
  any number of threads dequeue, one access to shared memory per step.  A consumer takes a
  ticket from \<open>dequeueOptimisticCount\<close>; tickets that turn out to be too early are counted in
  \<open>dequeueOvercommit\<close>.  This is what keeps \<open>headIndex\<close> from passing \<open>tailIndex\<close> without a
  compare-and-swap.

  The block an index lies in is its number divided by \<open>BLOCK_SIZE\<close>; finding it in the block
  index is the subject of \<open>CQIndex\<close>, requesting a block that of \<open>CQPool\<close>.
\<close>

section \<open>Operations\<close>

text \<open>
  Program points of \<open>ImplicitProducer::dequeue\<close> with its locals \<open>tail\<close>, \<open>overcommit\<close>,
  \<open>myDequeueCount\<close> and \<open>index\<close>: at each point the next access is still to be done.  \<open>CD_abort\<close> is
  the failure of \<open>assert(overcommit <= myDequeueCount)\<close>.  At \<open>CD_got r\<close> the call has returned.
\<close>

datatype 'a cd_pc =
    CD_idle | CD_over c_size | CD_opt c_size c_size | CD_claim c_size | CD_tail c_size c_size
  | CD_head c_size | CD_read c_size | CD_empty c_size 'a | CD_free c_size 'a | CD_giveup c_size | CD_got "'a option" | CD_abort

text \<open>Program points of the producer: write the element, then publish it by storing \<open>tailIndex\<close>.\<close>

datatype 'a ce_pc = CE_idle | CE_write 'a | CE_publish 'a

text \<open>
  \<open>cd_elems\<close> is the memory of the elements by their index, \<open>cd_done\<close> the counter
  \<open>elementsCompletelyDequeued\<close> of a block.  The last five fields are history: the elements
  published, the indices and elements taken, the tickets that passed and failed the second
  test, and how often a block was given back.
\<close>

record 'a cdq =
  cd_tail :: c_size
  cd_head :: c_size
  cd_optimistic :: c_size
  cd_overcommit :: c_size
  cd_elems :: "c_size \<Rightarrow> 'a"
  cd_done :: "c_size \<Rightarrow> c_size"
  cd_prod :: "'a ce_pc"
  cd_pcs :: "nat \<Rightarrow> 'a cd_pc"
  published :: "'a list"
  taken_at :: "(nat \<times> 'a) list"
  passed :: "nat set"
  failed :: "nat set"
  given_back :: "c_size \<Rightarrow> nat"

abbreviation cd_goto :: "nat \<Rightarrow> 'a cd_pc \<Rightarrow> 'a cdq \<Rightarrow> 'a cdq" where
  "cd_goto t p s \<equiv> s\<lparr>cd_pcs := (cd_pcs s)(t := p)\<rparr>"

definition dequeue_step :: "nat \<Rightarrow> 'a cdq \<Rightarrow> 'a cdq" where
  "dequeue_step t s = (case cd_pcs s t of
     CD_idle \<Rightarrow> cd_goto t (CD_over (cd_tail s)) s
   | CD_over tail \<Rightarrow> cd_goto t (CD_opt tail (cd_overcommit s)) s
   | CD_opt tail overcommit \<Rightarrow>
       cd_goto t (if circular_less_than (cd_optimistic s - overcommit) tail then CD_claim overcommit else CD_got None) s
   | CD_claim overcommit \<Rightarrow>
       cd_goto t (if overcommit \<le> cd_optimistic s then CD_tail overcommit (cd_optimistic s) else CD_abort)
         (s\<lparr>cd_optimistic := cd_optimistic s + 1\<rparr>)
   | CD_tail overcommit my \<Rightarrow>
       if circular_less_than (my - overcommit) (cd_tail s)
       then cd_goto t (CD_head my) (s\<lparr>passed := insert (unat my) (passed s)\<rparr>)
       else cd_goto t (CD_giveup my) s
   | CD_head my \<Rightarrow> cd_goto t (CD_read (cd_head s)) (s\<lparr>cd_head := cd_head s + 1\<rparr>)
   | CD_read idx \<Rightarrow>
       cd_goto t (CD_empty idx (cd_elems s idx)) (s\<lparr>taken_at := taken_at s @ [(unat idx, cd_elems s idx)]\<rparr>)
   | CD_empty idx x \<Rightarrow>
       let b = idx div BLOCK_SIZE; prevVal = cd_done s b in
       cd_goto t (if prevVal = BLOCK_SIZE - 1 then CD_free b x else CD_got (Some x))
         (s\<lparr>cd_done := (cd_done s)(b := prevVal + 1)\<rparr>)
   | CD_free b x \<Rightarrow> cd_goto t (CD_got (Some x)) (s\<lparr>given_back := (given_back s)(b := Suc (given_back s b))\<rparr>)
   | CD_giveup my \<Rightarrow>
       cd_goto t (CD_got None)
         (s\<lparr>cd_overcommit := cd_overcommit s + 1, failed := insert (unat my) (failed s)\<rparr>)
   | CD_got r \<Rightarrow> cd_goto t CD_idle s
   | CD_abort \<Rightarrow> s)"

definition enqueue_step :: "'a cdq \<Rightarrow> 'a cdq" where
  "enqueue_step s = (case cd_prod s of
     CE_idle \<Rightarrow> s
   | CE_write x \<Rightarrow> s\<lparr>cd_elems := (cd_elems s)(cd_tail s := x), cd_prod := CE_publish x\<rparr>
   | CE_publish x \<Rightarrow> s\<lparr>cd_tail := 1 + cd_tail s, cd_prod := CE_idle, published := published s @ [x]\<rparr>)"

datatype 'a cd_event = CDEnqueue 'a | CDProduce | CDConsume nat

fun cdq_step :: "'a cd_event \<Rightarrow> 'a cdq \<Rightarrow> 'a cdq" where
  "cdq_step (CDEnqueue x) s = (case cd_prod s of CE_idle \<Rightarrow> s\<lparr>cd_prod := CE_write x\<rparr> | _ \<Rightarrow> s)"
| "cdq_step CDProduce s = enqueue_step s"
| "cdq_step (CDConsume t) s = dequeue_step t s"

definition cdq_new :: "(c_size \<Rightarrow> 'a) \<Rightarrow> 'a cdq" where
  "cdq_new raw = \<lparr>cd_tail = 0, cd_head = 0, cd_optimistic = 0, cd_overcommit = 0, cd_elems = raw, cd_done = (\<lambda>_. 0),
     cd_prod = CE_idle, cd_pcs = (\<lambda>_. CD_idle), published = [], taken_at = [], passed = {}, failed = {},
     given_back = (\<lambda>_. 0)\<rparr>"

section \<open>Tickets\<close>

text \<open>
  A ticket that passed its test had seen as many failures below it as it needed: so the tickets
  that pass are never more than the elements.
\<close>

definition justified :: "nat set \<Rightarrow> nat \<Rightarrow> nat \<Rightarrow> bool" where
  "justified F n m \<longleftrightarrow> m < card (F \<inter> {..<m}) + n"

lemma justified_mono:
  assumes "justified F n m" "F \<subseteq> F'" "n \<le> n'"
  shows "justified F' n' m"
proof -
  have "card (F \<inter> {..<m}) \<le> card (F' \<inter> {..<m})" using assms(2) by (intro card_mono) auto
  then show ?thesis using assms(1,3) by (simp add: justified_def)
qed

lemma passed_bound:
  assumes fin: "finite S" and dis: "S \<inter> F = {}" and j: "\<And>m. m \<in> S \<Longrightarrow> justified F n m"
  shows "card S \<le> n"
proof (cases "S = {}")
  case False
  let ?m = "Max S" and ?G = "F \<inter> {..<Max S}"
  have m: "?m \<in> S" using fin False by simp
  have "S \<subseteq> {..?m} - ?G" using fin dis by auto
  then have "card S \<le> card ({..?m} - ?G)" by (intro card_mono) auto
  also have "\<dots> = Suc ?m - card ?G" by (subst card_Diff_subset) auto
  finally show ?thesis using j [OF m] by (simp add: justified_def)
qed simp

section \<open>The invariant\<close>

text \<open>The ticket a thread holds undecided, the index it is to read, the block it has not left.\<close>

fun ticket :: "'a cd_pc \<Rightarrow> nat option" where
  "ticket (CD_tail v m) = Some (unat m)" | "ticket (CD_giveup m) = Some (unat m)" | "ticket _ = None"

fun at_head :: "'a cd_pc \<Rightarrow> int" where
  "at_head (CD_head m) = 1" | "at_head _ = 0"

fun reading :: "'a cd_pc \<Rightarrow> nat option" where
  "reading (CD_read idx) = Some (unat idx)" | "reading _ = None"

fun in_block :: "c_size \<Rightarrow> 'a cd_pc \<Rightarrow> int" where
  "in_block b (CD_read idx) = of_bool (idx div BLOCK_SIZE = b)"
| "in_block b (CD_empty idx x) = of_bool (idx div BLOCK_SIZE = b)" | "in_block b _ = 0"

fun freeing :: "c_size \<Rightarrow> 'a cd_pc \<Rightarrow> int" where
  "freeing b (CD_free c x) = of_bool (c = b)" | "freeing b _ = 0"

definition holds_ticket :: "'a cd_pc \<Rightarrow> int" where
  "holds_ticket p = of_bool (ticket p \<noteq> None)"

text \<open>What the locals of a consumer are worth when \<open>n\<close> elements are published, \<open>o\<close> tickets given and \<open>F\<close> failed.\<close>

fun cd_local :: "nat \<Rightarrow> nat \<Rightarrow> nat set \<Rightarrow> 'a cd_pc \<Rightarrow> bool" where
  "cd_local n k F (CD_over tail) = (unat tail \<le> n)"
| "cd_local n k F (CD_opt tail v) = (unat tail \<le> n \<and> unat v \<le> card F)"
| "cd_local n k F (CD_claim v) = (unat v \<le> card F)"
| "cd_local n k F (CD_tail v m) = (unat v \<le> card (F \<inter> {..<unat m}))"
| "cd_local n k F (CD_read idx) = (unat idx < k)"
| "cd_local n k F (CD_empty idx x) = (unat idx < k)"
| "cd_local n k F CD_abort = False"
| "cd_local n k F _ = True"

lemma cd_local_mono:
  assumes "cd_local n k F p" "n \<le> n'" "k \<le> k'" "F \<subseteq> F'" "finite F'"
  shows "cd_local n' k' F' p"
proof -
  have "card F \<le> card F'" "card (F \<inter> {..<m}) \<le> card (F' \<inter> {..<m})" for m using assms(4,5) by (auto intro!: card_mono)
  from this(1) this(2) [of "case p of CD_tail v m \<Rightarrow> unat m | _ \<Rightarrow> 0"] show ?thesis using assms(1-3) by (cases p) auto
qed

definition tickets_ok :: "nat \<Rightarrow> 'a cdq \<Rightarrow> bool" where
  "tickets_ok N s \<longleftrightarrow> passed s \<union> failed s \<subseteq> {..<unat (cd_optimistic s)} \<and> passed s \<inter> failed s = {} \<and>
     unat (cd_overcommit s) = card (failed s) \<and> (\<forall>m\<in>passed s. justified (failed s) (unat (cd_tail s)) m) \<and>
     int (unat (cd_optimistic s)) = int (card (passed s)) + int (card (failed s)) + (\<Sum>t<N. holds_ticket (cd_pcs s t)) \<and>
     (\<forall>t m. ticket (cd_pcs s t) = Some m \<longrightarrow> m < unat (cd_optimistic s) \<and> m \<notin> passed s \<and> m \<notin> failed s) \<and>
     (\<forall>t u m. ticket (cd_pcs s t) = Some m \<longrightarrow> ticket (cd_pcs s u) = Some m \<longrightarrow> t = u)"

definition claims_ok :: "nat \<Rightarrow> 'a cdq \<Rightarrow> bool" where
  "claims_ok N s \<longleftrightarrow> int (unat (cd_head s)) + (\<Sum>t<N. at_head (cd_pcs s t)) = int (card (passed s)) \<and>
     distinct (map fst (taken_at s)) \<and>
     (\<forall>t j. reading (cd_pcs s t) = Some j \<longrightarrow> j < unat (cd_head s) \<and> j \<notin> fst ` set (taken_at s)) \<and>
     (\<forall>t u j. reading (cd_pcs s t) = Some j \<longrightarrow> reading (cd_pcs s u) = Some j \<longrightarrow> t = u) \<and>
     (\<forall>j<unat (cd_head s). j \<in> fst ` set (taken_at s) \<or> (\<exists>t. reading (cd_pcs s t) = Some j)) \<and>
     (\<forall>j\<in>fst ` set (taken_at s). j < unat (cd_head s))"

definition elems_ok :: "'a cdq \<Rightarrow> bool" where
  "elems_ok s \<longleftrightarrow> length (published s) = unat (cd_tail s) \<and>
     (\<forall>j<length (published s). cd_elems s (of_nat j) = published s ! j) \<and>
     (\<forall>x. cd_prod s = CE_publish x \<longrightarrow> cd_elems s (cd_tail s) = x) \<and>
     (\<forall>(j, x)\<in>set (taken_at s). j < length (published s) \<and> published s ! j = x)"

definition blocks_ok :: "nat \<Rightarrow> 'a cdq \<Rightarrow> bool" where
  "blocks_ok N s \<longleftrightarrow> (\<forall>b. int (unat (cd_done s b)) + (\<Sum>t<N. in_block b (cd_pcs s t)) =
       int (card {j. j < unat (cd_head s) \<and> j div 32 = unat b}) \<and>
     int (given_back s b) + (\<Sum>t<N. freeing b (cd_pcs s t)) = of_bool (unat (cd_done s b) = 32))"

definition cd_inv :: "nat \<Rightarrow> nat \<Rightarrow> 'a cdq \<Rightarrow> bool" where
  "cd_inv N k s \<longleftrightarrow> tickets_ok N s \<and> claims_ok N s \<and> elems_ok s \<and> blocks_ok N s \<and>
     (\<forall>t. cd_local (unat (cd_tail s)) (unat (cd_head s)) (failed s) (cd_pcs s t)) \<and> (\<forall>t\<ge>N. cd_pcs s t = CD_idle) \<and>
     unat (cd_optimistic s) \<le> k \<and> unat (cd_tail s) \<le> k"

lemma cd_invD:
  assumes "cd_inv N k s"
  shows "tickets_ok N s" "claims_ok N s" "elems_ok s" "blocks_ok N s"
    "\<And>t. cd_local (unat (cd_tail s)) (unat (cd_head s)) (failed s) (cd_pcs s t)" "\<And>t. N \<le> t \<Longrightarrow> cd_pcs s t = CD_idle"
    "unat (cd_optimistic s) \<le> k" "unat (cd_tail s) \<le> k"
  using assms unfolding cd_inv_def by blast+

lemma tickets_okD:
  assumes "tickets_ok N s"
  shows "passed s \<subseteq> {..<unat (cd_optimistic s)}" "failed s \<subseteq> {..<unat (cd_optimistic s)}" "passed s \<inter> failed s = {}"
    "unat (cd_overcommit s) = card (failed s)" "\<And>m. m \<in> passed s \<Longrightarrow> justified (failed s) (unat (cd_tail s)) m"
    "int (unat (cd_optimistic s)) = int (card (passed s)) + int (card (failed s)) + (\<Sum>t<N. holds_ticket (cd_pcs s t))"
    "\<And>t m. ticket (cd_pcs s t) = Some m \<Longrightarrow> m < unat (cd_optimistic s)"
    "\<And>t m. ticket (cd_pcs s t) = Some m \<Longrightarrow> m \<notin> passed s" "\<And>t m. ticket (cd_pcs s t) = Some m \<Longrightarrow> m \<notin> failed s"
    "\<And>t u m. ticket (cd_pcs s t) = Some m \<Longrightarrow> ticket (cd_pcs s u) = Some m \<Longrightarrow> t = u"
    "finite (passed s)" "finite (failed s)"
proof -
  show F: "passed s \<subseteq> {..<unat (cd_optimistic s)}" "failed s \<subseteq> {..<unat (cd_optimistic s)}" using assms by (auto simp: tickets_ok_def)
  then show "finite (passed s)" "finite (failed s)" using finite_subset by blast+
qed (use assms in \<open>unfold tickets_ok_def, blast+\<close>)

lemma claims_okD:
  assumes "claims_ok N s"
  shows "int (unat (cd_head s)) + (\<Sum>t<N. at_head (cd_pcs s t)) = int (card (passed s))" "distinct (map fst (taken_at s))"
    "\<And>t j. reading (cd_pcs s t) = Some j \<Longrightarrow> j < unat (cd_head s)"
    "\<And>t j. reading (cd_pcs s t) = Some j \<Longrightarrow> j \<notin> fst ` set (taken_at s)"
    "\<And>t u j. reading (cd_pcs s t) = Some j \<Longrightarrow> reading (cd_pcs s u) = Some j \<Longrightarrow> t = u"
    "\<And>j. j < unat (cd_head s) \<Longrightarrow> j \<in> fst ` set (taken_at s) \<or> (\<exists>t. reading (cd_pcs s t) = Some j)"
    "\<And>j. j \<in> fst ` set (taken_at s) \<Longrightarrow> j < unat (cd_head s)"
  using assms unfolding claims_ok_def by blast+

lemma at_head_nonneg: "0 \<le> at_head p"
  by (cases p) auto

lemma in_block_nonneg: "0 \<le> in_block b p"
  by (cases p) auto

lemma freeing_nonneg: "0 \<le> freeing b p"
  by (cases p) auto

lemma head_le_passed:
  assumes "claims_ok N s"
  shows "unat (cd_head s) \<le> card (passed s)"
proof -
  have "0 \<le> (\<Sum>t<N. at_head (cd_pcs s t))" by (intro sum_nonneg at_head_nonneg)
  then show ?thesis using claims_okD(1) [OF assms] by linarith
qed

lemma passed_le_tail: "tickets_ok N s \<Longrightarrow> card (passed s) \<le> unat (cd_tail s)"
  using tickets_okD(3,5,11) [of N s] by (intro passed_bound) auto

text \<open>Steps that change the program point of one thread only, or keep what a part of the invariant sees.\<close>

lemma tickets_frame:
  assumes ok: "tickets_ok N s" and t: "t < N" and p: "ticket p = ticket (cd_pcs s t)"
    and s': "cd_pcs s' = (cd_pcs s)(t := p)" "cd_optimistic s' = cd_optimistic s" "cd_overcommit s' = cd_overcommit s"
      "passed s' = passed s" "failed s' = failed s" "cd_tail s' = cd_tail s"
  shows "tickets_ok N s'"
proof -
  have "ticket (cd_pcs s' u) = ticket (cd_pcs s u)" for u using p by (simp add: s'(1))
  then show ?thesis using ok unfolding tickets_ok_def s'(2-6) holds_ticket_def by simp
qed

lemma claims_frame:
  assumes ok: "claims_ok N s" and p: "at_head p = at_head (cd_pcs s t)" "reading p = reading (cd_pcs s t)"
    and s': "cd_pcs s' = (cd_pcs s)(t := p)" "cd_head s' = cd_head s" "passed s' = passed s" "taken_at s' = taken_at s"
  shows "claims_ok N s'"
proof -
  have "at_head (cd_pcs s' u) = at_head (cd_pcs s u)" "reading (cd_pcs s' u) = reading (cd_pcs s u)" for u
    using p by (simp_all add: s'(1))
  then show ?thesis using ok unfolding claims_ok_def s'(2-4) by simp
qed

lemma blocks_frame:
  assumes ok: "blocks_ok N s" and p: "\<And>b. in_block b p = in_block b (cd_pcs s t)" "\<And>b. freeing b p = freeing b (cd_pcs s t)"
    and s': "cd_pcs s' = (cd_pcs s)(t := p)" "cd_head s' = cd_head s" "cd_done s' = cd_done s" "given_back s' = given_back s"
  shows "blocks_ok N s'"
proof -
  have "in_block b (cd_pcs s' u) = in_block b (cd_pcs s u)" "freeing b (cd_pcs s' u) = freeing b (cd_pcs s u)" for b u
    using p by (simp_all add: s'(1))
  then show ?thesis using ok unfolding blocks_ok_def s'(2-4) by simp
qed

lemma elems_frame:
  assumes "elems_ok s" "published s' = published s" "cd_tail s' = cd_tail s" "cd_elems s' = cd_elems s" "cd_prod s' = cd_prod s"
    "taken_at s' = taken_at s"
  shows "elems_ok s'"
  using assms(1) unfolding elems_ok_def assms(2-6) .

lemma locals_frame:
  assumes inv: "cd_inv N k s" and p: "cd_local (unat (cd_tail s')) (unat (cd_head s')) (failed s') p"
    and s': "cd_pcs s' = (cd_pcs s)(t := p)" "cd_tail s' = cd_tail s" "unat (cd_head s) \<le> unat (cd_head s')"
      "failed s \<subseteq> failed s'" "finite (failed s')"
  shows "cd_local (unat (cd_tail s')) (unat (cd_head s')) (failed s') (cd_pcs s' u)"
  using cd_local_mono [OF cd_invD(5) [OF inv, of u] order_refl s'(3-5)] p by (cases "u = t") (simp_all add: s'(1,2))

text \<open>The points at which a thread only looks.\<close>

fun plain :: "'a cd_pc \<Rightarrow> bool" where
  "plain CD_idle = True" | "plain (CD_over x) = True" | "plain (CD_opt x y) = True" | "plain (CD_claim x) = True"
| "plain (CD_got r) = True" | "plain _ = False"

lemma plainD:
  assumes "plain p"
  shows "ticket p = None" "at_head p = 0" "reading p = None" "in_block b p = 0" "freeing b p = 0"
  using assms by (cases p; simp)+

lemma cd_inv_plain:
  assumes inv: "cd_inv N k s" and t: "t < N" and pl: "plain p" "plain (cd_pcs s t)"
    and p: "cd_local (unat (cd_tail s)) (unat (cd_head s)) (failed s) p"
  shows "cd_inv N (Suc k) (cd_goto t p s)"
proof -
  note D = cd_invD [OF inv] and P = plainD [OF pl(1)] plainD [OF pl(2)]
  have "tickets_ok N (cd_goto t p s)" by (rule tickets_frame [OF D(1) t]) (simp_all add: P)
  moreover have "claims_ok N (cd_goto t p s)" by (rule claims_frame [OF D(2)]) (simp_all add: P)
  moreover have "blocks_ok N (cd_goto t p s)" by (rule blocks_frame [OF D(4)]) (simp_all add: P)
  moreover have "elems_ok (cd_goto t p s)" by (rule elems_frame [OF D(3)]) simp_all
  ultimately show ?thesis unfolding cd_inv_def using D(5-8) p t by auto
qed

lemma unat_add1: "unat w < 2 ^ 63 \<Longrightarrow> unat (w + 1) = Suc (unat (w :: c_size))" "unat w < 2 ^ 63 \<Longrightarrow> unat (1 + w) = Suc (unat w)"
  by (simp_all add: unat_word_ariths)

lemma failed_le: "tickets_ok N s \<Longrightarrow> card (failed s) \<le> unat (cd_optimistic s)"
  using card_mono [OF finite_lessThan tickets_okD(2), of N s] by simp

lemma cd_inv_claim:
  assumes inv: "cd_inv N k s" and k: "k < 2 ^ 63" and t: "t < N" and pc: "cd_pcs s t = CD_claim v"
  shows "cd_inv N (Suc k) (dequeue_step t s)"
proof -
  note D = cd_invD [OF inv] and T = tickets_okD [OF cd_invD(1) [OF inv]]
  let ?o = "cd_optimistic s"
  have o: "unat (?o + 1) = Suc (unat ?o)" by (rule unat_add1) (use D(7) k in simp)
  have v: "unat v \<le> card (failed s)" using D(5) [of t] pc by simp
  then have "v \<le> ?o" using failed_le [OF D(1)] by (simp add: word_le_nat_alt)
  then have s': "dequeue_step t s = cd_goto t (CD_tail v ?o) (s\<lparr>cd_optimistic := ?o + 1\<rparr>)" (is "_ = ?s")
    using pc by (simp add: dequeue_step_def)
  have new: "unat ?o \<notin> passed s" "unat ?o \<notin> failed s" "ticket (cd_pcs s u) \<noteq> Some (unat ?o)" for u
    using T(1,2) T(7) [of u "unat ?o"] by auto
  have old: "ticket (cd_pcs s u) = Some m \<Longrightarrow> m < Suc (unat ?o)" for u m using T(7) [of u m] by simp
  have "tickets_ok N ?s" unfolding tickets_ok_def
  proof (intro conjI)
    show "int (unat (cd_optimistic ?s)) = int (card (passed ?s)) + int (card (failed ?s)) + (\<Sum>u<N. holds_ticket (cd_pcs ?s u))"
      using T(6) sum_fun_upd [OF t, of holds_ticket "cd_pcs s" "CD_tail v ?o"] pc o by (simp add: holds_ticket_def)
    show "\<forall>u m. ticket (cd_pcs ?s u) = Some m \<longrightarrow> m < unat (cd_optimistic ?s) \<and> m \<notin> passed ?s \<and> m \<notin> failed ?s"
      using T(8,9) old new(1,2) o by simp
    show "\<forall>u w m. ticket (cd_pcs ?s u) = Some m \<longrightarrow> ticket (cd_pcs ?s w) = Some m \<longrightarrow> u = w"
      using T(10) new(3) by auto
  qed (use T o in auto)
  moreover have "claims_ok N ?s" by (rule claims_frame [OF D(2)]) (simp_all add: pc)
  moreover have "blocks_ok N ?s" by (rule blocks_frame [OF D(4)]) (simp_all add: pc)
  moreover have "elems_ok ?s" by (rule elems_frame [OF D(3)]) simp_all
  moreover have "failed s \<inter> {..<unat ?o} = failed s" using T(2) by blast
  then have "cd_local (unat (cd_tail ?s)) (unat (cd_head ?s)) (failed ?s) (cd_pcs ?s u)" for u
    by (intro locals_frame [OF inv]) (use T(12) v in simp_all)
  ultimately show ?thesis unfolding s' cd_inv_def using D(6-8) t o by auto
qed

text \<open>The second test of \<open>dequeue\<close>, on counters below \<open>2 ^ 63\<close>.\<close>

lemma circular_less_than_small:
  assumes "unat v \<le> unat m" "unat m < 2 ^ 63" "unat n < 2 ^ 63"
  shows "circular_less_than (m - v) n \<longleftrightarrow> unat m - unat v < unat n"
proof -
  have e: "m - v = of_nat (unat m - unat v)" "n = of_nat (unat n)"
    using assms(1) by (simp_all add: of_nat_diff)
  show ?thesis
  proof (cases "unat m - unat v \<le> unat n")
    case True
    then show ?thesis using circular_less_than_of_nat [OF True] assms(3) unfolding e(1) by auto
  next
    case False
    then show ?thesis using not_circular_less_than [of "unat n" "unat m - unat v"] assms(2) unfolding e(1) by simp
  qed
qed

lemma local_overcommit:
  assumes "unat v \<le> card (F \<inter> {..<unat m})"
  shows "unat v \<le> unat m"
  using assms card_mono [of "{..<unat m}" "F \<inter> {..<unat m}"] by simp

lemma cd_inv_pass:
  assumes inv: "cd_inv N k s" and k: "k < 2 ^ 63" and t: "t < N" and pc: "cd_pcs s t = CD_tail v my"
  shows "cd_inv N (Suc k) (dequeue_step t s)"
proof -
  note D = cd_invD [OF inv] and T = tickets_okD [OF cd_invD(1) [OF inv]]
  have v: "unat v \<le> card (failed s \<inter> {..<unat my})" using D(5) [of t] pc by simp
  have m: "unat my < unat (cd_optimistic s)" "unat my \<notin> passed s" "unat my \<notin> failed s"
    using T(7-9) [of t] pc by simp_all
  have test: "circular_less_than (my - v) (cd_tail s) \<longleftrightarrow> unat my - unat v < unat (cd_tail s)"
    using circular_less_than_small [OF local_overcommit [OF v]] m(1) D(7,8) k by simp
  show ?thesis
  proof (cases "circular_less_than (my - v) (cd_tail s)")
    case False
    then have s': "dequeue_step t s = cd_goto t (CD_giveup my) s" (is "_ = ?s") using pc by (simp add: dequeue_step_def)
    have "tickets_ok N ?s" by (rule tickets_frame [OF D(1) t]) (simp_all add: pc)
    moreover have "claims_ok N ?s" by (rule claims_frame [OF D(2)]) (simp_all add: pc)
    moreover have "blocks_ok N ?s" by (rule blocks_frame [OF D(4)]) (simp_all add: pc)
    moreover have "elems_ok ?s" by (rule elems_frame [OF D(3)]) simp_all
    ultimately show ?thesis unfolding s' cd_inv_def using D(5-8) t by auto
  next
    case True
    then have just: "justified (failed s) (unat (cd_tail s)) (unat my)" using test v by (simp add: justified_def)
    have s': "dequeue_step t s = cd_goto t (CD_head my) (s\<lparr>passed := insert (unat my) (passed s)\<rparr>)" (is "_ = ?s")
      using pc True by (simp add: dequeue_step_def)
    have other: "ticket (cd_pcs s u) = Some x \<Longrightarrow> u \<noteq> t \<Longrightarrow> x \<noteq> unat my" for u x using T(10) [of u x t] pc by auto
    have c: "card (passed ?s) = Suc (card (passed s))" using T(11) m(2) by simp
    have "tickets_ok N ?s" unfolding tickets_ok_def
    proof (intro conjI)
      show "int (unat (cd_optimistic ?s)) = int (card (passed ?s)) + int (card (failed ?s)) + (\<Sum>u<N. holds_ticket (cd_pcs ?s u))"
        unfolding c using T(6) sum_fun_upd [OF t, of holds_ticket "cd_pcs s" "CD_head my"] pc by (simp add: holds_ticket_def)
      show "\<forall>u x. ticket (cd_pcs ?s u) = Some x \<longrightarrow> x < unat (cd_optimistic ?s) \<and> x \<notin> passed ?s \<and> x \<notin> failed ?s"
        using T(7-9) other by simp
      show "\<forall>u w x. ticket (cd_pcs ?s u) = Some x \<longrightarrow> ticket (cd_pcs ?s w) = Some x \<longrightarrow> u = w" using T(10) by simp
    qed (use T m just in auto)
    moreover have "claims_ok N ?s" unfolding claims_ok_def
    proof (intro conjI)
      show "int (unat (cd_head ?s)) + (\<Sum>u<N. at_head (cd_pcs ?s u)) = int (card (passed ?s))"
        unfolding c using claims_okD(1) [OF D(2)] sum_fun_upd [OF t, of at_head "cd_pcs s" "CD_head my"] pc by simp
      have "reading (cd_pcs ?s u) = reading (cd_pcs s u)" for u using pc by simp
      then show "\<forall>j<unat (cd_head ?s). j \<in> fst ` set (taken_at ?s) \<or> (\<exists>u. reading (cd_pcs ?s u) = Some j)"
        using claims_okD(6) [OF D(2)] by simp
    qed (use claims_okD [OF D(2)] in auto)
    moreover have "blocks_ok N ?s" by (rule blocks_frame [OF D(4)]) (simp_all add: pc)
    moreover have "elems_ok ?s" by (rule elems_frame [OF D(3)]) simp_all
    ultimately show ?thesis unfolding s' cd_inv_def using D(5-8) t by auto
  qed
qed

lemma cd_inv_giveup:
  assumes inv: "cd_inv N k s" and k: "k < 2 ^ 63" and t: "t < N" and pc: "cd_pcs s t = CD_giveup my"
  shows "cd_inv N (Suc k) (dequeue_step t s)"
proof -
  note D = cd_invD [OF inv] and T = tickets_okD [OF cd_invD(1) [OF inv]]
  have m: "unat my < unat (cd_optimistic s)" "unat my \<notin> passed s" "unat my \<notin> failed s"
    using T(7-9) [of t] pc by simp_all
  have s': "dequeue_step t s = cd_goto t (CD_got None)
      (s\<lparr>cd_overcommit := cd_overcommit s + 1, failed := insert (unat my) (failed s)\<rparr>)" (is "_ = ?s")
    using pc by (simp add: dequeue_step_def)
  have c: "card (failed ?s) = Suc (card (failed s))" using T(12) m(3) by simp
  have o: "unat (cd_overcommit s + 1) = Suc (unat (cd_overcommit s))"
    by (rule unat_add1) (use T(4) failed_le [OF D(1)] D(7) k in simp)
  have other: "ticket (cd_pcs s u) = Some x \<Longrightarrow> u \<noteq> t \<Longrightarrow> x \<noteq> unat my" for u x using T(10) [of u x t] pc by auto
  have "tickets_ok N ?s" unfolding tickets_ok_def
  proof (intro conjI)
    show "int (unat (cd_optimistic ?s)) = int (card (passed ?s)) + int (card (failed ?s)) + (\<Sum>u<N. holds_ticket (cd_pcs ?s u))"
      unfolding c using T(6) sum_fun_upd [OF t, of holds_ticket "cd_pcs s" "CD_got None"] pc by (simp add: holds_ticket_def)
    show "\<forall>u x. ticket (cd_pcs ?s u) = Some x \<longrightarrow> x < unat (cd_optimistic ?s) \<and> x \<notin> passed ?s \<and> x \<notin> failed ?s"
      using T(7-9) other by simp
    show "\<forall>u w x. ticket (cd_pcs ?s u) = Some x \<longrightarrow> ticket (cd_pcs ?s w) = Some x \<longrightarrow> u = w" using T(10) by simp
    show "\<forall>x\<in>passed ?s. justified (failed ?s) (unat (cd_tail ?s)) x"
      using T(5) justified_mono [OF _ subset_insertI order_refl] by simp
    show "unat (cd_overcommit ?s) = card (failed ?s)" unfolding c using o T(4) by simp
  qed (use T(1-3) m in auto)
  moreover have "claims_ok N ?s" by (rule claims_frame [OF D(2)]) (simp_all add: pc)
  moreover have "blocks_ok N ?s" by (rule blocks_frame [OF D(4)]) (simp_all add: pc)
  moreover have "elems_ok ?s" by (rule elems_frame [OF D(3)]) simp_all
  moreover have "cd_local (unat (cd_tail ?s)) (unat (cd_head ?s)) (failed ?s) (cd_pcs ?s u)" for u
    by (rule locals_frame [OF inv]) (use T(12) in auto)
  ultimately show ?thesis unfolding s' cd_inv_def using D(6-8) t by auto
qed

text \<open>Claiming an index: it is below the tail.\<close>

lemma head_lt_tail:
  assumes inv: "cd_inv N k s" and t: "t < N" and pc: "cd_pcs s t = CD_head my"
  shows "unat (cd_head s) < unat (cd_tail s)"
proof -
  note D = cd_invD [OF inv]
  have "0 < (\<Sum>u<N. at_head (cd_pcs s u))" using t pc at_head_nonneg by (intro sum_pos2 [of _ t]) auto
  then have "unat (cd_head s) < card (passed s)" using claims_okD(1) [OF D(2)] by linarith
  then show ?thesis using passed_le_tail [OF D(1)] by simp
qed

lemma block_number: "unat (w div BLOCK_SIZE) = unat w div 32"
  by (simp add: unat_div BLOCK_SIZE_def)

lemma block_eq_iff: "w div BLOCK_SIZE = b \<longleftrightarrow> unat w div 32 = unat b"
  by (metis block_number word_unat_eq_iff)

lemma card_block_Suc:
  "card {j. j < Suc n \<and> j div 32 = b} = card {j. j < n \<and> j div 32 = b} + of_bool (n div 32 = b)"
proof -
  have "{j. j < Suc n \<and> j div 32 = b} = (if n div 32 = b then insert n {j. j < n \<and> j div 32 = b} else {j. j < n \<and> j div 32 = b})"
    by (auto simp: less_Suc_eq)
  then show ?thesis by simp
qed

lemma card_block_le: "card {j :: nat. j < n \<and> j div 32 = b} \<le> 32"
proof -
  have "{j. j < n \<and> j div 32 = b} \<subseteq> {32 * b..<32 * b + 32}" by auto
  from card_mono [OF _ this] show ?thesis by simp
qed

lemma cd_inv_head:
  assumes inv: "cd_inv N k s" and k: "k < 2 ^ 63" and t: "t < N" and pc: "cd_pcs s t = CD_head my"
  shows "cd_inv N (Suc k) (dequeue_step t s)"
proof -
  note D = cd_invD [OF inv] and C = claims_okD [OF cd_invD(2) [OF inv]]
  let ?h = "cd_head s"
  have lt: "unat ?h < unat (cd_tail s)" by (rule head_lt_tail [OF inv t pc])
  have h: "unat (?h + 1) = Suc (unat ?h)" by (rule unat_add1) (use lt D(8) k in simp)
  have s': "dequeue_step t s = cd_goto t (CD_read ?h) (s\<lparr>cd_head := ?h + 1\<rparr>)" (is "_ = ?s")
    using pc by (simp add: dequeue_step_def)
  have rd: "reading (cd_pcs ?s u) = (if u = t then Some (unat ?h) else reading (cd_pcs s u))" for u by simp
  have new: "unat ?h \<notin> fst ` set (taken_at s)" "reading (cd_pcs s u) \<noteq> Some (unat ?h)" for u
    using C(7) [of "unat ?h"] C(3) [of u "unat ?h"] by auto
  have "tickets_ok N ?s" by (rule tickets_frame [OF D(1) t]) (simp_all add: pc)
  moreover have "claims_ok N ?s" unfolding claims_ok_def rd
  proof (intro conjI)
    show "int (unat (cd_head ?s)) + (\<Sum>u<N. at_head (cd_pcs ?s u)) = int (card (passed ?s))"
      using C(1) sum_fun_upd [OF t, of at_head "cd_pcs s" "CD_read ?h"] pc h by simp
    show "\<forall>u j. (if u = t then Some (unat ?h) else reading (cd_pcs s u)) = Some j \<longrightarrow>
        j < unat (cd_head ?s) \<and> j \<notin> fst ` set (taken_at ?s)"
      using C(3,4) new(1) h by (auto simp: less_Suc_eq)
    show "\<forall>u w j. (if u = t then Some (unat ?h) else reading (cd_pcs s u)) = Some j \<longrightarrow>
        (if w = t then Some (unat ?h) else reading (cd_pcs s w)) = Some j \<longrightarrow> u = w"
      using C(5) new(2) by auto
    show "\<forall>j<unat (cd_head ?s). j \<in> fst ` set (taken_at ?s) \<or>
        (\<exists>u. (if u = t then Some (unat ?h) else reading (cd_pcs s u)) = Some j)"
    proof (intro allI impI)
      fix j assume "j < unat (cd_head ?s)"
      then consider "j = unat ?h" | "j \<in> fst ` set (taken_at s)" | u where "reading (cd_pcs s u) = Some j"
        using C(6) [of j] h by (auto simp: less_Suc_eq)
      then show "j \<in> fst ` set (taken_at ?s) \<or> (\<exists>u. (if u = t then Some (unat ?h) else reading (cd_pcs s u)) = Some j)"
      proof cases
        case 3
        then have "u \<noteq> t" using pc by auto
        then have "(if u = t then Some (unat ?h) else reading (cd_pcs s u)) = Some j" using 3 by simp
        then show ?thesis by blast
      qed auto
    qed
    show "\<forall>j\<in>fst ` set (taken_at ?s). j < unat (cd_head ?s)" using C(7) h by (auto simp: less_Suc_eq)
  qed (use C(2) in simp)
  moreover have "elems_ok ?s" by (rule elems_frame [OF D(3)]) simp_all
  moreover have "blocks_ok N ?s" unfolding blocks_ok_def
  proof (intro allI conjI)
    fix b
    show "int (unat (cd_done ?s b)) + (\<Sum>u<N. in_block b (cd_pcs ?s u)) =
        int (card {j. j < unat (cd_head ?s) \<and> j div 32 = unat b})"
      using D(4) sum_fun_upd [OF t, of "in_block b" "cd_pcs s" "CD_read ?h"] pc h card_block_Suc [of "unat ?h" "unat b"]
      unfolding blocks_ok_def by (simp add: block_eq_iff)
    show "int (given_back ?s b) + (\<Sum>u<N. freeing b (cd_pcs ?s u)) = of_bool (unat (cd_done ?s b) = 32)"
      using D(4) sum_fun_upd [OF t, of "freeing b" "cd_pcs s" "CD_read ?h"] pc unfolding blocks_ok_def by simp
  qed
  moreover have "cd_local (unat (cd_tail ?s)) (unat (cd_head ?s)) (failed ?s) (cd_pcs ?s u)" for u
    by (rule locals_frame [OF inv]) (use tickets_okD(12) [OF D(1)] h in auto)
  ultimately show ?thesis unfolding s' cd_inv_def using D(6-8) t by auto
qed

lemma elem_at:
  assumes ok: "elems_ok s" and i: "unat idx < unat (cd_tail s)"
  shows "cd_elems s idx = published s ! unat idx"
proof -
  have "cd_elems s (of_nat (unat idx)) = published s ! unat idx" using ok i unfolding elems_ok_def by metis
  then show ?thesis by simp
qed

lemma cd_inv_read:
  assumes inv: "cd_inv N k s" and t: "t < N" and pc: "cd_pcs s t = CD_read idx"
  shows "cd_inv N (Suc k) (dequeue_step t s)"
proof -
  note D = cd_invD [OF inv] and C = claims_okD [OF cd_invD(2) [OF inv]]
  let ?x = "cd_elems s idx"
  have s': "dequeue_step t s = cd_goto t (CD_empty idx ?x) (s\<lparr>taken_at := taken_at s @ [(unat idx, ?x)]\<rparr>)" (is "_ = ?s")
    using pc by (simp add: dequeue_step_def)
  have i: "unat idx < unat (cd_head s)" "unat idx \<notin> fst ` set (taken_at s)" using C(3,4) [of t] pc by simp_all
  have rd: "reading (cd_pcs ?s u) = (if u = t then None else reading (cd_pcs s u))" for u by simp
  have lt: "unat idx < unat (cd_tail s)" using i(1) head_le_passed [OF D(2)] passed_le_tail [OF D(1)] by simp
  have "tickets_ok N ?s" by (rule tickets_frame [OF D(1) t]) (simp_all add: pc)
  moreover have "claims_ok N ?s" unfolding claims_ok_def rd
  proof (intro conjI)
    show "int (unat (cd_head ?s)) + (\<Sum>u<N. at_head (cd_pcs ?s u)) = int (card (passed ?s))"
      using C(1) sum_fun_upd [OF t, of at_head "cd_pcs s" "CD_empty idx ?x"] pc by simp
    show "distinct (map fst (taken_at ?s))" using C(2) i(2) by simp
    show "\<forall>u j. (if u = t then None else reading (cd_pcs s u)) = Some j \<longrightarrow> j < unat (cd_head ?s) \<and> j \<notin> fst ` set (taken_at ?s)"
    proof (intro allI impI)
      fix u j assume "(if u = t then None else reading (cd_pcs s u)) = Some j"
      then have u: "u \<noteq> t" "reading (cd_pcs s u) = Some j" by (auto split: if_splits)
      then have "j \<noteq> unat idx" using C(5) [of u j t] pc by auto
      then show "j < unat (cd_head ?s) \<and> j \<notin> fst ` set (taken_at ?s)" using C(3,4) [OF u(2)] by simp
    qed
    show "\<forall>u w j. (if u = t then None else reading (cd_pcs s u)) = Some j \<longrightarrow>
        (if w = t then None else reading (cd_pcs s w)) = Some j \<longrightarrow> u = w"
      using C(5) by auto
    show "\<forall>j<unat (cd_head ?s). j \<in> fst ` set (taken_at ?s) \<or> (\<exists>u. (if u = t then None else reading (cd_pcs s u)) = Some j)"
    proof (intro allI impI)
      fix j assume "j < unat (cd_head ?s)"
      then have "j \<in> fst ` set (taken_at s) \<or> (\<exists>u. reading (cd_pcs s u) = Some j)" using C(6) by simp
      then show "j \<in> fst ` set (taken_at ?s) \<or> (\<exists>u. (if u = t then None else reading (cd_pcs s u)) = Some j)"
      proof
        assume "\<exists>u. reading (cd_pcs s u) = Some j"
        then obtain u where u: "reading (cd_pcs s u) = Some j" ..
        show ?thesis
        proof (cases "u = t")
          case True
          then show ?thesis using u pc by simp
        next
          case False
          then have "(if u = t then None else reading (cd_pcs s u)) = Some j" using u by simp
          then show ?thesis by blast
        qed
      qed simp
    qed
    show "\<forall>j\<in>fst ` set (taken_at ?s). j < unat (cd_head ?s)" using C(7) i(1) by auto
  qed
  moreover have "elems_ok ?s"
    using D(3) elem_at [OF D(3) lt] lt unfolding elems_ok_def by auto
  moreover have "blocks_ok N ?s" by (rule blocks_frame [OF D(4)]) (simp_all add: pc)
  moreover have "cd_local (unat (cd_tail ?s)) (unat (cd_head ?s)) (failed ?s) (cd_pcs ?s u)" for u
    using D(5) [of u] i(1) by simp
  ultimately show ?thesis unfolding s' cd_inv_def using D(6-8) t by auto
qed

lemma blocks_okD:
  assumes "blocks_ok N s"
  shows "int (unat (cd_done s b)) + (\<Sum>t<N. in_block b (cd_pcs s t)) = int (card {j. j < unat (cd_head s) \<and> j div 32 = unat b})"
    "int (given_back s b) + (\<Sum>t<N. freeing b (cd_pcs s t)) = of_bool (unat (cd_done s b) = 32)"
  using assms unfolding blocks_ok_def by blast+

text \<open>A consumer that has not left a block keeps it from being full of finished elements.\<close>

lemma block_in_use:
  assumes ok: "blocks_ok N s" and t: "t < N" and b: "in_block b (cd_pcs s t) = 1"
  shows "unat (cd_done s b) < 32"
proof -
  have "0 < (\<Sum>u<N. in_block b (cd_pcs s u))" using t b in_block_nonneg by (intro sum_pos2 [of _ t]) auto
  then show ?thesis using blocks_okD(1) [OF ok, of b] card_block_le [of "unat (cd_head s)" "unat b"] by linarith
qed

lemma cd_inv_empty:
  assumes inv: "cd_inv N k s" and t: "t < N" and pc: "cd_pcs s t = CD_empty idx x"
  shows "cd_inv N (Suc k) (dequeue_step t s)"
proof -
  note D = cd_invD [OF inv] and B = blocks_okD [OF cd_invD(4) [OF inv]]
  let ?b = "idx div BLOCK_SIZE"
  let ?p = "if cd_done s ?b = BLOCK_SIZE - 1 then CD_free ?b x else CD_got (Some x)"
  have s': "dequeue_step t s = cd_goto t ?p (s\<lparr>cd_done := (cd_done s)(?b := cd_done s ?b + 1)\<rparr>)" (is "_ = ?s")
    using pc by (simp add: dequeue_step_def Let_def)
  have use: "unat (cd_done s ?b) < 32" by (rule block_in_use [OF D(4) t]) (simp add: pc)
  then have d: "unat (cd_done s ?b + 1) = Suc (unat (cd_done s ?b))" by (intro unat_add1) simp
  have last: "cd_done s ?b = BLOCK_SIZE - 1 \<longleftrightarrow> unat (cd_done s ?b) = 31"
    by (simp add: word_unat_eq_iff BLOCK_SIZE_def)
  have none: "ticket ?p = None" "at_head ?p = 0" "reading ?p = None" "in_block c ?p = 0" for c by simp_all
  have fr: "freeing c ?p = of_bool (c = ?b \<and> unat (cd_done s ?b) = 31)" for c using last by auto
  have "tickets_ok N ?s" by (rule tickets_frame [OF D(1) t]) (simp_all add: pc)
  moreover have "claims_ok N ?s" by (rule claims_frame [OF D(2)]) (simp_all add: pc)
  moreover have "elems_ok ?s" by (rule elems_frame [OF D(3)]) simp_all
  moreover have "blocks_ok N ?s" unfolding blocks_ok_def
  proof (intro allI conjI)
    fix c
    have "in_block c (cd_pcs s t) = of_bool (c = ?b)" using pc by auto
    then have sm: "(\<Sum>u<N. in_block c (cd_pcs ?s u)) = (\<Sum>u<N. in_block c (cd_pcs s u)) - of_bool (c = ?b)"
      using sum_fun_upd [OF t, of "in_block c" "cd_pcs s" ?p] none(4) [of c] by simp
    have dn: "unat (cd_done ?s c) = unat (cd_done s c) + of_bool (c = ?b)" using d by simp
    show "int (unat (cd_done ?s c)) + (\<Sum>u<N. in_block c (cd_pcs ?s u)) =
        int (card {j. j < unat (cd_head ?s) \<and> j div 32 = unat c})"
      unfolding sm dn using B(1) [of c] by simp
    have "freeing c (cd_pcs s t) = 0" using pc by simp
    then show "int (given_back ?s c) + (\<Sum>u<N. freeing c (cd_pcs ?s u)) = of_bool (unat (cd_done ?s c) = 32)"
      using B(2) [of c] sum_fun_upd [OF t, of "freeing c" "cd_pcs s" ?p] d use fr [of c] by auto
  qed
  moreover have "cd_local (unat (cd_tail ?s)) (unat (cd_head ?s)) (failed ?s) (cd_pcs ?s u)" for u
    using D(5) [of u] by simp
  ultimately show ?thesis unfolding s' cd_inv_def using D(6-8) t by auto
qed

lemma cd_inv_free:
  assumes inv: "cd_inv N k s" and t: "t < N" and pc: "cd_pcs s t = CD_free b x"
  shows "cd_inv N (Suc k) (dequeue_step t s)"
proof -
  note D = cd_invD [OF inv] and B = blocks_okD [OF cd_invD(4) [OF inv]]
  have s': "dequeue_step t s = cd_goto t (CD_got (Some x)) (s\<lparr>given_back := (given_back s)(b := Suc (given_back s b))\<rparr>)" (is "_ = ?s")
    using pc by (simp add: dequeue_step_def)
  have "tickets_ok N ?s" by (rule tickets_frame [OF D(1) t]) (simp_all add: pc)
  moreover have "claims_ok N ?s" by (rule claims_frame [OF D(2)]) (simp_all add: pc)
  moreover have "elems_ok ?s" by (rule elems_frame [OF D(3)]) simp_all
  moreover have "blocks_ok N ?s" unfolding blocks_ok_def
  proof (intro allI conjI)
    fix c
    show "int (unat (cd_done ?s c)) + (\<Sum>u<N. in_block c (cd_pcs ?s u)) =
        int (card {j. j < unat (cd_head ?s) \<and> j div 32 = unat c})"
      using B(1) [of c] sum_fun_upd [OF t, of "in_block c" "cd_pcs s" "CD_got (Some x)"] pc by simp
    show "int (given_back ?s c) + (\<Sum>u<N. freeing c (cd_pcs ?s u)) = of_bool (unat (cd_done ?s c) = 32)"
      using B(2) [of c] sum_fun_upd [OF t, of "freeing c" "cd_pcs s" "CD_got (Some x)"] pc by auto
  qed
  moreover have "cd_local (unat (cd_tail ?s)) (unat (cd_head ?s)) (failed ?s) (cd_pcs ?s u)" for u
    using D(5) [of u] by simp
  ultimately show ?thesis unfolding s' cd_inv_def using D(6-8) t by auto
qed

lemma cd_inv_dequeue:
  assumes inv: "cd_inv N k s" and k: "k < 2 ^ 63" and t: "t < N"
  shows "cd_inv N (Suc k) (dequeue_step t s)"
proof -
  note D = cd_invD [OF inv] and P = cd_inv_plain [OF inv t]
  have S: "dequeue_step t s = cd_goto t p s \<Longrightarrow> plain p \<Longrightarrow> plain (cd_pcs s t) \<Longrightarrow>
      cd_local (unat (cd_tail s)) (unat (cd_head s)) (failed s) p \<Longrightarrow> ?thesis" for p using P [of p] by simp
  show ?thesis
  proof (cases "cd_pcs s t")
    case CD_idle
    then show ?thesis by (intro S [of "CD_over (cd_tail s)"]) (simp_all add: dequeue_step_def)
  next
    case (CD_over tl)
    then show ?thesis using D(5) [of t] tickets_okD(4) [OF D(1)]
      by (intro S [of "CD_opt tl (cd_overcommit s)"]) (simp_all add: dequeue_step_def)
  next
    case (CD_opt tl v)
    then show ?thesis using D(5) [of t]
      by (intro S [of "if circular_less_than (cd_optimistic s - v) tl then CD_claim v else CD_got None"])
        (simp_all add: dequeue_step_def)
  next
    case (CD_got r)
    then show ?thesis by (intro S [of CD_idle]) (simp_all add: dequeue_step_def)
  next
    case CD_abort
    then show ?thesis using D(5) [of t] by simp
  qed (use cd_inv_claim [OF inv k t] cd_inv_pass [OF inv k t] cd_inv_head [OF inv k t] cd_inv_read [OF inv t]
      cd_inv_empty [OF inv t] cd_inv_free [OF inv t] cd_inv_giveup [OF inv k t] in simp_all)
qed

lemma elems_okD:
  assumes "elems_ok s"
  shows "length (published s) = unat (cd_tail s)" "\<And>j. j < unat (cd_tail s) \<Longrightarrow> cd_elems s (of_nat j) = published s ! j"
    "\<And>x. cd_prod s = CE_publish x \<Longrightarrow> cd_elems s (cd_tail s) = x"
    "\<And>j x. (j, x) \<in> set (taken_at s) \<Longrightarrow> j < unat (cd_tail s) \<and> published s ! j = x"
proof -
  note E = assms [unfolded elems_ok_def]
  show l: "length (published s) = unat (cd_tail s)" using E by (elim conjE)
  have a: "\<forall>j<length (published s). cd_elems s (of_nat j) = published s ! j" using E by (elim conjE)
  have f: "\<forall>(j, x)\<in>set (taken_at s). j < length (published s) \<and> published s ! j = x" using E by (elim conjE)
  have c: "\<forall>x. cd_prod s = CE_publish x \<longrightarrow> cd_elems s (cd_tail s) = x" using E by (elim conjE)
  show "\<And>j. j < unat (cd_tail s) \<Longrightarrow> cd_elems s (of_nat j) = published s ! j" using a l by simp
  show "\<And>x. cd_prod s = CE_publish x \<Longrightarrow> cd_elems s (cd_tail s) = x" using c by simp
  show "\<And>j x. (j, x) \<in> set (taken_at s) \<Longrightarrow> j < unat (cd_tail s) \<and> published s ! j = x" using f unfolding l by auto
qed

text \<open>The producer writes where no consumer reads, and publishes.\<close>

lemma cd_inv_enqueue:
  assumes inv: "cd_inv N k s" and k: "k < 2 ^ 63"
  shows "cd_inv N (Suc k) (enqueue_step s)"
proof -
  note D = cd_invD [OF inv] and E = elems_okD [OF cd_invD(3) [OF inv]]
  show ?thesis
  proof (cases "cd_prod s")
    case CE_idle
    then show ?thesis using inv by (auto simp: enqueue_step_def cd_inv_def)
  next
    case (CE_write x)
    let ?s = "s\<lparr>cd_elems := (cd_elems s)(cd_tail s := x), cd_prod := CE_publish x\<rparr>"
    have "unat (cd_tail s) < 2 ^ LENGTH(64)" by (rule unsigned_less)
    then have "of_nat j \<noteq> cd_tail s" if "j < unat (cd_tail s)" for j
      using that unat_of_nat_small [of j, where 'a = 64] by auto
    then have "elems_ok ?s" using E unfolding elems_ok_def by auto
    then show ?thesis using D CE_write unfolding cd_inv_def tickets_ok_def claims_ok_def blocks_ok_def
      by (auto simp: enqueue_step_def)
  next
    case (CE_publish x)
    let ?s = "s\<lparr>cd_tail := 1 + cd_tail s, cd_prod := CE_idle, published := published s @ [x]\<rparr>"
    have t: "unat (1 + cd_tail s) = Suc (unat (cd_tail s))" by (rule unat_add1) (use D(8) k in simp)
    have "tickets_ok N ?s" unfolding tickets_ok_def
    proof (intro conjI)
      show "\<forall>m\<in>passed ?s. justified (failed ?s) (unat (cd_tail ?s)) m"
        using tickets_okD(5) [OF D(1)] justified_mono [OF _ order_refl, of "failed s" "unat (cd_tail s)"] t by simp
    qed (use tickets_okD [OF D(1)] in auto)
    moreover have "claims_ok N ?s" "blocks_ok N ?s" using D(2,4) by (simp_all add: claims_ok_def blocks_ok_def)
    moreover have "elems_ok ?s" unfolding elems_ok_def
    proof (intro conjI)
      show "\<forall>j<length (published ?s). cd_elems ?s (of_nat j) = published ?s ! j"
        using E(1,2) E(3) [OF CE_publish] by (auto simp: nth_append less_Suc_eq)
      show "\<forall>(j, x)\<in>set (taken_at ?s). j < length (published ?s) \<and> published ?s ! j = x"
        using E(1,4) by (fastforce simp: nth_append)
    qed (use E(1) t in simp_all)
    moreover have "cd_local (unat (cd_tail ?s)) (unat (cd_head ?s)) (failed ?s) (cd_pcs ?s u)" for u
      using cd_local_mono [OF D(5) [of u] _ order_refl order_refl tickets_okD(12) [OF D(1)]] t by simp
    ultimately show ?thesis using D(6-8) t CE_publish unfolding cd_inv_def by (auto simp: enqueue_step_def)
  qed
qed

definition cd_event_ok :: "nat \<Rightarrow> 'a cd_event \<Rightarrow> bool" where
  "cd_event_ok N e = (case e of CDConsume t \<Rightarrow> t < N | _ \<Rightarrow> True)"

lemma cd_inv_step:
  assumes inv: "cd_inv N k s" and k: "k < 2 ^ 63" and e: "cd_event_ok N e"
  shows "cd_inv N (Suc k) (cdq_step e s)"
proof (cases e)
  case (CDEnqueue x)
  then show ?thesis using inv unfolding cd_inv_def tickets_ok_def claims_ok_def blocks_ok_def elems_ok_def
    by (cases "cd_prod s") auto
next
  case CDProduce
  then show ?thesis using cd_inv_enqueue [OF inv k] by simp
next
  case (CDConsume t)
  then show ?thesis using cd_inv_dequeue [OF inv k] e by (simp add: cd_event_ok_def)
qed

lemma cd_inv_run:
  "cd_inv N k s \<Longrightarrow> k + length es \<le> 2 ^ 63 \<Longrightarrow> list_all (cd_event_ok N) es \<Longrightarrow> cd_inv N (k + length es) (run cdq_step es s)"
proof (induction es arbitrary: k s)
  case (Cons e es)
  then have "cd_inv N (Suc k) (cdq_step e s)" by (intro cd_inv_step) simp_all
  from Cons.IH [OF this] Cons.prems show ?case by simp
qed simp

lemma cd_inv_new: "cd_inv N 0 (cdq_new raw)"
  by (simp add: cd_inv_def cdq_new_def tickets_ok_def claims_ok_def elems_ok_def blocks_ok_def holds_ticket_def)

lemma cdq_reachable:
  assumes "length es \<le> 2 ^ 63" "list_all (cd_event_ok N) es"
  shows "cd_inv N (length es) (run cdq_step es (cdq_new raw))"
  using cd_inv_run [OF cd_inv_new, of es N raw] assms by simp

text \<open>With no consumer inside, the next index is the number of elements taken.\<close>

lemma quiescent:
  assumes inv: "cd_inv N k s" and idle: "cd_pcs s = (\<lambda>_. CD_idle)"
  shows "length (taken_at s) = unat (cd_head s)" "unat (cd_optimistic s) = unat (cd_head s) + unat (cd_overcommit s)"
proof -
  note C = claims_okD [OF cd_invD(2) [OF inv]] and T = tickets_okD [OF cd_invD(1) [OF inv]]
  have "fst ` set (taken_at s) = {..<unat (cd_head s)}" using C(6,7) idle by auto
  then have "card (set (map fst (taken_at s))) = unat (cd_head s)" by simp
  then show "length (taken_at s) = unat (cd_head s)" using distinct_card [OF C(2)] by simp
  show "unat (cd_optimistic s) = unat (cd_head s) + unat (cd_overcommit s)"
  proof -
    have z: "(\<Sum>t<N. at_head (cd_pcs s t)) = 0" "(\<Sum>t<N. holds_ticket (cd_pcs s t)) = 0"
      using idle by (simp_all add: holds_ticket_def)
    show ?thesis using C(1) T(4,6) unfolding z by linarith
  qed
qed

lemma lone_dequeue:
  assumes inv: "cd_inv N k s" and k: "k < 2 ^ 63" and idle: "cd_pcs s = (\<lambda>_. CD_idle)"
    and more: "length (taken_at s) < length (published s)"
  shows "\<exists>n\<le>9. cd_pcs (run cdq_step (replicate n (CDConsume t)) s) t = CD_got (Some (published s ! length (taken_at s)))"
proof -
  note D = cd_invD [OF inv] and Q = quiescent [OF inv idle] and E = elems_okD [OF cd_invD(3) [OF inv]]
  let ?o = "cd_optimistic s" and ?v = "cd_overcommit s" and ?h = "cd_head s"
  have v: "unat ?v \<le> unat ?o" "?v \<le> ?o" using Q(2) by (simp_all add: word_le_nat_alt)
  have lt: "unat ?h < unat (cd_tail s)" using more Q(1) E(1) by simp
  have test: "circular_less_than (?o - ?v) (cd_tail s)"
    using circular_less_than_small [OF v(1), of "cd_tail s"] D(7,8) k Q(2) lt by simp
  have x: "cd_elems s ?h = published s ! length (taken_at s)" using E(2) [OF lt] Q(1) by simp
  let ?r = "\<lambda>n. run cdq_step (replicate n (CDConsume t)) s"
  let ?b = "?h div BLOCK_SIZE"
  let ?p = "if cd_done s ?b = BLOCK_SIZE - 1 then CD_free ?b (cd_elems s ?h) else CD_got (Some (cd_elems s ?h))"
  have r: "?r (Suc n) = dequeue_step t (?r n)" for n
  proof -
    have "replicate (Suc n) (CDConsume t :: 'a cd_event) = replicate n (CDConsume t) @ [CDConsume t]"
      by (simp add: replicate_append_same)
    then show ?thesis by (simp only: run_append) simp
  qed
  have "cd_pcs (?r 4) t = CD_tail ?v ?o \<and> cd_tail (?r 4) = cd_tail s \<and> cd_head (?r 4) = ?h \<and> cd_elems (?r 4) = cd_elems s \<and>
      cd_done (?r 4) = cd_done s"
    using idle test v(2) by (simp add: numeral_eq_Suc dequeue_step_def)
  then have "cd_pcs (?r (Suc 4)) t = CD_head ?o \<and> cd_head (?r (Suc 4)) = ?h \<and> cd_elems (?r (Suc 4)) = cd_elems s \<and>
      cd_done (?r (Suc 4)) = cd_done s"
    unfolding r using test by (simp add: dequeue_step_def)
  then have "cd_pcs (?r (Suc (Suc 4))) t = CD_read ?h \<and> cd_elems (?r (Suc (Suc 4))) = cd_elems s \<and> cd_done (?r (Suc (Suc 4))) = cd_done s"
    unfolding r [of "Suc 4"] by (simp add: dequeue_step_def)
  then have "cd_pcs (?r (Suc (Suc (Suc 4)))) t = CD_empty ?h (cd_elems s ?h) \<and> cd_done (?r (Suc (Suc (Suc 4)))) = cd_done s"
    unfolding r [of "Suc (Suc 4)"] by (simp add: dequeue_step_def)
  then have p: "cd_pcs (?r (Suc (Suc (Suc (Suc 4))))) t = ?p"
    unfolding r [of "Suc (Suc (Suc 4))"] by (simp add: dequeue_step_def Let_def)
  show ?thesis
  proof (cases "cd_done s ?b = BLOCK_SIZE - 1")
    case True
    then have "cd_pcs (?r (Suc (Suc (Suc (Suc (Suc 4)))))) t = CD_got (Some (cd_elems s ?h))"
      unfolding r [of "Suc (Suc (Suc (Suc 4)))"] using p by (simp add: dequeue_step_def)
    then show ?thesis unfolding x by (intro exI [of _ 9]) simp
  next
    case False
    then show ?thesis using p unfolding x by (intro exI [of _ 8]) simp
  qed
qed

text \<open>A run: one element, and two consumers that both took a ticket for it.\<close>

definition cd_sample :: "nat cd_event list" where
  "cd_sample = [CDEnqueue 7, CDProduce, CDProduce] @ replicate 3 (CDConsume 0) @ replicate 3 (CDConsume 1)
     @ replicate 5 (CDConsume 0) @ replicate 3 (CDConsume 1)"

lemma cd_sample_ok: "length cd_sample \<le> 2 ^ 63 \<and> list_all (cd_event_ok 2) cd_sample"
  by (simp add: cd_sample_def cd_event_ok_def list_all_iff)

section \<open>Properties\<close>

text \<open>
  C3. Concurrent dequeues of one producer are exact: with any number of consumers, each access
  to shared memory a step, no index is taken twice, every index taken is one whose element is
  published and that element is what the consumer got, \<open>headIndex\<close> never passes \<open>tailIndex\<close>
  and the assertion of \<open>dequeue\<close> holds.
\<close>

theorem concurrent_dequeue_exact:
  assumes "length es \<le> 2 ^ 63" and "list_all (cd_event_ok N) es" and "s = run cdq_step es (cdq_new raw)"
  shows "distinct (map fst (taken_at s)) \<and> list_all (\<lambda>(j, x). j < length (published s) \<and> published s ! j = x) (taken_at s) \<and>
    unat (cd_head s) \<le> unat (cd_tail s) \<and> cd_pcs s t \<noteq> CD_abort"
proof -
  have inv: "cd_inv N (length es) s" using cdq_reachable [OF assms(1,2)] assms(3) by blast
  note D = cd_invD [OF inv] and E = elems_okD [OF cd_invD(3) [OF inv]]
  have "unat (cd_head s) \<le> unat (cd_tail s)" using head_le_passed [OF D(2)] passed_le_tail [OF D(1)] by simp
  moreover have "cd_pcs s t \<noteq> CD_abort" using D(5) [of t] by auto
  ultimately show ?thesis using claims_okD(2) [OF D(2)] E(1,4) by (auto simp: list_all_iff)
qed

theorem concurrent_dequeue_exact_witness:
  "length cd_sample \<le> 2 ^ 63 \<and> list_all (cd_event_ok 2) cd_sample \<and>
   distinct (map fst (taken_at (run cdq_step cd_sample (cdq_new (\<lambda>_. 0))))) \<and>
   cd_pcs (run cdq_step cd_sample (cdq_new (\<lambda>_. 0))) 1 \<noteq> CD_abort"
  using concurrent_dequeue_exact [OF _ _ refl, of cd_sample 2 "\<lambda>_. 0" 1] cd_sample_ok by blast

text \<open>
  C14. A block is given back at most once, and never while a consumer has still to read an
  element from it or to count itself out of it.
\<close>

theorem block_release_safe:
  assumes "length es \<le> 2 ^ 63" and "list_all (cd_event_ok N) es" and "s = run cdq_step es (cdq_new raw)"
  shows "given_back s b \<le> 1 \<and> (in_block b (cd_pcs s t) = 1 \<longrightarrow> given_back s b = 0)"
proof -
  have inv: "cd_inv N (length es) s" using cdq_reachable [OF assms(1,2)] assms(3) by blast
  note D = cd_invD [OF inv] and B = blocks_okD [OF cd_invD(4) [OF inv]]
  have f: "0 \<le> (\<Sum>u<N. freeing b (cd_pcs s u))" by (intro sum_nonneg freeing_nonneg)
  then have "given_back s b \<le> 1" using B(2) [of b] by (simp split: if_splits add: of_bool_def)
  moreover have "given_back s b = 0" if u: "in_block b (cd_pcs s t) = 1"
  proof -
    have "t < N" using D(6) [of t] u by (cases "N \<le> t") auto
    then have "unat (cd_done s b) < 32" using block_in_use [OF D(4) _ u] by blast
    then show ?thesis using B(2) [of b] f by simp
  qed
  ultimately show ?thesis by blast
qed

theorem block_release_safe_witness:
  "length cd_sample \<le> 2 ^ 63 \<and> list_all (cd_event_ok 2) cd_sample \<and>
   given_back (run cdq_step cd_sample (cdq_new (\<lambda>_. 0))) 0 \<le> 1"
  using block_release_safe [OF _ _ refl, of cd_sample 2 "\<lambda>_. 0" 0 0] cd_sample_ok by blast

text \<open>
  C24. No element is lost to the failed attempts of the past: when no consumer is inside
  \<open>dequeue\<close> and an element is left, a consumer that runs alone gets the next one.
\<close>

theorem lone_dequeue_succeeds:
  assumes "length es < 2 ^ 63" and "list_all (cd_event_ok N) es" and "s = run cdq_step es (cdq_new raw)"
    and "cd_pcs s = (\<lambda>_. CD_idle)" and "length (taken_at s) < length (published s)"
  shows "\<exists>n\<le>9. cd_pcs (run cdq_step (replicate n (CDConsume t)) s) t = CD_got (Some (published s ! length (taken_at s)))"
  using lone_dequeue [OF _ assms(1) assms(4,5)] cdq_reachable [OF less_imp_le [OF assms(1)] assms(2)] assms(3) by blast

theorem lone_dequeue_succeeds_witness:
  "\<exists>n\<le>9. cd_pcs (run cdq_step (replicate n (CDConsume 5)) (run cdq_step [CDEnqueue 7, CDProduce, CDProduce] (cdq_new (\<lambda>_. 0 :: nat)))) 5 =
     CD_got (Some 7)"
  using lone_dequeue_succeeds [OF _ _ refl, of "[CDEnqueue 7, CDProduce, CDProduce]" 2 "\<lambda>_. 0 :: nat" 5]
  by (simp add: cd_event_ok_def cdq_new_def enqueue_step_def)

end
