(* ===== verification/HCoroutine.thy ===== *)
theory HCoroutine
  imports FContext
begin

unbundle bit_operations_syntax

text \<open>
  The coroutine around the context switch: \<open>hcoroutine_traits<STACK_SIZE, FPU>\<close> of
  \<open>inc/hcoroutine.h\<close> and the same operations of \<open>vthread\<close> in \<open>inc/vthread.hpp\<close>.  An operation
  acts on the registers and the memory of the kernel thread that runs it and on that thread's
  value of the key \<open>cur_hcoroutine\<close>; a call of an assembly routine loads the argument
  registers and pushes the return address.
\<close>

section \<open>Objects and calls\<close>

text \<open>Where the three cells of an object that take part in a switch are.\<close>

record coro_layout =
  ctx_at :: c_size
  owner_ctx_at :: c_size
  jump_lock_at :: c_size

text \<open>
  \<open>hcoroutine_traits\<close>: the two pointers of the start routine, the stack, then the cells.
\<close>

definition hcoroutine_layout :: "c_size \<Rightarrow> coro_layout" where
  "hcoroutine_layout stack_size =
     \<lparr>ctx_at = 16 + stack_size, owner_ctx_at = 24 + stack_size, jump_lock_at = 40 + stack_size\<rparr>"

datatype coroutine_ret = CO_FINISHED | CO_SUSPENDED

fun ret_code :: "coroutine_ret \<Rightarrow> c_size" where
  "ret_code CO_FINISHED = 0"
| "ret_code CO_SUSPENDED = 1"

text \<open>A call with the return address \<open>ret\<close>; the callee finds it on top of the stack.\<close>

definition call :: "c_size \<Rightarrow> cpu \<Rightarrow> cpu" where
  "call ret c = store (rsp c - 8) ret (c\<lparr>rsp := rsp c - 8\<rparr>)"

text \<open>The call \<open>jump_fcontext(ofc, nfc, vp, fpu, lock)\<close> up to its first instruction.\<close>

definition call_jump ::
    "c_size \<Rightarrow> c_size \<Rightarrow> c_size \<Rightarrow> c_size \<Rightarrow> bool \<Rightarrow> c_size \<Rightarrow> cpu \<Rightarrow> cpu" where
  "call_jump ret ofc nfc vp fpu lock c =
     call ret (c\<lparr>rdi := ofc, rsi := nfc, rdx := vp, rcx := of_bool fpu, r8 := lock\<rparr>)"

definition enter_call :: "coro_layout \<Rightarrow> bool \<Rightarrow> c_size \<Rightarrow> c_size \<Rightarrow> cpu \<Rightarrow> cpu" where
  "enter_call L fpu me ret c =
     call_jump ret (me + owner_ctx_at L) (mem c (me + ctx_at L)) me fpu (me + jump_lock_at L) c"

definition leave_call :: "coro_layout \<Rightarrow> bool \<Rightarrow> c_size \<Rightarrow> c_size \<Rightarrow> c_size \<Rightarrow> cpu \<Rightarrow> cpu" where
  "leave_call L fpu me code ret c =
     call_jump ret (me + ctx_at L) (mem c (me + owner_ctx_at L)) code fpu (me + jump_lock_at L) c"

section \<open>\<open>hcoroutine_traits\<close>\<close>

text \<open>
  The constructor: the start routine and its argument, the free lock, and a context on the
  object's own stack whose function is \<open>manage\<close>.
\<close>

definition hcoroutine_new ::
    "c_size \<Rightarrow> c_size \<Rightarrow> c_size \<Rightarrow> c_size \<Rightarrow> c_size \<Rightarrow> c_size \<Rightarrow> cpu \<Rightarrow> cpu" where
  "hcoroutine_new stack_size manage finish me start_routine arg c =
     (let L = hcoroutine_layout stack_size;
          c = store (me + 8) arg (store me start_routine c);
          c = store (me + jump_lock_at L) 0 c;
          c = make_fcontext finish (c\<lparr>rdi := (me + 16) + stack_size, rsi := stack_size, rdx := manage\<rparr>)
      in store (me + ctx_at L) (rax c) c)"

text \<open>Results are the outcome of the jump and the thread's value of \<open>cur_hcoroutine\<close>.\<close>

definition resume :: "c_size \<Rightarrow> bool \<Rightarrow> c_size \<Rightarrow> c_size \<Rightarrow> cpu \<Rightarrow> jump_outcome \<times> c_size" where
  "resume stack_size fpu me ret c =
     (safe_jump_fcontext (enter_call (hcoroutine_layout stack_size) fpu me ret c), me)"

definition yield_myself ::
    "c_size \<Rightarrow> bool \<Rightarrow> c_size \<Rightarrow> coroutine_ret \<Rightarrow> c_size \<Rightarrow> cpu \<Rightarrow> jump_outcome" where
  "yield_myself stack_size fpu me r ret c =
     safe_jump_fcontext (leave_call (hcoroutine_layout stack_size) fpu me (ret_code r) ret c)"

definition try_yield_myself ::
    "c_size \<Rightarrow> bool \<Rightarrow> c_size \<Rightarrow> coroutine_ret \<Rightarrow> c_size \<Rightarrow> cpu \<Rightarrow> jump_outcome" where
  "try_yield_myself stack_size fpu me r ret c =
     try_jump_fcontext (leave_call (hcoroutine_layout stack_size) fpu me (ret_code r) ret c)"

text \<open>
  The static variants take the object from the key; \<^const>\<open>None\<close> is the access through the null
  pointer of a thread that never resumed a coroutine.
\<close>

definition yield :: "c_size \<Rightarrow> bool \<Rightarrow> c_size \<Rightarrow> cpu \<times> c_size \<Rightarrow> (jump_outcome \<times> c_size) option" where
  "yield stack_size fpu ret = (\<lambda>(c, key). if key = 0 then None
     else Some (yield_myself stack_size fpu key CO_SUSPENDED ret c, key))"

definition try_yield :: "c_size \<Rightarrow> bool \<Rightarrow> c_size \<Rightarrow> cpu \<times> c_size \<Rightarrow> (jump_outcome \<times> c_size) option" where
  "try_yield stack_size fpu ret = (\<lambda>(c, key). if key = 0 then None
     else Some (try_yield_myself stack_size fpu key CO_SUSPENDED ret c, key))"

text \<open>
  \<open>manage\<close>: the call of the start routine with its argument, and what follows its return.
\<close>

definition manage_start :: "c_size \<Rightarrow> c_size \<Rightarrow> cpu \<Rightarrow> cpu" where
  "manage_start me ret c = (call ret (c\<lparr>rdi := mem c (me + 8)\<rparr>))\<lparr>rip := mem c me\<rparr>"

definition manage_end :: "c_size \<Rightarrow> bool \<Rightarrow> c_size \<Rightarrow> c_size \<Rightarrow> cpu \<Rightarrow> jump_outcome" where
  "manage_end stack_size fpu me ret c = yield_myself stack_size fpu me CO_FINISHED ret c"

section \<open>The same operations of \<open>vthread\<close>\<close>

text \<open>
  The layout of \<open>vthread\<close> depends on the standard library (\<open>vtls\<close> is an \<open>unordered_map\<close>), so it is
  an argument; \<open>FPU\<close> is true.  The value yielded is any word: a status or the address of a mutex.
\<close>

definition vthread_resume :: "coro_layout \<Rightarrow> c_size \<Rightarrow> c_size \<Rightarrow> cpu \<Rightarrow> jump_outcome \<times> c_size" where
  "vthread_resume L me ret c = (safe_jump_fcontext (enter_call L True me ret c), me)"

definition is_vthread :: "c_size \<Rightarrow> bool" where
  "is_vthread key \<longleftrightarrow> key \<noteq> 0"

definition vthread_yield_myself :: "coro_layout \<Rightarrow> c_size \<Rightarrow> c_size \<Rightarrow> c_size \<Rightarrow> cpu \<Rightarrow> jump_outcome" where
  "vthread_yield_myself L me code ret c = safe_jump_fcontext (leave_call L True me code ret c)"

definition vthread_try_yield_myself :: "coro_layout \<Rightarrow> c_size \<Rightarrow> c_size \<Rightarrow> c_size \<Rightarrow> cpu \<Rightarrow> jump_outcome" where
  "vthread_try_yield_myself L me code ret c = try_jump_fcontext (leave_call L True me code ret c)"

text \<open>\<open>STATUS_SUSPENDED\<close> is 1; \<open>is_on_cur_vthread\<close> is always true.\<close>

definition vthread_yield :: "coro_layout \<Rightarrow> c_size \<Rightarrow> cpu \<times> c_size \<Rightarrow> (jump_outcome \<times> c_size) option" where
  "vthread_yield L ret = (\<lambda>(c, key). if \<not> is_vthread key then None
     else Some (vthread_yield_myself L key 1 ret c, key))"

definition vthread_try_yield :: "coro_layout \<Rightarrow> c_size \<Rightarrow> cpu \<times> c_size \<Rightarrow> (jump_outcome \<times> c_size) option" where
  "vthread_try_yield L ret = (\<lambda>(c, key). if \<not> is_vthread key then None
     else Some (vthread_try_yield_myself L key 1 ret c, key))"

section \<open>Cells\<close>

text \<open>The stack cells a switch called from \<open>c\<close> uses, and the cells of the object.\<close>

definition switch_cells :: "cpu \<Rightarrow> c_size set" where
  "switch_cells c = {rsp c - 8, rsp c - 16, rsp c - 24, rsp c - 32, rsp c - 40, rsp c - 48,
     rsp c - 56, rsp c - 64}"

definition object_cells :: "coro_layout \<Rightarrow> c_size \<Rightarrow> c_size set" where
  "object_cells L me = {me + ctx_at L, me + owner_ctx_at L, me + jump_lock_at L}"

definition layout_ok :: "coro_layout \<Rightarrow> bool" where
  "layout_ok L \<longleftrightarrow> distinct [ctx_at L, owner_ctx_at L, jump_lock_at L]"

text \<open>\<open>c'\<close> is \<open>c\<close> after the call it was about to make has returned \<open>v\<close> to \<open>ret\<close>.\<close>

definition returned_to :: "cpu \<Rightarrow> c_size \<Rightarrow> c_size \<Rightarrow> cpu \<Rightarrow> bool" where
  "returned_to c ret v c' \<longleftrightarrow> rip c' = ret \<and> rsp c' = rsp c \<and> rax c' = v \<and> rbx c' = rbx c \<and>
     rbp c' = rbp c \<and> r12 c' = r12 c \<and> r13 c' = r13 c \<and> r14 c' = r14 c \<and> r15 c' = r15 c"

definition same_fpu :: "cpu \<Rightarrow> cpu \<Rightarrow> bool" where
  "same_fpu c c' \<longleftrightarrow> mxcsr c' = mxcsr c \<and> x87_cw c' = x87_cw c"

lemma hcoroutine_layout_ok [simp]: "layout_ok (hcoroutine_layout ss)"
  by (simp add: layout_ok_def hcoroutine_layout_def)

lemma call_jump_regs:
  "rdi (call_jump ret x n v f l c) = x" "rsi (call_jump ret x n v f l c) = n"
  "rdx (call_jump ret x n v f l c) = v" "r8 (call_jump ret x n v f l c) = l"
  "rcx (call_jump ret x n v f l c) = of_bool f" "rsp (call_jump ret x n v f l c) = rsp c - 8"
  "rbx (call_jump ret x n v f l c) = rbx c" "rbp (call_jump ret x n v f l c) = rbp c"
  "r12 (call_jump ret x n v f l c) = r12 c" "r13 (call_jump ret x n v f l c) = r13 c"
  "r14 (call_jump ret x n v f l c) = r14 c" "r15 (call_jump ret x n v f l c) = r15 c"
  "mxcsr (call_jump ret x n v f l c) = mxcsr c" "x87_cw (call_jump ret x n v f l c) = x87_cw c"
  "mem (call_jump ret x n v f l c) = (mem c)(rsp c - 8 := ret)"
  by (simp_all add: call_jump_def call_def store_def)

lemma call_jump_cells [simp]: "frame_cells (call_jump ret x n v f l c) = switch_cells c"
  by (simp add: frame_cells_def switch_cells_def call_jump_regs)

text \<open>
  A switch called from \<open>c\<close> and, with its frame kept, a switch back called from \<open>d\<close>: the second
  makes the first call return.
\<close>

lemma call_jump_out:
  assumes free: "mem c l = 0" and apart: "switch_cells c \<inter> {x, l} = {}" "x \<noteq> l"
  obtains c' where "safe_jump_fcontext (call_jump ret x n v f l c) = Jumped c'"
    and "mem c' x = rsp c - 64" and "mem c' l = 0"
    and "\<And>y. y \<notin> switch_cells c \<Longrightarrow> y \<noteq> x \<Longrightarrow> y \<noteq> l \<Longrightarrow> mem c' y = mem c y"
proof -
  let ?a = "call_jump ret x n v f l c"
  have top: "rsp c - 8 \<in> switch_cells c" by (simp add: switch_cells_def)
  have "mem ?a (r8 ?a) = 0" using free apart top by (auto simp: call_jump_regs)
  then obtain c' where c': "safe_jump_fcontext ?a = Jumped c'" using safe_jump_free by blast
  have out: "rdi ?a \<notin> frame_cells ?a" "r8 ?a \<notin> frame_cells ?a" "rdi ?a \<noteq> r8 ?a"
    using apart by (auto simp: call_jump_regs)
  from safe_jump_cells [OF c' out] top show ?thesis
    by (intro that [OF c']) (auto simp: call_jump_regs)
qed

lemma call_jump_back:
  assumes first: "safe_jump_fcontext (call_jump ret x n v f l c) = Jumped c'"
    and kept: "\<And>y. y \<in> switch_cells c \<Longrightarrow> mem d y = mem c' y"
    and target: "n' = mem c' x"
    and free: "mem d l' = 0"
    and apart: "switch_cells c \<inter> (switch_cells d \<union> {x', l', x, l}) = {}" "x \<noteq> l"
      "l' \<notin> switch_cells d"
  obtains d' where "safe_jump_fcontext (call_jump ret' x' n' v' f' l' d) = Jumped d'"
    and "returned_to c ret v' d'" and "mem d' l' = 0" and "f \<Longrightarrow> f' \<Longrightarrow> same_fpu c d'"
proof -
  let ?a = "call_jump ret x n v f l c" and ?b = "call_jump ret' x' n' v' f' l' d"
  have top: "rsp d - 8 \<in> switch_cells d" by (simp add: switch_cells_def)
  have "mem ?b (r8 ?b) = 0" using free apart top by (auto simp: call_jump_regs)
  then obtain d' where d': "safe_jump_fcontext ?b = Jumped d'" using safe_jump_free by blast
  have "mem ?b y = mem c' y" if "y \<in> frame_cells ?a" for y
    using that kept apart top by (auto simp: call_jump_regs)
  from safe_jump_pair [OF first d' _ this] target apart show ?thesis
    by (intro that [OF d']) (simp_all add: call_jump_regs returned_to_def same_fpu_def)
qed

section \<open>Round trips\<close>

fun cpu_of :: "jump_outcome \<Rightarrow> cpu" where
  "cpu_of (Jumped c) = c"
| "cpu_of (Spinning c) = c"
| "cpu_of (Returned c) = c"

lemma coroutine_switches:
  fixes c d e :: cpu and L :: coro_layout and fpu :: bool and me code ret ret' ret'' :: c_size
  defines "c' \<equiv> cpu_of (safe_jump_fcontext (enter_call L fpu me ret c))"
    and "d' \<equiv> cpu_of (safe_jump_fcontext (leave_call L fpu me code ret' d))"
    and "e' \<equiv> cpu_of (safe_jump_fcontext (enter_call L fpu me ret'' e))"
  assumes L: "layout_ok L" and free: "mem c (me + jump_lock_at L) = 0"
    and run: "\<And>y. y \<in> switch_cells c \<union> {me + owner_ctx_at L, me + jump_lock_at L} \<Longrightarrow> mem d y = mem c' y"
    and run': "\<And>y. y \<in> switch_cells d \<union> {me + ctx_at L, me + jump_lock_at L} \<Longrightarrow> mem e y = mem d' y"
    and apart: "switch_cells c \<inter> object_cells L me = {}"
      "switch_cells d \<inter> (object_cells L me \<union> switch_cells c) = {}"
      "switch_cells e \<inter> (object_cells L me \<union> switch_cells d) = {}"
  shows "safe_jump_fcontext (enter_call L fpu me ret c) = Jumped c'"
    and "safe_jump_fcontext (leave_call L fpu me code ret' d) = Jumped d'"
    and "safe_jump_fcontext (enter_call L fpu me ret'' e) = Jumped e'"
    and "returned_to c ret code d'" and "returned_to d ret' me e'"
    and "fpu \<Longrightarrow> same_fpu c d'" and "fpu \<Longrightarrow> same_fpu d e'"
    and "mem e' (me + jump_lock_at L) = 0"
proof -
  let ?x = "me + ctx_at L" and ?o = "me + owner_ctx_at L" and ?l = "me + jump_lock_at L"
  have ne: "?x \<noteq> ?o" "?x \<noteq> ?l" "?o \<noteq> ?l" using L by (auto simp: layout_ok_def)
  have sep: "switch_cells c \<inter> {?o, ?l} = {}" using apart by (auto simp: object_cells_def)
  from call_jump_out [OF free sep ne(3), of ret "mem c ?x" me fpu]
  obtain c1 where c1: "safe_jump_fcontext (enter_call L fpu me ret c) = Jumped c1" "mem c1 ?l = 0"
    "mem c1 ?o = rsp c - 64" unfolding enter_call_def by blast
  then have cc: "c' = c1" by (simp add: c'_def)
  have freed: "mem d ?l = 0" using run [of ?l] c1 cc by simp
  have kept: "mem d y = mem c1 y" if "y \<in> switch_cells c" for y using run [of y] that cc by simp
  have tgt: "mem d ?o = mem c1 ?o" using run [of ?o] cc by simp
  have apart_cd: "switch_cells c \<inter> (switch_cells d \<union> {?x, ?l, ?o, ?l}) = {}" "?l \<notin> switch_cells d"
    using apart by (auto simp: object_cells_def)
  from call_jump_back [OF c1(1) [unfolded enter_call_def] kept tgt freed apart_cd(1) ne(3) apart_cd(2),
      of ret' code fpu]
  obtain d1 where d1: "safe_jump_fcontext (leave_call L fpu me code ret' d) = Jumped d1"
    "returned_to c ret code d1" "mem d1 ?l = 0" "fpu \<Longrightarrow> same_fpu c d1"
    unfolding leave_call_def by metis
  then have dd: "d' = d1" by (simp add: d'_def)
  have freee: "mem e ?l = 0" using run' [of ?l] d1 dd by simp
  have kept': "mem e y = mem d1 y" if "y \<in> switch_cells d" for y using run' [of y] that dd by simp
  have tgt': "mem e ?x = mem d1 ?x" using run' [of ?x] dd by simp
  have apart_de: "switch_cells d \<inter> (switch_cells e \<union> {?o, ?l, ?x, ?l}) = {}" "?l \<notin> switch_cells e"
    using apart by (auto simp: object_cells_def)
  from call_jump_back [OF d1(1) [unfolded leave_call_def] kept' tgt' freee apart_de(1) ne(2) apart_de(2),
      of ret'' me fpu]
  obtain e1 where e1: "safe_jump_fcontext (enter_call L fpu me ret'' e) = Jumped e1"
    "returned_to d ret' me e1" "mem e1 ?l = 0" "fpu \<Longrightarrow> same_fpu d e1"
    unfolding enter_call_def by metis
  then have ee: "e' = e1" by (simp add: e'_def)
  show "safe_jump_fcontext (enter_call L fpu me ret c) = Jumped c'" using c1 cc by simp
  show "safe_jump_fcontext (leave_call L fpu me code ret' d) = Jumped d'" using d1 dd by simp
  show "safe_jump_fcontext (enter_call L fpu me ret'' e) = Jumped e'" using e1 ee by simp
  show "returned_to c ret code d'" "returned_to d ret' me e'" "mem e' ?l = 0"
    using d1 e1 dd ee by simp_all
  show "fpu \<Longrightarrow> same_fpu c d'" "fpu \<Longrightarrow> same_fpu d e'" using d1 e1 dd ee by simp_all
qed

text \<open>The stack of an object, and the constructor's context on it.\<close>

lemma and_minus_16_eq: "x AND -16 = x - (x AND (15 :: c_size))"
proof -
  have "x - (x AND 15) = x AND NOT (x AND 15)"
    by (rule disjunctive_diff_eq_and_not, rule bit_word_eqI) (auto simp: bit_simps)
  also have "\<dots> = x AND -16"
    by (rule bit_word_eqI) (auto simp: bit_simps)
  finally show ?thesis by simp
qed

text \<open>The object occupies \<open>stack_size + 48\<close> bytes from its address.\<close>

definition object_range :: "c_size \<Rightarrow> c_size \<Rightarrow> c_size set" where
  "object_range ss me = {y. unat me \<le> unat y \<and> unat y < unat me + unat ss + 48}"

definition object_fits :: "c_size \<Rightarrow> c_size \<Rightarrow> bool" where
  "object_fits ss me \<longleftrightarrow> 128 \<le> unat ss \<and> unat me + unat ss + 48 < 2 ^ 64"

lemma object_addr:
  assumes "object_fits ss me" and "n \<le> unat ss + 47"
  shows "unat (me + of_nat n) = unat me + n" and "me + of_nat n \<in> object_range ss me"
proof -
  have n: "n < 2 ^ 64" and le: "unat me + n < 2 ^ 64" using assms by (auto simp: object_fits_def)
  have "unat (of_nat n :: c_size) = n" using n by (simp add: unsigned_of_nat take_bit_nat_eq_self)
  then show *: "unat (me + of_nat n) = unat me + n"
    using le unat_add_lem [of me "of_nat n"] by simp
  show "me + of_nat n \<in> object_range ss me" using * assms by (simp add: object_range_def)
qed

text \<open>
  What the constructor leaves behind: the two pointers, a free lock, and in the object's own
  stack area a context that \<open>make_fcontext\<close> built.
\<close>

definition new_context :: "c_size \<Rightarrow> c_size \<Rightarrow> c_size" where
  "new_context ss me = ((me + 16 + ss) AND -16) - 0x48"

lemma new_context_addr:
  assumes fits: "object_fits ss me" and n: "n \<le> 0x47"
  obtains k where "new_context ss me + of_nat n = me + of_nat k"
    and "unat ss - 71 + n \<le> k" and "k \<le> unat ss - 56 + n"
proof -
  let ?r = "(me + 16 + ss) AND 15"
  have r: "unat ?r < 16"
  proof -
    have "?r \<le> 15" by (rule word_and_le1)
    then show ?thesis by (simp add: word_le_nat_alt)
  qed
  let ?k = "unat ss - 56 - unat ?r + n"
  have ss: "128 \<le> unat ss" using fits by (simp add: object_fits_def)
  have "of_nat ?k = ss - 56 - ?r + of_nat n"
    using ss r by (simp add: of_nat_diff)
  then have "new_context ss me + of_nat n = me + of_nat ?k"
    by (simp add: new_context_def and_minus_16_eq)
  then show ?thesis using ss r by (intro that [of ?k]) simp_all
qed

lemma object_addr_inj:
  assumes "object_fits ss me" and "j \<le> unat ss + 47" and "k \<le> unat ss + 47" and "j \<noteq> k"
  shows "me + of_nat j \<noteq> me + of_nat k"
proof
  assume "me + of_nat j = me + of_nat k"
  then have "unat (me + of_nat j) = unat (me + of_nat k)" by (rule arg_cong)
  then have "unat me + j = unat me + k"
    unfolding object_addr(1) [OF assms(1,2)] object_addr(1) [OF assms(1,3)] .
  with assms(4) show False by simp
qed

lemma object_cells_distinct:
  assumes fits: "object_fits ss me" and n: "n \<le> 0x40"
  shows "distinct [new_context ss me + of_nat n, me, me + 8, me + (16 + ss), me + (24 + ss),
     me + (40 + ss)]"
proof -
  obtain k where k: "new_context ss me + of_nat n = me + of_nat k" "unat ss - 71 + n \<le> k"
    "k \<le> unat ss - 56 + n" using new_context_addr [OF fits, of n] n by auto
  have ss: "128 \<le> unat ss" using fits by (simp add: object_fits_def)
  let ?ks = "[k, 0, 8, 16 + unat ss, 24 + unat ss, 40 + unat ss]"
  have "inj_on (\<lambda>i. me + of_nat i) {..unat ss + 47}"
    using object_addr_inj [OF fits] by (intro inj_onI) fastforce
  then have "inj_on (\<lambda>i. me + of_nat i) (set ?ks)"
    by (rule inj_on_subset) (use k n ss in auto)
  moreover have "8 < k" "k < 16 + unat ss" using k(2,3) n ss by linarith+
  then have "distinct ?ks" by simp
  ultimately have "distinct (map (\<lambda>i. me + of_nat i) ?ks)" by (simp only: distinct_map)
  then show ?thesis unfolding k(1) by (simp add: add.commute)
qed

lemma make_fcontext_rax: "rax (make_fcontext finish c) = (rdi c AND -16) - 0x48"
  by (simp add: make_fcontext_def cpu_defs)

lemma make_fcontext_mem:
  "a \<notin> {rax (make_fcontext finish c), rax (make_fcontext finish c) + 0x38, rax (make_fcontext finish c) + 0x40}
     \<Longrightarrow> mem (make_fcontext finish c) a = mem c a"
  by (simp add: make_fcontext_rax) (simp add: make_fcontext_def cpu_defs)

text \<open>The state the constructor gives to \<open>make_fcontext\<close>.\<close>

definition constructor_cpu :: "c_size \<Rightarrow> c_size \<Rightarrow> c_size \<Rightarrow> c_size \<Rightarrow> c_size \<Rightarrow> cpu \<Rightarrow> cpu" where
  "constructor_cpu ss manage me start_routine arg c =
     (store (me + (40 + ss)) 0 (store (me + 8) arg (store me start_routine c)))
       \<lparr>rdi := (me + 16) + ss, rsi := ss, rdx := manage\<rparr>"

lemma hcoroutine_new_mem:
  fixes ss manage finish me start arg :: c_size and c :: cpu
  assumes fits: "object_fits ss me"
  defines "m \<equiv> mem (hcoroutine_new ss manage finish me start arg c)"
    and "f \<equiv> make_fcontext finish (constructor_cpu ss manage me start arg c)"
  shows "m me = start" and "m (me + 8) = arg" and "m (me + (40 + ss)) = 0"
    and "m (me + (16 + ss)) = new_context ss me" and "rax f = new_context ss me"
    and "\<And>d. d \<in> {0, 0x38, 0x40} \<Longrightarrow> m (new_context ss me + d) = mem f (new_context ss me + d)"
proof -
  show ax: "rax f = new_context ss me"
    by (simp add: f_def make_fcontext_rax constructor_cpu_def new_context_def store_def)
  have m: "m = (mem f)(me + (16 + ss) := new_context ss me)"
    using ax unfolding m_def f_def
    by (simp add: hcoroutine_new_def constructor_cpu_def hcoroutine_layout_def Let_def store_def)
  note dist = object_cells_distinct [OF fits, of 0] object_cells_distinct [OF fits, of 56]
    object_cells_distinct [OF fits, of 64]
  have kept: "mem f a = mem (constructor_cpu ss manage me start arg c) a"
    if "a \<notin> {new_context ss me, new_context ss me + 0x38, new_context ss me + 0x40}" for a
    using make_fcontext_mem [of a finish "constructor_cpu ss manage me start arg c"] that ax
    by (simp add: f_def)
  have out: "a \<notin> {new_context ss me, new_context ss me + 0x38, new_context ss me + 0x40}"
    if "a \<in> {me, me + 8, me + (40 + ss)}" for a
    using that dist by auto
  have in_c: "mem (constructor_cpu ss manage me start arg c) me = start"
    "mem (constructor_cpu ss manage me start arg c) (me + 8) = arg"
    "mem (constructor_cpu ss manage me start arg c) (me + (40 + ss)) = 0"
    using dist(1) by (auto simp: constructor_cpu_def store_def)
  show "m me = start" "m (me + 8) = arg" "m (me + (40 + ss)) = 0"
    using dist(1) in_c kept [OF out] unfolding m by auto
  show "m (me + (16 + ss)) = new_context ss me" by (simp add: m)
  show "m (new_context ss me + d) = mem f (new_context ss me + d)" if "d \<in> {0, 0x38, 0x40}" for d
    using that dist unfolding m by auto
qed

text \<open>
  The same for \<open>hcoroutine_traits\<close>: what the owner's \<open>resume\<close> returns says whether the start
  routine yielded or ended.
\<close>

lemma hcoroutine_resume_returns:
  fixes c d :: cpu and ss me ret ret' :: c_size
  defines "L \<equiv> hcoroutine_layout ss"
  assumes first: "resume ss fpu me ret c = (Jumped c', key)"
    and free: "mem c (me + jump_lock_at L) = 0" and me: "me \<noteq> 0"
    and run: "\<And>y. y \<in> switch_cells c \<union> {me + owner_ctx_at L, me + jump_lock_at L} \<Longrightarrow> mem d y = mem c' y"
    and apart: "switch_cells c \<inter> object_cells L me = {}"
      "switch_cells d \<inter> (object_cells L me \<union> switch_cells c) = {}"
  shows "\<exists>d'. yield ss fpu ret' (d, key) = Some (Jumped d', me) \<and> returned_to c ret 1 d'"
    and "\<exists>d'. manage_end ss fpu me ret' d = Jumped d' \<and> returned_to c ret 0 d'"
proof -
  have c': "c' = cpu_of (safe_jump_fcontext (enter_call L fpu me ret c))" and key: "key = me"
    using first by (auto simp: resume_def L_def)
  have L: "layout_ok L" by (simp add: L_def)
  have *: "\<exists>d'. safe_jump_fcontext (leave_call L fpu me code ret' d) = Jumped d' \<and> returned_to c ret code d'"
    for code
  proof -
    let ?d' = "cpu_of (safe_jump_fcontext (leave_call L fpu me code ret' d))"
    have "switch_cells (?d'\<lparr>rsp := rsp c\<rparr>) = switch_cells c" by (simp add: switch_cells_def)
    then have sep: "switch_cells (?d'\<lparr>rsp := rsp c\<rparr>) \<inter> (object_cells L me \<union> switch_cells d) = {}"
      using apart by auto
    have kept: "mem (?d'\<lparr>rsp := rsp c\<rparr>) y = mem ?d' y" for y by simp
    show ?thesis
      using coroutine_switches(2,4) [where code = code and ret' = ret' and e = "?d'\<lparr>rsp := rsp c\<rparr>",
        OF L free run [unfolded c'] kept apart sep] by blast
  qed
  show "\<exists>d'. yield ss fpu ret' (d, key) = Some (Jumped d', me) \<and> returned_to c ret 1 d'"
    using * [of 1] me by (simp add: yield_def yield_myself_def key L_def)
  show "\<exists>d'. manage_end ss fpu me ret' d = Jumped d' \<and> returned_to c ret 0 d'"
    using * [of 0] by (simp add: manage_end_def yield_myself_def L_def)
qed

text \<open>
  A yield that only tries backs off from a switch under way: the call returns 23 and has
  changed nothing but the cell below the stack pointer that held its return address.
\<close>

lemma vthread_try_yield_backs_off:
  assumes taken: "mem c (me + jump_lock_at L) = 1" and apart: "rsp c - 8 \<noteq> me + jump_lock_at L"
  shows "\<exists>c'. vthread_try_yield_myself L me code ret c = Returned c' \<and> returned_to c ret 23 c' \<and>
     mem c' = (mem c)(rsp c - 8 := ret)"
  using assms
  by (simp add: vthread_try_yield_myself_def try_jump_fcontext_lock try_jump_attempt_def xchg_def
      leave_call_def call_jump_regs popq_eq returned_to_def Let_def fun_upd_idem)

lemma vthread_try_yield_free:
  assumes "mem c (me + jump_lock_at L) = 0" and "rsp c - 8 \<noteq> me + jump_lock_at L"
  shows "vthread_try_yield_myself L me code ret c = vthread_yield_myself L me code ret c"
  using assms
  by (simp add: vthread_try_yield_myself_def vthread_yield_myself_def try_jump_fcontext_lock
      safe_jump_fcontext_lock try_jump_attempt_def safe_jump_attempt_def xchg_def leave_call_def
      call_jump_regs Let_def)

section \<open>Properties\<close>

text \<open>
  C18. Starting a coroutine.  After the constructor, and with the object untouched since, the
  first \<open>resume\<close> succeeds, records the object under \<open>cur_hcoroutine\<close>, and enters \<open>manage\<close> with
  the object as its argument, on the object's own stack, aligned as the calling convention asks,
  above a return address that leads to \<open>finish\<close>; \<open>manage\<close> then calls the start routine with its
  argument.  With the FPU flag the coroutine starts with the creator's control words.
\<close>

theorem coroutine_starts_in_manage:
  fixes c j :: cpu and fpu :: bool and ss me manage finish start arg ret ret' :: c_size
  defines "c0 \<equiv> hcoroutine_new ss manage finish me start arg c"
    and "j' \<equiv> cpu_of (fst (resume ss fpu me ret j))"
  assumes fits: "object_fits ss me"
    and kept: "\<And>y. y \<in> object_range ss me \<Longrightarrow> mem j y = mem c0 y"
    and apart: "switch_cells j \<inter> object_range ss me = {}"
  shows "resume ss fpu me ret j = (Jumped j', me) \<and> rip j' = manage \<and> rdi j' = me \<and>
     (rsp j' - 8) AND 15 = 0 \<and> mem j' (rsp j') = finish \<and>
     unat me + 16 \<le> unat (rsp j') \<and> unat (rsp j') < unat me + 16 + unat ss \<and>
     rip (manage_start me ret' j') = start \<and> rdi (manage_start me ret' j') = arg \<and>
     (fpu \<longrightarrow> same_fpu c j')"
proof -
  let ?L = "hcoroutine_layout ss" and ?N = "new_context ss me"
  let ?f = "make_fcontext finish (constructor_cpu ss manage me start arg c)"
  have cells: "me + ctx_at ?L = me + (16 + ss)" "me + jump_lock_at ?L = me + (40 + ss)"
    "me + owner_ctx_at ?L = me + (24 + ss)" by (simp_all add: hcoroutine_layout_def)
  have ss: "128 \<le> unat ss" using fits by (simp add: object_fits_def)
  have in_range: "me + of_nat n \<in> object_range ss me" if "n \<le> unat ss + 47" for n
    using object_addr(2) [OF fits that] .
  have obj: "y \<in> object_range ss me"
    if "y \<in> {me, me + 8, me + (16 + ss), me + (24 + ss), me + (40 + ss)}" for y
    using that in_range [of 0] in_range [of 8] in_range [of "16 + unat ss"]
      in_range [of "24 + unat ss"] in_range [of "40 + unat ss"] ss by auto
  have frame: "?N + d \<in> object_range ss me" if "d \<in> {0, 0x38, 0x40}" for d
  proof -
    have n: "d = of_nat (unat d)" "unat d \<le> 0x40" using that by auto
    obtain k where "?N + d = me + of_nat k" "k \<le> unat ss - 56 + unat d"
      using new_context_addr [OF fits, of "unat d"] n by auto
    then show ?thesis using in_range [of k] n ss by simp
  qed
  note new = hcoroutine_new_mem [OF fits, where manage = manage and finish = finish and start = start
    and arg = arg and c = c]
  have jm: "mem j (me + (16 + ss)) = ?N" "mem j (me + (40 + ss)) = 0" "mem j me = start"
    "mem j (me + 8) = arg" "\<And>d. d \<in> {0, 0x38, 0x40} \<Longrightarrow> mem j (?N + d) = mem ?f (?N + d)"
    using new kept [OF obj] kept [OF frame] by (simp_all add: c0_def)
  have out: "y \<notin> switch_cells j" if "y \<in> object_range ss me" for y using apart that by auto
  let ?a = "enter_call ?L fpu me ret j"
  have a: "rdi ?a = me + (24 + ss)" "rsi ?a = ?N" "rdx ?a = me" "r8 ?a = me + (40 + ss)"
    "rcx ?a = of_bool fpu" "frame_cells ?a = switch_cells j"
    "mem ?a y = (if y \<in> object_range ss me then mem j y else mem ?a y)" for y
    using jm(1) out [of y] by (auto simp: enter_call_def call_jump_regs cells switch_cells_def)
  have am: "mem ?a y = mem j y" if "y \<in> object_range ss me" for y using a(7) [of y] that by simp
  have "mem ?a (r8 ?a) = 0" using am [OF obj, of "me + (40 + ss)"] jm(2) a(4) by simp
  then have jmp: "safe_jump_fcontext ?a = Jumped j'"
    using safe_jump_free [of ?a] by (auto simp: j'_def resume_def)
  let ?b = "jump_save (?a\<lparr>r9 := mem ?a (r8 ?a), mem := (mem ?a)(r8 ?a := snd (safe_jump_attempt (mem ?a (r8 ?a))))\<rparr>)"
  have j': "j' = jump_restore ?b" using safe_jump_eq [OF jmp] .
  note dist = object_cells_distinct [OF fits, of 0] object_cells_distinct [OF fits, of 56]
    object_cells_distinct [OF fits, of 64]
  have bm: "mem ?b y = mem j y"
    if "y \<in> object_range ss me" "y \<noteq> me + (24 + ss)" "y \<noteq> me + (40 + ss)" for y
    using that out [of y] am [of y] a jump_save_mem_outside [of y "?a\<lparr>r9 := mem ?a (r8 ?a),
      mem := (mem ?a)(r8 ?a := snd (safe_jump_attempt (mem ?a (r8 ?a))))\<rparr>"]
    by (simp add: frame_cells_def switch_cells_def)
  have b: "rsi ?b = ?N" "rdx ?b = me" "r8 ?b = me + (40 + ss)" "rcx ?b = of_bool fpu"
    using a by (simp_all add: jump_save_regs)
  have kb: "mem ?b (rax ?f + d) = mem ?f (rax ?f + d)" if "d \<in> {0, 0x38, 0x40}" for d
    using that bm [OF frame [OF that]] jm(5) [OF that] dist new(5) by auto
  have entry: "rip (jump_restore ?b) = rdx (constructor_cpu ss manage me start arg c) \<and>
     rdi (jump_restore ?b) = rdx ?b \<and> (rsp (jump_restore ?b) - 8) AND 15 = 0 \<and>
     mem (jump_restore ?b) (rsp (jump_restore ?b)) = finish \<and>
     (rcx ?b \<noteq> 0 \<longrightarrow> mxcsr (jump_restore ?b) = mxcsr (constructor_cpu ss manage me start arg c) \<and>
       x87_cw (jump_restore ?b) = x87_cw (constructor_cpu ss manage me start arg c))"
    by (rule make_fcontext_entry) (use kb b new(5) dist in auto)
  have sp: "rsp j' = ?N + 0x40" using b(1) by (simp add: j' jump_restore_rsp)
  obtain k where k: "?N + of_nat 64 = me + of_nat k" "unat ss - 71 + 64 \<le> k" "k \<le> unat ss - 56 + 64"
    by (rule new_context_addr [OF fits, of 64]) simp
  have bounds: "unat me + 16 \<le> unat (rsp j')" "unat (rsp j') < unat me + 16 + unat ss"
    using k ss sp object_addr(1) [OF fits, of k] by simp_all
  have jm': "mem j' me = start" "mem j' (me + 8) = arg"
    unfolding j' using dist(1) bm [OF obj, of me] bm [OF obj, of "me + 8"] jm b(3)
    by (auto simp: jump_restore_mem)
  show ?thesis
    using entry bounds jmp jm' b(2,4)
    by (simp add: resume_def j' manage_start_def call_def store_def constructor_cpu_def same_fpu_def)
qed

text \<open>A coroutine of 4 KiB at a concrete address; its owner calls from another stack.\<close>

theorem coroutine_starts_in_manage_witness:
  "let c0 = hcoroutine_new 0x1000 0x700 0x900 0x10000 0x800 42 example_caller;
       j' = cpu_of (fst (resume 0x1000 True 0x10000 0x400 c0))
   in rip j' = 0x700 \<and> rdi j' = 0x10000 \<and> mem j' (rsp j') = 0x900 \<and>
      rip (manage_start 0x10000 0x704 j') = 0x800 \<and> rdi (manage_start 0x10000 0x704 j') = 42"
proof -
  let ?c0 = "hcoroutine_new 0x1000 0x700 0x900 0x10000 0x800 42 example_caller"
  have "rsp ?c0 = 0x1000"
    by (simp add: hcoroutine_new_def Let_def make_fcontext_def cpu_defs example_caller_def)
  then have cells: "switch_cells ?c0 =
      {0xFF8, 0xFF0, 0xFE8, 0xFE0, 0xFD8, 0xFD0, 0xFC8, 0xFC0}"
    by (simp add: switch_cells_def)
  then have apart: "switch_cells ?c0 \<inter> object_range 0x1000 0x10000 = {}"
    unfolding cells object_range_def by auto
  have fits: "object_fits 0x1000 0x10000" by (simp add: object_fits_def)
  show ?thesis
    using coroutine_starts_in_manage [where c = example_caller and j = ?c0 and manage = "0x700"
        and finish = "0x900" and start = "0x800" and arg = 42 and fpu = True and ret = "0x400"
        and ret' = "0x704" and ss = "0x1000" and me = "0x10000"] fits apart
    by (simp add: Let_def)
qed

text \<open>
  C12. A worker's \<open>resume\<close> of a virtual thread and the thread's yield are a round trip both ways,
  whoever runs in between: \<open>resume\<close> returns the yielded value to the worker with its stack,
  callee-saved registers and floating point control words as they were, the next \<open>resume\<close>
  returns the yield in the thread the same way, and the lock of the switch is free again after
  each; provided the frames of the suspended sides and the cells of the object are not
  overwritten meanwhile, and the stacks do not overlap.
\<close>

theorem vthread_switch_round_trip:
  fixes c d e :: cpu and L :: coro_layout and me code ret ret' ret'' :: c_size
  defines "c' \<equiv> cpu_of (fst (vthread_resume L me ret c))"
    and "d' \<equiv> cpu_of (vthread_yield_myself L me code ret' d)"
    and "e' \<equiv> cpu_of (fst (vthread_resume L me ret'' e))"
  assumes L: "layout_ok L" and free: "mem c (me + jump_lock_at L) = 0"
    and run: "\<And>y. y \<in> switch_cells c \<union> {me + owner_ctx_at L, me + jump_lock_at L} \<Longrightarrow> mem d y = mem c' y"
    and run': "\<And>y. y \<in> switch_cells d \<union> {me + ctx_at L, me + jump_lock_at L} \<Longrightarrow> mem e y = mem d' y"
    and apart: "switch_cells c \<inter> object_cells L me = {}"
      "switch_cells d \<inter> (object_cells L me \<union> switch_cells c) = {}"
      "switch_cells e \<inter> (object_cells L me \<union> switch_cells d) = {}"
  shows "vthread_resume L me ret c = (Jumped c', me) \<and> vthread_yield_myself L me code ret' d = Jumped d' \<and>
     returned_to c ret code d' \<and> same_fpu c d' \<and> vthread_resume L me ret'' e = (Jumped e', me) \<and>
     returned_to d ret' me e' \<and> same_fpu d e' \<and> mem e' (me + jump_lock_at L) = 0"
  using coroutine_switches [where fpu = True, OF L free run [unfolded c'_def vthread_resume_def fst_conv]
      run' [unfolded d'_def vthread_yield_myself_def] apart]
  by (simp add: c'_def d'_def e'_def vthread_resume_def vthread_yield_myself_def)

theorem vthread_switch_round_trip_witness:
  "let L = \<lparr>ctx_at = 0x100, owner_ctx_at = 0x108, jump_lock_at = 0x110\<rparr>;
       c' = cpu_of (fst (vthread_resume L 0x10000 0x400 example_caller));
       d = c'\<lparr>rsp := 0x3000, rbx := 77, mxcsr := 0x1FA0\<rparr>;
       d' = cpu_of (vthread_yield_myself L 0x10000 2 0x500 d);
       e = d'\<lparr>rsp := 0x1000\<rparr>;
       e' = cpu_of (fst (vthread_resume L 0x10000 0x600 e))
   in rip d' = 0x400 \<and> rax d' = 2 \<and> rbx d' = 11 \<and> mxcsr d' = 0x1F80 \<and>
      rip e' = 0x500 \<and> rbx e' = 77 \<and> mxcsr e' = 0x1FA0"
proof -
  let ?L = "\<lparr>ctx_at = 0x100, owner_ctx_at = 0x108, jump_lock_at = 0x110\<rparr>"
  let ?c' = "cpu_of (fst (vthread_resume ?L 0x10000 0x400 example_caller))"
  let ?d = "?c'\<lparr>rsp := 0x3000, rbx := 77, mxcsr := 0x1FA0\<rparr>"
  let ?d' = "cpu_of (vthread_yield_myself ?L 0x10000 2 0x500 ?d)"
  let ?e = "?d'\<lparr>rsp := 0x1000\<rparr>"
  have L: "layout_ok ?L" by (simp add: layout_ok_def)
  have free: "mem example_caller (0x10000 + jump_lock_at ?L) = 0" by (simp add: example_caller_def)
  have cells: "switch_cells example_caller = {0xFF8, 0xFF0, 0xFE8, 0xFE0, 0xFD8, 0xFD0, 0xFC8, 0xFC0}"
    "switch_cells ?d = {0x2FF8, 0x2FF0, 0x2FE8, 0x2FE0, 0x2FD8, 0x2FD0, 0x2FC8, 0x2FC0}"
    "switch_cells ?e = {0xFF8, 0xFF0, 0xFE8, 0xFE0, 0xFD8, 0xFD0, 0xFC8, 0xFC0}"
    "object_cells ?L 0x10000 = {0x10100, 0x10108, 0x10110}"
    by (simp_all add: switch_cells_def object_cells_def example_caller_def)
  have apart: "switch_cells example_caller \<inter> object_cells ?L 0x10000 = {}"
    "switch_cells ?d \<inter> (object_cells ?L 0x10000 \<union> switch_cells example_caller) = {}"
    "switch_cells ?e \<inter> (object_cells ?L 0x10000 \<union> switch_cells ?d) = {}"
    unfolding cells by simp_all
  have kept: "mem ?d y = mem ?c' y" "mem ?e y = mem ?d' y" for y by simp_all
  show ?thesis
    using vthread_switch_round_trip [where ret'' = "0x600", OF L free kept(1) kept(2) apart]
    by (simp add: Let_def returned_to_def same_fpu_def) (simp add: example_caller_def)
qed

end
