(* ===== verification/Pwarpper.thy ===== *)
theory Pwarpper
  imports HPrelude
begin

text \<open>
  The library's access to the C library's own pthread functions: \<open>pwarpper\<close> of
  \<open>inc/pwarpper.h\<close> and \<open>src/pwarpper.cpp\<close>.  The dynamic linker is a parameter, with the
  documented behaviour of \<open>dlsym\<close> and \<open>dlerror\<close> as the predicate \<open>dl_laws\<close>.
\<close>

section \<open>The dynamic linker\<close>

record 'd dynamic_linker =
  dlopen :: "string \<Rightarrow> 'd \<Rightarrow> c_size \<times> 'd"
  dlsym :: "c_size \<Rightarrow> string \<Rightarrow> 'd \<Rightarrow> c_size \<times> 'd"
  dlerror :: "'d \<Rightarrow> string option \<times> 'd"

text \<open>
  \<open>table h s\<close> is the address of the symbol \<open>s\<close> in the library \<open>h\<close>, \<open>quiet d\<close> says that no error
  is pending.  \<open>dlerror\<close> reports an error exactly when a call since the last \<open>dlerror\<close> failed.
\<close>

definition dl_laws :: "'d dynamic_linker \<Rightarrow> (c_size \<Rightarrow> string \<Rightarrow> c_size option) \<Rightarrow> ('d \<Rightarrow> bool) \<Rightarrow> bool" where
  "dl_laws dl table quiet \<longleftrightarrow>
     (\<forall>d s. quiet d \<longrightarrow> fst (dlopen dl s d) \<noteq> 0 \<longrightarrow> quiet (snd (dlopen dl s d))) \<and>
     (\<forall>d h s a. quiet d \<longrightarrow> table h s = Some a \<longrightarrow> fst (dlsym dl h s d) = a \<and> quiet (snd (dlsym dl h s d))) \<and>
     (\<forall>d h s. quiet d \<longrightarrow> table h s = None \<longrightarrow> fst (dlerror dl (snd (dlsym dl h s d))) \<noteq> None) \<and>
     (\<forall>d. quiet d \<longrightarrow> fst (dlerror dl d) = None \<and> quiet (snd (dlerror dl d)))"

section \<open>\<open>pwarpper\<close>\<close>

text \<open>The static function pointers, by the name after \<open>raw_\<close>.\<close>

datatype raw_fn =
    raw_pthread_create | raw_pthread_cancel | raw_pthread_join | raw_pthread_exit
  | raw_pthread_cleanup_push | raw_pthread_self | raw_pthread_barrier_wait
  | raw_pthread_cond_wait | raw_pthread_mutex_lock | raw_pthread_mutex_unlock
  | raw_pthread_mutex_trylock | raw_sem_wait | raw_sem_trywait | raw_sem_post
  | raw_pthread_cond_timedwait | raw_pthread_cond_signal | raw_pthread_cond_broadcast
  | raw_pthread_getspecific | raw_pthread_setspecific | raw_pthread_yield | raw_sched_yield

record pwarpper =
  raw :: "raw_fn \<Rightarrow> c_size"
  handle :: c_size

definition EXIT_FAILURE :: int where
  "EXIT_FAILURE = 1"

text \<open>\<^const>\<open>Inl\<close> is the exit of the process with that status.\<close>

definition get_routine ::
    "'d dynamic_linker \<Rightarrow> string \<Rightarrow> pwarpper \<times> 'd \<Rightarrow> int + (c_size \<times> pwarpper \<times> 'd)" where
  "get_routine dl nm = (\<lambda>(pw, d).
     case dlsym dl (handle pw) nm d of (func, d) \<Rightarrow>
     case dlerror dl d of (err, d) \<Rightarrow>
       (case err of Some _ \<Rightarrow> Inl EXIT_FAILURE | None \<Rightarrow> Inr (func, pw, d)))"

text \<open>The assignments of \<open>init_func\<close>, in its order.\<close>

definition routines :: "(raw_fn \<times> string) list" where
  "routines = [
     (raw_pthread_create, ''pthread_create''),
     (raw_pthread_cancel, ''pthread_cancel''),
     (raw_pthread_join, ''pthread_join''),
     (raw_pthread_exit, ''pthread_exit''),
     (raw_pthread_cleanup_push, ''_pthread_cleanup_push''),
     (raw_pthread_self, ''pthread_self''),
     (raw_pthread_barrier_wait, ''pthread_barrier_wait''),
     (raw_pthread_cond_wait, ''pthread_cond_wait''),
     (raw_pthread_mutex_lock, ''pthread_mutex_lock''),
     (raw_pthread_mutex_unlock, ''pthread_mutex_unlock''),
     (raw_pthread_mutex_trylock, ''pthread_mutex_trylock''),
     (raw_pthread_cond_timedwait, ''pthread_cond_timedwait''),
     (raw_pthread_cond_signal, ''pthread_cond_signal''),
     (raw_pthread_cond_broadcast, ''pthread_cond_broadcast''),
     (raw_sem_wait, ''sem_wait''),
     (raw_sem_trywait, ''sem_trywait''),
     (raw_sem_post, ''sem_post''),
     (raw_pthread_getspecific, ''pthread_getspecific''),
     (raw_pthread_setspecific, ''pthread_setspecific''),
     (raw_pthread_yield, ''pthread_yield''),
     (raw_sched_yield, ''sched_yield'')]"

fun assign_routines ::
    "'d dynamic_linker \<Rightarrow> (raw_fn \<times> string) list \<Rightarrow> pwarpper \<times> 'd \<Rightarrow> int + (pwarpper \<times> 'd)" where
  "assign_routines dl [] st = Inr st"
| "assign_routines dl ((f, nm) # rs) st = (case get_routine dl nm st of
     Inl e \<Rightarrow> Inl e
   | Inr (func, pw, d) \<Rightarrow> assign_routines dl rs (pw\<lparr>raw := (raw pw)(f := func)\<rparr>, d))"

definition init_func :: "'d dynamic_linker \<Rightarrow> pwarpper \<times> 'd \<Rightarrow> int + (pwarpper \<times> 'd)" where
  "init_func dl = assign_routines dl routines"

definition init_all :: "'d dynamic_linker \<Rightarrow> pwarpper \<times> 'd \<Rightarrow> int + (pwarpper \<times> 'd)" where
  "init_all dl = (\<lambda>(pw, d).
     case dlopen dl ''libpthread.so.0'' d of (h, d) \<Rightarrow>
       if h = 0 then Inl EXIT_FAILURE else init_func dl (pw\<lparr>handle := h\<rparr>, d))"

text \<open>
  \<open>getInstance\<close>: the function-local static is initialised by the first call (C++11); later calls
  only read it.
\<close>

definition getInstance ::
    "'d dynamic_linker \<Rightarrow> pwarpper option \<times> 'd \<Rightarrow> int + (pwarpper option \<times> 'd)" where
  "getInstance dl = (\<lambda>(inst, d). case inst of
     Some pw \<Rightarrow> Inr (Some pw, d)
   | None \<Rightarrow> (case init_all dl (\<lparr>raw = \<lambda>_. 0, handle = 0\<rparr>, d) of
       Inl e \<Rightarrow> Inl e
     | Inr (pw, d) \<Rightarrow> Inr (Some pw, d)))"

section \<open>Initialisation\<close>

lemma dl_lawsD:
  assumes "dl_laws dl table quiet" and "quiet d"
  shows "fst (dlopen dl s d) \<noteq> 0 \<Longrightarrow> quiet (snd (dlopen dl s d))"
    and "table h s = Some a \<Longrightarrow> fst (dlsym dl h s d) = a"
    and "table h s = Some a \<Longrightarrow> quiet (snd (dlsym dl h s d))"
    and "table h s = None \<Longrightarrow> fst (dlerror dl (snd (dlsym dl h s d))) \<noteq> None"
    and "fst (dlerror dl d) = None" and "quiet (snd (dlerror dl d))"
  using assms by (simp_all add: dl_laws_def)

lemma get_routine_found:
  assumes laws: "dl_laws dl table quiet" and q: "quiet d" and found: "table (handle pw) nm = Some a"
  obtains d' where "get_routine dl nm (pw, d) = Inr (a, pw, d')" and "quiet d'"
proof -
  let ?d1 = "snd (dlsym dl (handle pw) nm d)"
  have q1: "quiet ?d1" using dl_lawsD(3) [OF laws q found] .
  show ?thesis
    using dl_lawsD(2) [OF laws q found] dl_lawsD(5,6) [OF laws q1]
    by (intro that [of "snd (dlerror dl ?d1)"]) (simp_all add: get_routine_def split_beta)
qed

lemma get_routine_missing:
  assumes "dl_laws dl table quiet" and "quiet d" and "table (handle pw) nm = None"
  shows "get_routine dl nm (pw, d) = Inl EXIT_FAILURE"
  using dl_lawsD(4) [OF assms] by (auto simp: get_routine_def split_beta split: option.splits)

text \<open>Every name is looked up; the last assignment to a pointer is the one that stays.\<close>

lemma assign_routines_found:
  assumes laws: "dl_laws dl table quiet"
  shows "quiet d \<Longrightarrow> (\<forall>r \<in> set rs. table (handle pw) (snd r) \<noteq> None) \<Longrightarrow> distinct (map fst rs) \<Longrightarrow>
    \<exists>pw' d'. assign_routines dl rs (pw, d) = Inr (pw', d') \<and> handle pw' = handle pw \<and>
      (\<forall>f. raw pw' f = (case map_of rs f of Some s \<Rightarrow> the (table (handle pw) s) | None \<Rightarrow> raw pw f))"
proof (induction rs arbitrary: pw d)
  case (Cons r rs)
  obtain f s where r: "r = (f, s)" by (cases r)
  obtain a where a: "table (handle pw) s = Some a" using Cons.prems(2) r by auto
  obtain d' where g: "get_routine dl s (pw, d) = Inr (a, pw, d')" "quiet d'"
    by (rule get_routine_found [OF laws Cons.prems(1) a])
  let ?pw = "pw\<lparr>raw := (raw pw)(f := a)\<rparr>"
  have rest: "\<forall>r \<in> set rs. table (handle ?pw) (snd r) \<noteq> None" and dist: "distinct (map fst rs)"
    using Cons.prems(2,3) r by auto
  obtain pw' d'' where IH: "assign_routines dl rs (?pw, d') = Inr (pw', d'')" "handle pw' = handle ?pw"
    "\<forall>f. raw pw' f = (case map_of rs f of Some s \<Rightarrow> the (table (handle ?pw) s) | None \<Rightarrow> raw ?pw f)"
    using Cons.IH [OF g(2) rest dist] by blast
  have "map_of rs f = None" using Cons.prems(3) r by (simp add: map_of_eq_None_iff)
  then show ?case using IH g(1) a r by (auto split: option.splits)
qed simp

lemma assign_routines_missing:
  assumes laws: "dl_laws dl table quiet"
  shows "quiet d \<Longrightarrow> (f, s) \<in> set rs \<Longrightarrow> table (handle pw) s = None \<Longrightarrow>
    assign_routines dl rs (pw, d) = Inl EXIT_FAILURE"
proof (induction rs arbitrary: pw d)
  case (Cons r rs)
  obtain g t where r: "r = (g, t)" by (cases r)
  show ?case
  proof (cases "table (handle pw) t")
    case None
    then show ?thesis using get_routine_missing [OF laws Cons.prems(1)] r by simp
  next
    case (Some a)
    obtain d' where g: "get_routine dl t (pw, d) = Inr (a, pw, d')" "quiet d'"
      by (rule get_routine_found [OF laws Cons.prems(1) Some])
    moreover have "(f, s) \<in> set rs" using Cons.prems(2,3) Some r by auto
    ultimately show ?thesis using Cons.IH [OF g(2)] Cons.prems(3) r by simp
  qed
qed simp

lemma routines_complete: "map_of routines f \<noteq> None"
  by (cases f) (simp_all add: routines_def)

lemma routines_distinct: "distinct (map fst routines)"
  by (simp add: routines_def)

text \<open>
  C39. Initialising the access to the real pthread functions is all or nothing.  If the library
  can be opened and has all the symbols, \<open>init_all\<close> returns and every one of the 21 pointers,
  none left null by omission, is the address of the symbol of its name; if the library or any
  one symbol is missing the process exits with \<open>EXIT_FAILURE\<close>, so no caller ever sees a partly
  filled table.
\<close>

theorem init_all_resolves:
  assumes laws: "dl_laws dl table quiet" and q: "quiet d"
  defines "h \<equiv> fst (dlopen dl ''libpthread.so.0'' d)"
  shows "case init_all dl (pw, d) of
      Inl code \<Rightarrow> code = EXIT_FAILURE \<and> (h = 0 \<or> (\<exists>(f, s) \<in> set routines. table h s = None))
    | Inr (pw', d') \<Rightarrow> handle pw' = h \<and> h \<noteq> 0 \<and>
        (\<forall>f. \<exists>s. (f, s) \<in> set routines \<and> table h s = Some (raw pw' f))"
proof -
  obtain d1 where o1: "dlopen dl ''libpthread.so.0'' d = (h, d1)" by (simp add: h_def prod_eq_iff)
  show ?thesis
  proof (cases "h = 0")
    case True
    then show ?thesis using o1 by (simp add: init_all_def)
  next
    case h: False
    then have q1: "quiet d1" using dl_lawsD(1) [OF laws q, of "''libpthread.so.0''"] o1 by simp
    have unfold: "init_all dl (pw, d) = assign_routines dl routines (pw\<lparr>handle := h\<rparr>, d1)"
      using h o1 by (simp add: init_all_def init_func_def)
    show ?thesis
    proof (cases "\<exists>(f, s) \<in> set routines. table h s = None")
      case True
      then obtain f s where "(f, s) \<in> set routines" "table h s = None" by auto
      then show ?thesis
        using assign_routines_missing [OF laws q1, of f s routines "pw\<lparr>handle := h\<rparr>"] True
        by (simp add: unfold)
    next
      case False
      then have all: "\<forall>r \<in> set routines. table (handle (pw\<lparr>handle := h\<rparr>)) (snd r) \<noteq> None"
        by fastforce
      obtain pw' d' where ok: "assign_routines dl routines (pw\<lparr>handle := h\<rparr>, d1) = Inr (pw', d')"
        "handle pw' = handle (pw\<lparr>handle := h\<rparr>)"
        "\<forall>f. raw pw' f = (case map_of routines f of Some s \<Rightarrow> the (table (handle (pw\<lparr>handle := h\<rparr>)) s)
          | None \<Rightarrow> raw (pw\<lparr>handle := h\<rparr>) f)"
        using assign_routines_found [OF laws q1 all routines_distinct] by blast
      have "\<exists>s. (f, s) \<in> set routines \<and> table h s = Some (raw pw' f)" for f
      proof -
        obtain s where s: "map_of routines f = Some s" using routines_complete [of f] by auto
        then have "(f, s) \<in> set routines" by (rule map_of_SomeD)
        moreover have "table h s \<noteq> None" using False calculation by auto
        ultimately show ?thesis using ok(3) s by auto
      qed
      then show ?thesis using ok h by (simp add: unfold)
    qed
  qed
qed

text \<open>
  A linker whose state is the pending error: it knows one library, in which a symbol is at the
  address of its length.
\<close>

definition one_library :: "string list \<Rightarrow> (string option) dynamic_linker" where
  "one_library missing =
     \<lparr>dlopen = (\<lambda>s d. if s = ''libpthread.so.0'' then (4096, d) else (0, Some s)),
      dlsym = (\<lambda>h s d. if s \<in> set missing then (0, Some s) else (of_nat (length s), d)),
      dlerror = (\<lambda>d. (d, None))\<rparr>"

lemma one_library_laws:
  "dl_laws (one_library missing)
     (\<lambda>h s. if s \<in> set missing then None else Some (of_nat (length s))) (\<lambda>d. d = None)"
  by (simp add: dl_laws_def one_library_def)

theorem init_all_resolves_witness:
  "(\<exists>pw' d'. init_all (one_library []) (\<lparr>raw = \<lambda>_. 0, handle = 0\<rparr>, None) = Inr (pw', d') \<and>
      raw pw' raw_sched_yield = 11 \<and> handle pw' = 4096) \<and>
   init_all (one_library [''sem_post'']) (\<lparr>raw = \<lambda>_. 0, handle = 0\<rparr>, None) = Inl EXIT_FAILURE"
proof -
  let ?pw = "\<lparr>raw = \<lambda>_. 0, handle = 0\<rparr>"
  have r: "(raw_sched_yield, s) \<in> set routines \<Longrightarrow> s = ''sched_yield''" for s
    by (simp add: routines_def)
  have "case init_all (one_library []) (?pw, None) of
      Inl code \<Rightarrow> False | Inr (pw', d') \<Rightarrow> handle pw' = 4096 \<and>
        (\<forall>f. \<exists>s. (f, s) \<in> set routines \<and> Some (of_nat (length s)) = Some (raw pw' f))"
    using init_all_resolves [OF one_library_laws [of "[]"] refl, of ?pw]
    by (cases "init_all (one_library []) (?pw, None)")
      (simp_all add: split_beta, simp_all add: one_library_def)
  then obtain pw' d' where ok: "init_all (one_library []) (?pw, None) = Inr (pw', d')" "handle pw' = 4096"
    and all: "\<forall>f. \<exists>s. (f, s) \<in> set routines \<and> Some (of_nat (length s)) = Some (raw pw' f)"
    by (auto split: sum.splits)
  obtain s where "(raw_sched_yield, s) \<in> set routines" "of_nat (length s) = raw pw' raw_sched_yield"
    using all by fastforce
  with r have "raw pw' raw_sched_yield = 11" by fastforce
  with ok have "\<exists>pw' d'. init_all (one_library []) (?pw, None) = Inr (pw', d') \<and>
      raw pw' raw_sched_yield = 11 \<and> handle pw' = 4096" by blast
  moreover have "init_all (one_library [''sem_post'']) (?pw, None) = Inl EXIT_FAILURE"
  proof (cases "init_all (one_library [''sem_post'']) (?pw, None)")
    case (Inl code)
    then show ?thesis using init_all_resolves [OF one_library_laws [of "[''sem_post'']"] refl, of ?pw] by simp
  next
    case (Inr r)
    have "s = ''sem_post''" if "(raw_sem_post, s) \<in> set routines" for s
      using that by (simp add: routines_def)
    with Inr show ?thesis
      using init_all_resolves [OF one_library_laws [of "[''sem_post'']"] refl, of ?pw]
      by (fastforce simp: split_beta)
  qed
  ultimately show ?thesis by simp
qed

text \<open>Asking again for the instance changes nothing.\<close>

lemma getInstance_idem:
  "getInstance dl (inst, d) = Inr (inst', d') \<Longrightarrow> getInstance dl (inst', d'') = Inr (inst', d'')"
  by (auto simp: getInstance_def split: option.splits sum.splits)

end
