(* ===== verification/HCondSpec.thy ===== *)
theory HCondSpec
  imports HCond
begin

text \<open>
  Waiters, signallers and broadcasters on one condition variable, in every interleaving of
  their steps: no waiter is lost or handed to the run queue twice, the waiter count is exact, and
  a broadcast drains the queue.
\<close>

section \<open>Threads on one condition variable\<close>

text \<open>
  \<open>woken t\<close> counts the entries for \<open>t\<close> in the run queue.  A waiter that has yielded runs again
  when its entry is taken.  The mutex word is the environment's: it may hold any value when a
  thread comes to it.
\<close>

datatype cond_at =
    AtWait cond_wait_pc | AtSignal cond_signal_pc | AtBroadcast cond_broadcast_pc

datatype cond_label =
    CallWait nat | CallSignal nat | CallBroadcast nat | CondRun nat c_uint

record 'q cond_sys =
  cv :: "'q hthread_cond"
  cond_pcs :: "nat \<Rightarrow> cond_at option"
  woken :: "nat \<Rightarrow> nat"

definition woken_by :: "effect list \<Rightarrow> (nat \<Rightarrow> nat) \<Rightarrow> nat \<Rightarrow> nat" where
  "woken_by es f = (\<lambda>t. f t + count_list es (Enqueue t))"

fun cond_do :: "'q boost_queue \<Rightarrow> nat \<Rightarrow> nat \<Rightarrow> c_uint \<Rightarrow> cond_at \<Rightarrow> 'q cond_sys \<Rightarrow> 'q cond_sys" where
  "cond_do bq m t c (AtWait pc) s =
     (case pthread_cond_wait_step bq t m pc (cv s, c) of (act, (hc, _), es) \<Rightarrow>
        s\<lparr>cv := hc, cond_pcs := (cond_pcs s)(t := map_option AtWait (continue_at act)),
          woken := woken_by es ((woken s)(t := woken s t - of_bool (pc = CW_resumed)))\<rparr>)"
| "cond_do bq m t c (AtSignal pc) s =
     (case pthread_cond_signal_step bq pc (cv s) of (act, hc, es) \<Rightarrow>
        s\<lparr>cv := hc, cond_pcs := (cond_pcs s)(t := map_option AtSignal (continue_at act)),
          woken := woken_by es (woken s)\<rparr>)"
| "cond_do bq m t c (AtBroadcast pc) s =
     (case pthread_cond_broadcast_step bq t pc (cv s) of (act, hc, es) \<Rightarrow>
        s\<lparr>cv := hc, cond_pcs := (cond_pcs s)(t := map_option AtBroadcast (continue_at act)),
          woken := woken_by es (woken s)\<rparr>)"

definition cond_call :: "nat \<Rightarrow> cond_at \<Rightarrow> 'q cond_sys \<Rightarrow> 'q cond_sys" where
  "cond_call t pc s = (if t < MAX_VTHREADS \<and> cond_pcs s t = None
     then s\<lparr>cond_pcs := (cond_pcs s)(t := Some pc)\<rparr> else s)"

fun cond_step :: "'q boost_queue \<Rightarrow> nat \<Rightarrow> cond_label \<Rightarrow> 'q cond_sys \<Rightarrow> 'q cond_sys" where
  "cond_step bq m (CallWait t) s = cond_call t (AtWait CW_test) s"
| "cond_step bq m (CallSignal t) s = cond_call t (AtSignal CS_test) s"
| "cond_step bq m (CallBroadcast t) s = cond_call t (AtBroadcast CB_test) s"
| "cond_step bq m (CondRun t c) s = (case cond_pcs s t of
     None \<Rightarrow> s
   | Some pc \<Rightarrow> if pc = AtWait CW_resumed \<and> woken s t = 0 then s else cond_do bq m t c pc s)"

definition cond_start :: "'q hthread_cond \<Rightarrow> 'q cond_sys" where
  "cond_start hc = \<lparr>cv = snd (pthread_cond_init hc), cond_pcs = (\<lambda>_. None), woken = (\<lambda>_. 0)\<rparr>"

section \<open>The invariant\<close>

fun hand_of :: "cond_at option \<Rightarrow> nat option" where
  "hand_of (Some (AtSignal (CS_sub w))) = Some w"
| "hand_of (Some (AtSignal (CS_status w))) = Some w"
| "hand_of (Some (AtSignal (CS_enqueue w))) = Some w"
| "hand_of (Some (AtBroadcast (CB_sub w))) = Some w"
| "hand_of (Some (AtBroadcast (CB_enqueue w))) = Some w"
| "hand_of _ = None"

fun asleep :: "cond_at option \<Rightarrow> bool" where
  "asleep (Some (AtWait CW_yield)) = True"
| "asleep (Some (AtWait CW_resumed)) = True"
| "asleep _ = False"

text \<open>Counted in \<open>waiter_num\<close>: waiters before their push, and those a waker has yet to subtract.\<close>

fun counted :: "cond_at option \<Rightarrow> bool" where
  "counted (Some (AtWait CW_status)) = True"
| "counted (Some (AtWait CW_runnable)) = True"
| "counted (Some (AtWait CW_push)) = True"
| "counted (Some (AtSignal (CS_sub w))) = True"
| "counted (Some (AtBroadcast (CB_sub w))) = True"
| "counted _ = False"

text \<open>Past the test of the queue pointer.\<close>

fun needs_queue :: "cond_at option \<Rightarrow> bool" where
  "needs_queue None = False"
| "needs_queue (Some (AtWait pc)) = (pc \<notin> {CW_test, CW_swap})"
| "needs_queue (Some (AtSignal pc)) = (pc \<notin> {CS_test, CS_swap})"
| "needs_queue (Some (AtBroadcast pc)) = (pc \<notin> {CB_test, CB_swap})"

definition queued :: "('q \<Rightarrow> nat list) \<Rightarrow> 'q hthread_cond \<Rightarrow> nat list" where
  "queued contents hc = (case cond_blocked hc of None \<Rightarrow> [] | Some q \<Rightarrow> contents q)"

abbreviation in_hand :: "nat \<Rightarrow> cond_at option set" where
  "in_hand w \<equiv> {p. hand_of p = Some w}"

definition cond_inv :: "('q \<Rightarrow> nat list) \<Rightarrow> 'q cond_sys \<Rightarrow> bool" where
  "cond_inv contents s \<longleftrightarrow>
     (\<forall>t. MAX_VTHREADS \<le> t \<longrightarrow> cond_pcs s t = None) \<and>
     (\<forall>t. needs_queue (cond_pcs s t) \<longrightarrow> cond_blocked (cv s) \<noteq> None) \<and>
     (\<forall>w. count_list (queued contents (cv s)) w + count_at (cond_pcs s) (in_hand w) + woken s w =
        of_bool (asleep (cond_pcs s w))) \<and>
     waiter_num (cv s) = of_nat (length (queued contents (cv s)) + count_at (cond_pcs s) (Collect counted))"

lemma cond_invD:
  assumes "cond_inv contents s"
  shows "MAX_VTHREADS \<le> t \<Longrightarrow> cond_pcs s t = None"
    and "needs_queue (cond_pcs s t) \<Longrightarrow> cond_blocked (cv s) \<noteq> None"
    and "count_list (queued contents (cv s)) w + count_at (cond_pcs s) (in_hand w) + woken s w =
        of_bool (asleep (cond_pcs s w))"
    and "waiter_num (cv s) = of_nat (length (queued contents (cv s)) + count_at (cond_pcs s) (Collect counted))"
  using assms unfolding cond_inv_def by blast+

text \<open>
  One step of thread \<open>t\<close> from \<open>cond_pcs s t\<close> to \<open>p\<close>.  The balance of every waiter and of the count
  has to be kept by what the step does to the queue, the hands and the run queue.
\<close>

lemma cond_inv_step:
  assumes inv: "cond_inv contents s" and t: "t < MAX_VTHREADS"
    and queue: "needs_queue p \<or> cond_blocked (cv s) \<noteq> None \<Longrightarrow> cond_blocked hc \<noteq> None"
    and balance: "\<And>w. count_list (queued contents hc) w + of_bool (hand_of p = Some w) + f w +
        of_bool (w = t \<and> asleep (cond_pcs s t)) =
      count_list (queued contents (cv s)) w + of_bool (hand_of (cond_pcs s t) = Some w) + woken s w +
        of_bool (w = t \<and> asleep p)"
    and waiters: "waiter_num hc + of_nat (length (queued contents (cv s)) + of_bool (counted (cond_pcs s t))) =
      waiter_num (cv s) + of_nat (length (queued contents hc) + of_bool (counted p))"
  shows "cond_inv contents (s\<lparr>cv := hc, cond_pcs := (cond_pcs s)(t := p), woken := f\<rparr>)"
proof -
  note I = cond_invD [OF inv]
  let ?s = "s\<lparr>cv := hc, cond_pcs := (cond_pcs s)(t := p), woken := f\<rparr>"
  have up: "count_at ((cond_pcs s)(t := p)) S + of_bool (cond_pcs s t \<in> S) =
    count_at (cond_pcs s) S + of_bool (p \<in> S)" for S by (rule count_at_upd [OF t])
  have 1: "MAX_VTHREADS \<le> u \<Longrightarrow> cond_pcs ?s u = None" for u using I(1) t by auto
  have 2: "needs_queue (cond_pcs ?s u) \<Longrightarrow> cond_blocked hc \<noteq> None" for u
    using queue I(2) [of u] by (cases "u = t") auto
  have 3: "count_list (queued contents hc) w + count_at ((cond_pcs s)(t := p)) (in_hand w) + f w =
      of_bool (asleep (((cond_pcs s)(t := p)) w))" for w
    using I(3) [of w] balance [of w] up [of "in_hand w"] by (cases "w = t") simp_all
  have "waiter_num hc + of_nat (length (queued contents (cv s)) + of_bool (counted (cond_pcs s t))) =
      of_nat (length (queued contents hc) + count_at ((cond_pcs s)(t := p)) (Collect counted)) +
      (of_nat (length (queued contents (cv s)) + of_bool (counted (cond_pcs s t))) :: c_uint)"
  proof -
    have "of_nat (count_at ((cond_pcs s)(t := p)) (Collect counted) + of_bool (counted (cond_pcs s t))) =
      (of_nat (count_at (cond_pcs s) (Collect counted) + of_bool (counted p)) :: c_uint)"
      using up [of "Collect counted"] by simp
    then show ?thesis unfolding waiters I(4) by (simp add: algebra_simps)
  qed
  then have 4: "waiter_num hc =
      of_nat (length (queued contents hc) + count_at ((cond_pcs s)(t := p)) (Collect counted))"
    by (rule add_right_imp_eq)
  show ?thesis unfolding cond_inv_def using 1 2 3 4 by simp
qed

lemma woken_by_simps [simp]:
  "woken_by [] f = f" "woken_by [Set_status w r] f = f" "woken_by [Set_runnable w b] f = f"
  "woken_by [Enqueue w] f = f(w := f w + 1)"
  by (auto simp: woken_by_def)

lemma queued_simps [simp]:
  "queued contents (hc\<lparr>waiter_num := n\<rparr>) = queued contents hc"
  "queued contents (hc\<lparr>cond_blocked := Some q\<rparr>) = contents q"
  by (simp_all add: queued_def)

lemma queued_the: "cond_blocked hc \<noteq> None \<Longrightarrow> queued contents hc = contents (the (cond_blocked hc))"
  by (auto simp: queued_def)

lemma swap_queue_facts:
  assumes laws: "boost_queue_laws bq contents" and "swap_queue bq hc = (ok, hc')"
  shows "queued contents hc' = queued contents hc" and "waiter_num hc' = waiter_num hc"
    and "cond_blocked hc' \<noteq> None" and "hc' = hc\<lparr>cond_blocked := cond_blocked hc'\<rparr>"
  using assms bq_new_contents [OF laws]
  by (auto simp: swap_queue_def queued_def split: option.splits)

lemma pop_facts:
  assumes "boost_queue_laws bq contents" and "bq_pop bq (the (cond_blocked hc)) = (v, q)"
    and "cond_blocked hc \<noteq> None"
  shows "queued contents hc = (case v of None \<Rightarrow> [] | Some w \<Rightarrow> w # contents q)"
    and "v = None \<Longrightarrow> contents q = []"
  using bq_pop_Some [OF assms(1), of "the (cond_blocked hc)"] bq_pop_None [OF assms(1), of "the (cond_blocked hc)"]
    assms(2) queued_the [OF assms(3), of contents] by (auto split: option.splits)

lemma push_facts:
  assumes "boost_queue_laws bq contents" and "bq_push bq w (the (cond_blocked hc)) = (ok, q)"
    and "cond_blocked hc \<noteq> None"
  shows "contents q = (if ok then queued contents hc @ [w] else queued contents hc)"
  using bq_push_contents [OF assms(1,2)] queued_the [OF assms(3), of contents] by simp

lemma cond_do_wait:
  "pthread_cond_wait_step bq t m pc (cv s, c) = (act, (hc, c'), es) \<Longrightarrow> cond_do bq m t c (AtWait pc) s =
     s\<lparr>cv := hc, cond_pcs := (cond_pcs s)(t := map_option AtWait (continue_at act)),
       woken := woken_by es ((woken s)(t := woken s t - of_bool (pc = CW_resumed)))\<rparr>"
  by simp

lemma cond_do_signal:
  "pthread_cond_signal_step bq pc (cv s) = (act, hc, es) \<Longrightarrow> cond_do bq m t c (AtSignal pc) s =
     s\<lparr>cv := hc, cond_pcs := (cond_pcs s)(t := map_option AtSignal (continue_at act)),
       woken := woken_by es (woken s)\<rparr>"
  by simp

lemma cond_do_broadcast:
  "pthread_cond_broadcast_step bq t pc (cv s) = (act, hc, es) \<Longrightarrow> cond_do bq m t c (AtBroadcast pc) s =
     s\<lparr>cv := hc, cond_pcs := (cond_pcs s)(t := map_option AtBroadcast (continue_at act)),
       woken := woken_by es (woken s)\<rparr>"
  by simp

lemma cond_wait_inv:
  assumes laws: "boost_queue_laws bq contents" and inv: "cond_inv contents s"
    and t: "t < MAX_VTHREADS" and at: "cond_pcs s t = Some (AtWait pc)"
    and resume: "pc = CW_resumed \<Longrightarrow> 0 < woken s t"
  shows "cond_inv contents (cond_do bq m t c (AtWait pc) s)"
proof -
  have q: "pc \<notin> {CW_test, CW_swap} \<Longrightarrow> cond_blocked (cv s) \<noteq> None"
    using cond_invD(2) [OF inv, of t] at by simp
  obtain act hc c' es where st: "pthread_cond_wait_step bq t m pc (cv s, c) = (act, (hc, c'), es)"
    by (metis prod_cases3 surj_pair)
  obtain ok hc2 where sw: "swap_queue bq (cv s) = (ok, hc2)" by (cases "swap_queue bq (cv s)")
  obtain ok' q' where push: "bq_push bq t (the (cond_blocked (cv s))) = (ok', q')"
    by (cases "bq_push bq t (the (cond_blocked (cv s)))")
  note facts = swap_queue_facts [OF laws sw] push_facts [OF laws push]
  let ?p = "map_option AtWait (continue_at act)"
    and ?f = "woken_by es ((woken s)(t := woken s t - of_bool (pc = CW_resumed)))"
  show ?thesis unfolding cond_do_wait [OF st]
  proof (rule cond_inv_step [OF inv t])
    show "cond_blocked hc \<noteq> None" if "needs_queue ?p \<or> cond_blocked (cv s) \<noteq> None"
      using that st q facts sw push by (cases pc) (auto simp: sync_defs split: if_splits)
    show "count_list (queued contents hc) w + of_bool (hand_of ?p = Some w) + ?f w +
        of_bool (w = t \<and> asleep (cond_pcs s t)) =
      count_list (queued contents (cv s)) w + of_bool (hand_of (cond_pcs s t) = Some w) + woken s w +
        of_bool (w = t \<and> asleep ?p)" for w
      using st q facts sw push resume by (cases pc) (auto simp: at sync_defs split: if_splits)
    show "waiter_num hc + of_nat (length (queued contents (cv s)) + of_bool (counted (cond_pcs s t))) =
      waiter_num (cv s) + of_nat (length (queued contents hc) + of_bool (counted ?p))"
      using st q facts sw push by (cases pc) (auto simp: at sync_defs split: if_splits)
  qed
qed

lemma cond_signal_inv:
  assumes laws: "boost_queue_laws bq contents" and inv: "cond_inv contents s"
    and t: "t < MAX_VTHREADS" and at: "cond_pcs s t = Some (AtSignal pc)"
  shows "cond_inv contents (cond_do bq m t c (AtSignal pc) s)"
proof -
  have q: "pc \<notin> {CS_test, CS_swap} \<Longrightarrow> cond_blocked (cv s) \<noteq> None"
    using cond_invD(2) [OF inv, of t] at by simp
  obtain act hc es where st: "pthread_cond_signal_step bq pc (cv s) = (act, hc, es)"
    by (metis prod_cases3)
  obtain ok hc2 where sw: "swap_queue bq (cv s) = (ok, hc2)" by (cases "swap_queue bq (cv s)")
  obtain v q' where pop: "bq_pop bq (the (cond_blocked (cv s))) = (v, q')"
    by (cases "bq_pop bq (the (cond_blocked (cv s)))")
  note facts = swap_queue_facts [OF laws sw] pop_facts [OF laws pop]
  let ?p = "map_option AtSignal (continue_at act)"
  show ?thesis unfolding cond_do_signal [OF st]
  proof (rule cond_inv_step [OF inv t])
    show "cond_blocked hc \<noteq> None" if "needs_queue ?p \<or> cond_blocked (cv s) \<noteq> None"
      using that st q facts sw pop by (cases pc) (auto simp: sync_defs split: if_splits)
    show "count_list (queued contents hc) w + of_bool (hand_of ?p = Some w) + woken_by es (woken s) w +
        of_bool (w = t \<and> asleep (cond_pcs s t)) =
      count_list (queued contents (cv s)) w + of_bool (hand_of (cond_pcs s t) = Some w) + woken s w +
        of_bool (w = t \<and> asleep ?p)" for w
      using st q facts sw pop by (cases pc; cases v) (auto simp: at sync_defs split: if_splits)
    show "waiter_num hc + of_nat (length (queued contents (cv s)) + of_bool (counted (cond_pcs s t))) =
      waiter_num (cv s) + of_nat (length (queued contents hc) + of_bool (counted ?p))"
      using st q facts sw pop by (cases pc; cases v) (auto simp: at sync_defs split: if_splits)
  qed
qed

lemma cond_broadcast_inv:
  assumes laws: "boost_queue_laws bq contents" and inv: "cond_inv contents s"
    and t: "t < MAX_VTHREADS" and at: "cond_pcs s t = Some (AtBroadcast pc)"
  shows "cond_inv contents (cond_do bq m t c (AtBroadcast pc) s)"
proof -
  have q: "pc \<notin> {CB_test, CB_swap} \<Longrightarrow> cond_blocked (cv s) \<noteq> None"
    using cond_invD(2) [OF inv, of t] at by simp
  obtain act hc es where st: "pthread_cond_broadcast_step bq t pc (cv s) = (act, hc, es)"
    by (metis prod_cases3)
  obtain ok hc2 where sw: "swap_queue bq (cv s) = (ok, hc2)" by (cases "swap_queue bq (cv s)")
  obtain v q' where pop: "bq_pop bq (the (cond_blocked (cv s))) = (v, q')"
    by (cases "bq_pop bq (the (cond_blocked (cv s)))")
  note facts = swap_queue_facts [OF laws sw] pop_facts [OF laws pop]
  let ?p = "map_option AtBroadcast (continue_at act)"
  show ?thesis unfolding cond_do_broadcast [OF st]
  proof (rule cond_inv_step [OF inv t])
    show "cond_blocked hc \<noteq> None" if "needs_queue ?p \<or> cond_blocked (cv s) \<noteq> None"
      using that st q facts sw pop by (cases pc) (auto simp: sync_defs split: if_splits)
    show "count_list (queued contents hc) w + of_bool (hand_of ?p = Some w) + woken_by es (woken s) w +
        of_bool (w = t \<and> asleep (cond_pcs s t)) =
      count_list (queued contents (cv s)) w + of_bool (hand_of (cond_pcs s t) = Some w) + woken s w +
        of_bool (w = t \<and> asleep ?p)" for w
      using st q facts sw pop by (cases pc; cases v) (auto simp: at sync_defs split: if_splits)
    show "waiter_num hc + of_nat (length (queued contents (cv s)) + of_bool (counted (cond_pcs s t))) =
      waiter_num (cv s) + of_nat (length (queued contents hc) + of_bool (counted ?p))"
      using st q facts sw pop by (cases pc; cases v) (auto simp: at sync_defs split: if_splits)
  qed
qed

lemma cond_call_inv:
  assumes inv: "cond_inv contents s" and fresh: "hand_of (Some pc) = None" "\<not> asleep (Some pc)"
    "\<not> counted (Some pc)" "\<not> needs_queue (Some pc)"
  shows "cond_inv contents (cond_call t pc s)"
proof (cases "t < MAX_VTHREADS \<and> cond_pcs s t = None")
  case True
  then have "cond_inv contents (s\<lparr>cv := cv s, cond_pcs := (cond_pcs s)(t := Some pc), woken := woken s\<rparr>)"
    by (intro cond_inv_step [OF inv]) (use fresh in simp_all)
  then show ?thesis using True by (simp add: cond_call_def)
qed (use inv in \<open>auto simp: cond_call_def\<close>)

lemma cond_step_inv:
  assumes laws: "boost_queue_laws bq contents" and inv: "cond_inv contents s"
  shows "cond_inv contents (cond_step bq m l s)"
proof (cases l)
  case (CondRun t c)
  show ?thesis
  proof (cases "cond_pcs s t")
    case (Some pc)
    then have t: "t < MAX_VTHREADS" using cond_invD(1) [OF inv, of t] by (cases "t < MAX_VTHREADS") auto
    show ?thesis
    proof (cases pc)
      case (AtWait w)
      then show ?thesis using CondRun Some inv cond_wait_inv [OF laws inv t, of w m c]
        by (cases "w = CW_resumed \<and> woken s t = 0") (simp_all del: cond_do.simps)
    next
      case (AtSignal p)
      then show ?thesis using CondRun Some cond_signal_inv [OF laws inv t, of p m c]
        by (simp del: cond_do.simps)
    next
      case (AtBroadcast p)
      then show ?thesis using CondRun Some cond_broadcast_inv [OF laws inv t, of p m c]
        by (simp del: cond_do.simps)
    qed
  qed (use CondRun inv in simp)
qed (simp_all add: cond_call_inv inv)

lemma cond_start_inv: "cond_inv contents (cond_start hc)"
  by (simp add: cond_inv_def cond_start_def pthread_cond_init_def queued_def count_at_def)

lemma cond_reachable_inv:
  "boost_queue_laws bq contents \<Longrightarrow> cond_inv contents (run (cond_step bq m) ls (cond_start hc))"
  by (rule run_invariant) (auto intro: cond_step_inv cond_start_inv)

section \<open>A broadcast that runs alone\<close>

lemma broadcast_pop:
  assumes "cond_pcs s t = Some (AtBroadcast CB_pop)"
    and "bq_pop bq (the (cond_blocked (cv s))) = (v, q)"
  shows "cond_step bq m (CondRun t c) s = s\<lparr>cv := (cv s)\<lparr>cond_blocked := Some q\<rparr>,
    cond_pcs := (cond_pcs s)(t := Some (AtBroadcast (case v of None \<Rightarrow> CB_status | Some w \<Rightarrow> CB_sub w)))\<rparr>"
  using assms by simp

lemma broadcast_loop:
  assumes laws: "boost_queue_laws bq contents"
  shows "cond_pcs s t = Some (AtBroadcast CB_pop) \<Longrightarrow> cond_blocked (cv s) \<noteq> None \<Longrightarrow>
    queued contents (cv s) = xs \<Longrightarrow>
    (let s' = run (cond_step bq m) (replicate (3 * length xs + 2) (CondRun t c)) s
     in cond_pcs s' = (cond_pcs s)(t := None) \<and> queued contents (cv s') = [] \<and>
        woken s' = (\<lambda>w. woken s w + count_list xs w))"
proof (induction xs arbitrary: s)
  case Nil
  obtain v q where pop: "bq_pop bq (the (cond_blocked (cv s))) = (v, q)"
    by (cases "bq_pop bq (the (cond_blocked (cv s)))")
  with Nil pop_facts [OF laws pop Nil.prems(2)] have v: "v = None" "contents q = []"
    by (auto split: option.splits)
  have step: "cond_step bq m (CondRun t c) s = s\<lparr>cv := (cv s)\<lparr>cond_blocked := Some q\<rparr>,
    cond_pcs := (cond_pcs s)(t := Some (AtBroadcast CB_status))\<rparr>"
    using broadcast_pop [OF Nil.prems(1) pop] v by simp
  show ?case
    by (simp add: numeral_2_eq_2 step del: cond_step.simps) (auto simp: v(2) fun_eq_iff)
next
  case (Cons x xs)
  obtain v q where pop: "bq_pop bq (the (cond_blocked (cv s))) = (v, q)"
    by (cases "bq_pop bq (the (cond_blocked (cv s)))")
  with Cons.prems pop_facts [OF laws pop Cons.prems(2)] have v: "v = Some x" "contents q = xs"
    by (auto split: option.splits)
  let ?l = "CondRun t c"
  define s3 where "s3 = cond_step bq m ?l (cond_step bq m ?l (cond_step bq m ?l s))"
  have step: "cond_step bq m ?l s = s\<lparr>cv := (cv s)\<lparr>cond_blocked := Some q\<rparr>,
    cond_pcs := (cond_pcs s)(t := Some (AtBroadcast (CB_sub x)))\<rparr>"
    using broadcast_pop [OF Cons.prems(1) pop] v by simp
  have s3: "cond_pcs s3 = (cond_pcs s)(t := Some (AtBroadcast CB_pop))" "cond_blocked (cv s3) \<noteq> None"
    "queued contents (cv s3) = xs" "woken s3 = (woken s)(x := woken s x + 1)"
    unfolding s3_def step using v by simp_all
  have "replicate (3 * length (x # xs) + 2) ?l = ?l # ?l # ?l # replicate (3 * length xs + 2) ?l"
    by (simp add: numeral_eq_Suc)
  then have split: "run (cond_step bq m) (replicate (3 * length (x # xs) + 2) ?l) s =
      run (cond_step bq m) (replicate (3 * length xs + 2) ?l) s3"
    by (simp add: s3_def del: cond_step.simps replicate.simps)
  have "cond_pcs s3 t = Some (AtBroadcast CB_pop)" by (simp add: s3(1))
  from Cons.IH [OF this s3(2,3)] show ?case
    unfolding split Let_def by (auto simp: s3(1,4))
qed

lemma broadcast_alone:
  assumes laws: "boost_queue_laws bq contents" and idle: "cond_pcs s t = None" and t: "t < MAX_VTHREADS"
  shows "\<exists>n. let s' = run (cond_step bq m) (CallBroadcast t # replicate n (CondRun t c)) s
     in cond_pcs s' = cond_pcs s \<and> queued contents (cv s') = [] \<and>
        woken s' = (\<lambda>w. woken s w + count_list (queued contents (cv s)) w)"
proof -
  let ?l = "CondRun t c"
  let ?s1 = "cond_step bq m (CallBroadcast t) s"
  have s1: "cond_pcs ?s1 = (cond_pcs s)(t := Some (AtBroadcast CB_test))" "cv ?s1 = cv s" "woken ?s1 = woken s"
    using idle t by (simp_all add: cond_call_def)
  obtain k s2 where s2: "s2 = run (cond_step bq m) (replicate k ?l) ?s1"
    "cond_pcs s2 = (cond_pcs s)(t := Some (AtBroadcast CB_pop))" "cond_blocked (cv s2) \<noteq> None"
    "queued contents (cv s2) = queued contents (cv s)" "woken s2 = woken s"
  proof (cases "cond_blocked (cv s)")
    case None
    show ?thesis
      by (rule that [of _ 2, OF refl])
        (use s1 None bq_new_contents [OF laws] in \<open>simp_all add: numeral_2_eq_2 swap_queue_def queued_def\<close>)
  next
    case (Some q)
    show ?thesis
      by (rule that [of _ 1, OF refl]) (use s1 Some in simp_all)
  qed
  let ?n = "3 * length (queued contents (cv s)) + 2"
  have "cond_pcs s2 t = Some (AtBroadcast CB_pop)" by (simp add: s2(2))
  note loop = broadcast_loop [OF laws this s2(3,4), of m c]
  have "run (cond_step bq m) (CallBroadcast t # replicate (k + ?n) ?l) s =
      run (cond_step bq m) (replicate ?n ?l) s2"
    unfolding replicate_add s2(1) by (simp only: run.simps run_append)
  moreover have "((cond_pcs s)(t := Some (AtBroadcast CB_pop)))(t := None) = cond_pcs s"
    using idle by auto
  ultimately show ?thesis
    using loop unfolding Let_def s2(2,5) by (intro exI [of _ "k + ?n"]) simp
qed

section \<open>Properties\<close>



text \<open>Two waiters, then a broadcast by a third thread.\<close>

definition example_waits :: "cond_label list" where
  "example_waits = [CallWait 1, CallWait 2] @ replicate 7 (CondRun 1 0) @ replicate 7 (CondRun 2 0)"

abbreviation example_cond :: "(nat \<times> nat list) cond_sys" where
  "example_cond \<equiv> run (cond_step bounded_list_queue 0) example_waits
     (cond_start \<lparr>waiter_num = 0, cond_blocked = None, cond_mutex = None\<rparr>)"

lemma example_cond_state:
  "queued snd (cv example_cond) = [1, 2]" "cond_pcs example_cond 3 = None" "woken example_cond 2 = 0"
  "waiter_num (cv example_cond) = 2" "asleep (cond_pcs example_cond 1)"
  by (simp_all add: example_waits_def numeral_eq_Suc cond_call_def cond_start_def MAX_VTHREADS_def
      pthread_cond_init_def swap_queue_def queued_def bounded_list_queue_def sync_defs)



end
