(* ===== verification/HCondPoll.thy ===== *)
theory HCondPoll
  imports HMutex
begin

text \<open>
  The condition variable of \<open>inc/strategy.h\<close> built with \<open>LOCKFREE_COND\<close> (version 2): waiters are not
  queued, they yield with the mutex released and look at \<open>signals\<close> again whenever they run.  A
  broadcast sets \<open>waker_blocked\<close> to 2, which keeps new waiters out, and waits until the last
  waiter has cleared it.  The fields are ordinary variables: all accesses are under the mutex.
\<close>

section \<open>Operations\<close>

record cond2 =
  waiters2 :: c_uint
  signals :: c_uint
  waker_blocked :: c_uint
  mutex2 :: "nat option"

text \<open>
  Program points, one per access.  A relock after a yield is the loop around
  \<open>__sync_lock_test_and_set\<close>; its word is the second component of the state.
\<close>

datatype wait2_pc =
    W2_mutex | W2_gate | W2_gate_lock | W2_count | W2_sleep | W2_lock | W2_test | W2_take | W2_leave
  | W2_clear

datatype signal2_pc = S2_test | S2_add | S2_mark

datatype bcast2_pc =
    B2_mutex | B2_test "nat option" | B2_set "nat option" | B2_mark "nat option"
  | B2_sleep "nat option" | B2_lock "nat option" | B2_check "nat option"

definition relock :: "'p \<Rightarrow> 'p \<Rightarrow> c_uint \<Rightarrow> 'p action \<times> c_uint" where
  "relock again got c = (case sync_lock_test_and_set c 1 of (old, c') \<Rightarrow>
     (if old \<noteq> 0 then Yield STATUS_LOCKFAIL again else Go got, c'))"

text \<open>Yielding the address of a mutex; the null pointer is the value of \<open>STATUS_FINISHED\<close>.\<close>

fun yield_mutex :: "nat option \<Rightarrow> 'p \<Rightarrow> 'p action" where
  "yield_mutex None pc = Yield STATUS_FINISHED pc"
| "yield_mutex (Some m) pc = Yield (RELEASE_MUTEX (UserMutex m)) pc"

fun wait2_step :: "nat \<Rightarrow> wait2_pc \<Rightarrow> cond2 \<times> c_uint \<Rightarrow> wait2_pc action \<times> cond2 \<times> c_uint" where
  "wait2_step m W2_mutex (hc, c) = (Go W2_gate, hc\<lparr>mutex2 := Some m\<rparr>, c)"
| "wait2_step m W2_gate (hc, c) =
     (if waker_blocked hc = 2 then yield_mutex (Some m) W2_gate_lock else Go W2_count, hc, c)"
| "wait2_step m W2_gate_lock (hc, c) = (case relock W2_gate_lock W2_gate c of (a, c') \<Rightarrow> (a, hc, c'))"
| "wait2_step m W2_count (hc, c) = (Go W2_sleep, hc\<lparr>waiters2 := waiters2 hc + 1\<rparr>, c)"
| "wait2_step m W2_sleep (hc, c) = (yield_mutex (Some m) W2_lock, hc, c)"
| "wait2_step m W2_lock (hc, c) = (case relock W2_lock W2_test c of (a, c') \<Rightarrow> (a, hc, c'))"
| "wait2_step m W2_test (hc, c) = (Go (if sint (signals hc) \<le> 0 then W2_sleep else W2_take), hc, c)"
| "wait2_step m W2_take (hc, c) = (Go W2_leave, hc\<lparr>signals := signals hc - 1\<rparr>, c)"
| "wait2_step m W2_leave (hc, c) = (Go W2_clear, hc\<lparr>waiters2 := waiters2 hc - 1\<rparr>, c)"
| "wait2_step m W2_clear (hc, c) = (Return 0,
     (if waker_blocked hc = 1 \<or> waker_blocked hc = 2 \<and> waiters2 hc = 0 then hc\<lparr>waker_blocked := 0\<rparr> else hc), c)"

fun signal2_step :: "signal2_pc \<Rightarrow> cond2 \<Rightarrow> signal2_pc action \<times> cond2" where
  "signal2_step S2_test hc = (if 0 < sint (waiters2 hc) then Go S2_add else Return 0, hc)"
| "signal2_step S2_add hc = (Go S2_mark, hc\<lparr>signals := signals hc + 1\<rparr>)"
| "signal2_step S2_mark hc = (Return 0, hc\<lparr>waker_blocked := 1\<rparr>)"

fun bcast2_step :: "bcast2_pc \<Rightarrow> cond2 \<times> c_uint \<Rightarrow> bcast2_pc action \<times> cond2 \<times> c_uint" where
  "bcast2_step B2_mutex (hc, c) = (Go (B2_test (mutex2 hc)), hc, c)"
| "bcast2_step (B2_test hm) (hc, c) = (if 0 < sint (waiters2 hc) then Go (B2_set hm) else Return 0, hc, c)"
| "bcast2_step (B2_set hm) (hc, c) = (Go (B2_mark hm), hc\<lparr>signals := waiters2 hc\<rparr>, c)"
| "bcast2_step (B2_mark hm) (hc, c) = (Go (B2_sleep hm), hc\<lparr>waker_blocked := 2\<rparr>, c)"
| "bcast2_step (B2_sleep hm) (hc, c) = (yield_mutex hm (B2_lock hm), hc, c)"
| "bcast2_step (B2_lock hm) (hc, c) = (case relock (B2_lock hm) (B2_check hm) c of (a, c') \<Rightarrow> (a, hc, c'))"
| "bcast2_step (B2_check hm) (hc, c) = (if waker_blocked hc \<noteq> 0 then Go (B2_sleep hm) else Return 0, hc, c)"

section \<open>Threads on one condition variable and its mutex\<close>

text \<open>
  A thread takes the mutex, calls operations while it has it, and unlocks it.  The worker of a
  thread that has yielded releases the mutex of the yield.  \<open>finished t\<close> counts the waits of \<open>t\<close>
  that have returned; \<open>found t u\<close> is that count for every \<open>u\<close> that was waiting when the last
  broadcast of \<open>t\<close> set \<open>waker_blocked\<close>.
\<close>

datatype c2_at = C2_out | C2_lock | C2_hold | C2_wait wait2_pc | C2_signal signal2_pc | C2_bcast bcast2_pc

record c2_sys =
  c2 :: cond2
  c2_c :: c_uint
  c2_pcs :: "nat \<Rightarrow> c2_at"
  finished :: "nat \<Rightarrow> nat"
  found :: "nat \<Rightarrow> nat \<Rightarrow> nat option"

fun released :: "nat \<Rightarrow> 'p action \<Rightarrow> c_uint \<Rightarrow> c_uint" where
  "released m (Yield (RELEASE_MUTEX x) pc) c = (if x = UserMutex m then sync_lock_release c else c)"
| "released m _ c = c"

definition back_to :: "('p \<Rightarrow> c2_at) \<Rightarrow> 'p action \<Rightarrow> c2_at" where
  "back_to at act = (case continue_at act of None \<Rightarrow> C2_hold | Some pc \<Rightarrow> at pc)"

fun sleeping2 :: "c2_at \<Rightarrow> bool" where
  "sleeping2 (C2_wait pc) = (pc \<in> {W2_sleep, W2_lock, W2_test, W2_take, W2_leave})"
| "sleeping2 _ = False"

definition snapshot :: "c2_sys \<Rightarrow> nat \<Rightarrow> nat option" where
  "snapshot s u = (if sleeping2 (c2_pcs s u) then Some (finished s u) else None)"

fun c2_do :: "nat \<Rightarrow> nat \<Rightarrow> c2_at \<Rightarrow> c2_sys \<Rightarrow> c2_sys" where
  "c2_do m t (C2_wait pc) s = (case wait2_step m pc (c2 s, c2_c s) of (act, hc, c) \<Rightarrow>
     s\<lparr>c2 := hc, c2_c := released m act c, c2_pcs := (c2_pcs s)(t := back_to C2_wait act),
       finished := (finished s)(t := finished s t + of_bool (returns act))\<rparr>)"
| "c2_do m t (C2_signal pc) s = (case signal2_step pc (c2 s) of (act, hc) \<Rightarrow>
     s\<lparr>c2 := hc, c2_pcs := (c2_pcs s)(t := back_to C2_signal act)\<rparr>)"
| "c2_do m t (C2_bcast pc) s = (case bcast2_step pc (c2 s, c2_c s) of (act, hc, c) \<Rightarrow>
     s\<lparr>c2 := hc, c2_c := released m act c, c2_pcs := (c2_pcs s)(t := back_to C2_bcast act),
       found := (case pc of B2_mark hm \<Rightarrow> (found s)(t := snapshot s) | _ \<Rightarrow> found s)\<rparr>)"
| "c2_do m t C2_lock s = (case pthread_mutex_lock_step (c2_c s) of (act, c) \<Rightarrow>
     s\<lparr>c2_c := c, c2_pcs := (c2_pcs s)(t := if returns act then C2_hold else C2_lock)\<rparr>)"
| "c2_do m t _ s = s"

datatype c2_label = C2Lock nat | C2Unlock nat | C2Wait nat | C2Signal nat | C2Bcast nat | C2Run nat

abbreviation c2_goto :: "nat \<Rightarrow> c2_at \<Rightarrow> c2_sys \<Rightarrow> c2_sys" where
  "c2_goto t p s \<equiv> s\<lparr>c2_pcs := (c2_pcs s)(t := p)\<rparr>"

fun c2_step :: "nat \<Rightarrow> c2_label \<Rightarrow> c2_sys \<Rightarrow> c2_sys" where
  "c2_step m (C2Lock t) s = (if c2_pcs s t = C2_out \<and> t < MAX_VTHREADS then c2_goto t C2_lock s else s)"
| "c2_step m (C2Unlock t) s = (if c2_pcs s t = C2_hold
     then s\<lparr>c2_c := snd (pthread_mutex_unlock (c2_c s)), c2_pcs := (c2_pcs s)(t := C2_out)\<rparr> else s)"
| "c2_step m (C2Wait t) s = (if c2_pcs s t = C2_hold then c2_goto t (C2_wait W2_mutex) s else s)"
| "c2_step m (C2Signal t) s = (if c2_pcs s t = C2_hold then c2_goto t (C2_signal S2_test) s else s)"
| "c2_step m (C2Bcast t) s = (if c2_pcs s t = C2_hold
     then (c2_goto t (C2_bcast B2_mutex) s)\<lparr>found := (found s)(t := (\<lambda>_. None))\<rparr> else s)"
| "c2_step m (C2Run t) s = c2_do m t (c2_pcs s t) s"

definition c2_start :: c2_sys where
  "c2_start = \<lparr>c2 = \<lparr>waiters2 = 0, signals = 0, waker_blocked = 0, mutex2 = None\<rparr>, c2_c = 0,
     c2_pcs = (\<lambda>_. C2_out), finished = (\<lambda>_. 0), found = (\<lambda>_ _. None)\<rparr>"

section \<open>A signal goes to whoever looks first\<close>

text \<open>
  C40. Built with \<open>LOCKFREE_COND\<close>, a signal can be lost to the thread it was sent for.  Thread 1
  waits, thread 2 signals while 1 is the only waiter, then thread 3 starts to wait and, looking
  at \<open>signals\<close> before 1 runs, takes it: its wait, begun after the signal, returns, \<open>signals\<close> is
  0 and thread 1 still waits.
\<close>

definition stolen_run :: "c2_label list" where
  "stolen_run =
     [C2Lock 1, C2Run 1, C2Wait 1] @ replicate 4 (C2Run 1) @
     [C2Lock 2, C2Run 2, C2Signal 2] @ replicate 3 (C2Run 2) @ [C2Unlock 2] @
     [C2Lock 3, C2Run 3, C2Wait 3] @ replicate 9 (C2Run 3) @ [C2Unlock 3] @
     replicate 3 (C2Run 1)"


section \<open>The invariant of waits and broadcasts\<close>

fun untaken :: "c2_at \<Rightarrow> bool" where
  "untaken (C2_wait pc) = (pc \<in> {W2_sleep, W2_lock, W2_test, W2_take})"
| "untaken _ = False"

fun has2 :: "c2_at \<Rightarrow> bool" where
  "has2 C2_out = False" | "has2 C2_lock = False" | "has2 C2_hold = True"
| "has2 (C2_wait pc) = (pc \<notin> {W2_gate_lock, W2_lock})"
| "has2 (C2_signal pc) = True"
| "has2 (C2_bcast (B2_lock hm)) = False" | "has2 (C2_bcast _) = True"

fun is_mark :: "c2_at \<Rightarrow> bool" where
  "is_mark (C2_bcast (B2_mark hm)) = True" | "is_mark _ = False"

fun is_signal :: "c2_at \<Rightarrow> bool" where
  "is_signal (C2_signal pc) = True" | "is_signal _ = False"

fun awaits :: "c2_at \<Rightarrow> bool" where
  "awaits (C2_bcast (B2_sleep hm)) = True" | "awaits (C2_bcast (B2_lock hm)) = True"
| "awaits (C2_bcast (B2_check hm)) = True" | "awaits _ = False"

text \<open>What a thread knows of the fields at its program point.\<close>

fun local2 :: "nat \<Rightarrow> cond2 \<Rightarrow> c2_at \<Rightarrow> bool" where
  "local2 m hc (C2_wait pc) =
     (pc \<noteq> W2_mutex \<longrightarrow> mutex2 hc = Some m \<and> (pc = W2_count \<longrightarrow> waker_blocked hc = 0) \<and>
        (pc \<in> {W2_take, W2_leave, W2_clear} \<longrightarrow> waker_blocked hc = 2))"
| "local2 m hc (C2_bcast B2_mutex) = True"
| "local2 m hc (C2_bcast (B2_test hm)) = (hm = mutex2 hc)"
| "local2 m hc (C2_bcast (B2_set hm)) = (hm = Some m)"
| "local2 m hc (C2_bcast (B2_mark hm)) = (hm = Some m)"
| "local2 m hc (C2_bcast (B2_sleep hm)) = (hm = Some m)"
| "local2 m hc (C2_bcast (B2_lock hm)) = (hm = Some m)"
| "local2 m hc (C2_bcast (B2_check hm)) = (hm = Some m)"
| "local2 m hc _ = True"

text \<open>A thread that a broadcast found has returned, or the broadcast still waits for it.\<close>

definition answered :: "c2_sys \<Rightarrow> nat \<Rightarrow> nat \<Rightarrow> nat \<Rightarrow> bool" where
  "answered s t u k \<longleftrightarrow> k < finished s u \<or> awaits (c2_pcs s t) \<and> waker_blocked (c2 s) = 2 \<and>
     finished s u = k \<and> (sleeping2 (c2_pcs s u) \<or> c2_pcs s u = C2_wait W2_clear)"

definition c2_inv :: "nat \<Rightarrow> c2_sys \<Rightarrow> bool" where
  "c2_inv m s \<longleftrightarrow> sole has2 (c2_pcs s) (c2_c s) \<and>
     (\<forall>t. MAX_VTHREADS \<le> t \<longrightarrow> c2_pcs s t = C2_out) \<and> (\<forall>t. \<not> is_signal (c2_pcs s t)) \<and>
     waker_blocked (c2 s) \<in> {0, 2} \<and>
     waiters2 (c2 s) = of_nat (count_at (c2_pcs s) (Collect sleeping2)) \<and>
     signals (c2 s) = (if waker_blocked (c2 s) = 2 \<or> (\<exists>t. is_mark (c2_pcs s t))
       then of_nat (count_at (c2_pcs s) (Collect untaken)) else 0) \<and>
     (\<forall>t. local2 m (c2 s) (c2_pcs s t)) \<and>
     (\<forall>t u k. found s t u = Some k \<longrightarrow> answered s t u k)"

lemma c2_invD:
  assumes "c2_inv m s"
  shows "sole has2 (c2_pcs s) (c2_c s)" and "MAX_VTHREADS \<le> t \<Longrightarrow> c2_pcs s t = C2_out"
    and "\<not> is_signal (c2_pcs s t)" and "waker_blocked (c2 s) \<in> {0, 2}"
    and "waiters2 (c2 s) = of_nat (count_at (c2_pcs s) (Collect sleeping2))"
    and "signals (c2 s) = (if waker_blocked (c2 s) = 2 \<or> (\<exists>t. is_mark (c2_pcs s t))
       then of_nat (count_at (c2_pcs s) (Collect untaken)) else 0)"
    and "local2 m (c2 s) (c2_pcs s t)"
    and "found s t u = Some k \<Longrightarrow> answered s t u k"
  using assms unfolding c2_inv_def by blast+

lemma c2_invI:
  assumes "sole has2 (c2_pcs s) (c2_c s)" and "\<And>t. MAX_VTHREADS \<le> t \<Longrightarrow> c2_pcs s t = C2_out"
    and "\<And>t. \<not> is_signal (c2_pcs s t)" and "waker_blocked (c2 s) \<in> {0, 2}"
    and "waiters2 (c2 s) = of_nat (count_at (c2_pcs s) (Collect sleeping2))"
    and "signals (c2 s) = (if waker_blocked (c2 s) = 2 \<or> (\<exists>t. is_mark (c2_pcs s t))
       then of_nat (count_at (c2_pcs s) (Collect untaken)) else 0)"
    and "\<And>t. local2 m (c2 s) (c2_pcs s t)"
    and "\<And>t u k. found s t u = Some k \<Longrightarrow> answered s t u k"
  shows "c2_inv m s"
  unfolding c2_inv_def using assms by blast

lemma mark_has2: "is_mark p \<Longrightarrow> has2 p"
  by (cases p rule: is_mark.cases) auto

lemma local2_other:
  "local2 m hc p \<Longrightarrow> \<not> has2 p \<Longrightarrow> (mutex2 hc = Some m \<Longrightarrow> mutex2 hc' = Some m) \<Longrightarrow> local2 m hc' p"
  by (cases "(m, hc, p)" rule: local2.cases) auto

lemma count_at_inj:
  "(of_nat (count_at f S) :: c_uint) = of_nat (count_at g T) \<longleftrightarrow> count_at f S = count_at g T"
proof -
  have "unat (of_nat (count_at f S) :: c_uint) = count_at f S" for f :: "nat \<Rightarrow> 'z" and S
    using count_at_le [of f S] by (simp add: MAX_VTHREADS_def unsigned_of_nat take_bit_nat_eq_self)
  from this [of f S] this [of g T] show ?thesis by metis
qed

lemma sint_count_at: "sint (of_nat (count_at f S) :: c_uint) = int (count_at f S)"
proof -
  have "count_at f S < 2 ^ 31" using count_at_le [of f S] by (simp add: MAX_VTHREADS_def)
  then show ?thesis by (simp add: signed_of_nat signed_take_bit_int_eq_self)
qed

text \<open>A step of a thread that does not have the mutex: it tries to get it.\<close>

lemma c2_inv_try:
  assumes inv: "c2_inv m s" and t: "t < MAX_VTHREADS" and out: "\<not> has2 (c2_pcs s t)"
    and p: "has2 p" "\<not> is_mark p" "\<not> is_signal p" "sleeping2 p = sleeping2 (c2_pcs s t)"
      "untaken p = untaken (c2_pcs s t)" "awaits p = awaits (c2_pcs s t)" "p \<noteq> C2_wait W2_clear"
    and loc: "local2 m (c2 s) p"
  shows "c2_inv m (s\<lparr>c2_c := 1, c2_pcs := (c2_pcs s)(t := if c2_c s = 0 then p else c2_pcs s t)\<rparr>)"
proof (cases "c2_c s = 0")
  case True
  note I = c2_invD [OF inv]
  have none: "\<not> has2 (c2_pcs s u)" for u using I(1) True by (auto simp: sole_def)
  have nomark: "\<not> is_mark (c2_pcs s u)" for u using none mark_has2 by blast
  have same: "count_at ((c2_pcs s)(t := p)) (Collect sleeping2) = count_at (c2_pcs s) (Collect sleeping2)"
    "count_at ((c2_pcs s)(t := p)) (Collect untaken) = count_at (c2_pcs s) (Collect untaken)"
    using count_at_upd [OF t, of "c2_pcs s" p "Collect sleeping2"] count_at_upd [OF t, of "c2_pcs s" p "Collect untaken"] p
    by simp_all
  have clear: "c2_pcs s u \<noteq> C2_wait W2_clear" for u using none [of u] by auto
  have "c2_inv m (s\<lparr>c2_c := 1, c2_pcs := (c2_pcs s)(t := p)\<rparr>)"
  proof (rule c2_invI)
    show "sole has2 (c2_pcs (s\<lparr>c2_c := 1, c2_pcs := (c2_pcs s)(t := p)\<rparr>)) (c2_c (s\<lparr>c2_c := 1, c2_pcs := (c2_pcs s)(t := p)\<rparr>))"
      using sole_take [of has2 "c2_pcs s" p t] I(1) True p by simp
    show "answered (s\<lparr>c2_c := 1, c2_pcs := (c2_pcs s)(t := p)\<rparr>) v u k"
      if "found (s\<lparr>c2_c := 1, c2_pcs := (c2_pcs s)(t := p)\<rparr>) v u = Some k" for v u k
      using I(8) [of v u k] that p clear [of u] by (auto simp: answered_def)
  qed (use I p t loc nomark same in \<open>auto split: if_splits\<close>)
  then show ?thesis using True by simp
next
  case False
  then have "c2_c s = 1" using c2_invD(1) [OF inv] by (auto simp: sole_def)
  then have "s\<lparr>c2_c := 1, c2_pcs := (c2_pcs s)(t := c2_pcs s t)\<rparr> = s" by simp
  then show ?thesis using False inv by simp
qed

text \<open>A step of the thread with the mutex, which keeps or gives it up.\<close>

lemma c2_inv_holder:
  assumes inv: "c2_inv m s" and t: "t < MAX_VTHREADS" and has: "has2 (c2_pcs s t)"
    and lock: "if has2 p then c' = c2_c s else c' = 0"
    and p: "\<not> is_signal p" and wb: "waker_blocked hc \<in> {0, 2}"
    and waiters: "waiters2 hc = of_nat (count_at ((c2_pcs s)(t := p)) (Collect sleeping2))"
    and sig: "signals hc = (if waker_blocked hc = 2 \<or> is_mark p
       then of_nat (count_at ((c2_pcs s)(t := p)) (Collect untaken)) else 0)"
    and loc: "local2 m hc p" and mutex: "mutex2 (c2 s) = Some m \<Longrightarrow> mutex2 hc = Some m"
    and ans: "\<And>v u k. g v u = Some k \<Longrightarrow>
      answered (s\<lparr>c2 := hc, c2_c := c', c2_pcs := (c2_pcs s)(t := p), finished := f, found := g\<rparr>) v u k"
  shows "c2_inv m (s\<lparr>c2 := hc, c2_c := c', c2_pcs := (c2_pcs s)(t := p), finished := f, found := g\<rparr>)"
    (is "c2_inv m ?s")
proof (rule c2_invI)
  note I = c2_invD [OF inv]
  have others: "\<not> has2 (c2_pcs s u)" if "u \<noteq> t" for u using sole_other [OF I(1) has that] .
  have mark: "(\<exists>u. is_mark (c2_pcs ?s u)) = is_mark p"
    using others mark_has2 by (auto split: if_splits)
  show "sole has2 (c2_pcs ?s) (c2_c ?s)"
    using I(1) lock has sole_keep [of has2 "c2_pcs s" "c2_c s" p t] sole_drop [of has2 "c2_pcs s" "c2_c s" t p]
    by (auto split: if_splits)
  show "signals (c2 ?s) = (if waker_blocked (c2 ?s) = 2 \<or> (\<exists>t. is_mark (c2_pcs ?s t))
       then of_nat (count_at (c2_pcs ?s) (Collect untaken)) else 0)"
    unfolding mark using sig by simp
  show "local2 m (c2 ?s) (c2_pcs ?s u)" for u
    using loc local2_other [OF I(7) others mutex] by (cases "u = t") auto
  show "answered ?s v u k" if "found ?s v u = Some k" for v u k using ans that by simp
qed (use c2_invD(2,3) [OF inv] t p wb waiters in auto)

text \<open>What the steps of the holder do to the counts, and a step that leaves the answers alone.\<close>

fun inside_wait :: "c2_at \<Rightarrow> bool" where
  "inside_wait p = (sleeping2 p \<or> p = C2_wait W2_clear)"

declare inside_wait.simps [simp del]

lemma answered_keep:
  assumes "answered s v u k" and "waker_blocked hc = waker_blocked (c2 s)"
    and "awaits p = awaits (c2_pcs s t)" and "inside_wait p = inside_wait (c2_pcs s t)"
  shows "answered (s\<lparr>c2 := hc, c2_c := c', c2_pcs := (c2_pcs s)(t := p), finished := finished s, found := g\<rparr>) v u k"
  using assms by (auto simp: answered_def inside_wait.simps)

lemma c2_inv_plain:
  assumes inv: "c2_inv m s" and t: "t < MAX_VTHREADS" and has: "has2 (c2_pcs s t)"
    and lock: "if has2 p then c' = c2_c s else c' = 0"
    and p: "\<not> is_signal p" "is_mark p = is_mark (c2_pcs s t)" "sleeping2 p = sleeping2 (c2_pcs s t)"
      "untaken p = untaken (c2_pcs s t)" "awaits p = awaits (c2_pcs s t)"
      "inside_wait p = inside_wait (c2_pcs s t)"
    and hc: "waker_blocked hc = waker_blocked (c2 s)" "waiters2 hc = waiters2 (c2 s)" "signals hc = signals (c2 s)"
    and loc: "local2 m hc p" and mutex: "mutex2 (c2 s) = Some m \<Longrightarrow> mutex2 hc = Some m"
  shows "c2_inv m (s\<lparr>c2 := hc, c2_c := c', c2_pcs := (c2_pcs s)(t := p), finished := finished s, found := found s\<rparr>)"
proof (rule c2_inv_holder [OF inv t has lock p(1)])
  note I = c2_invD [OF inv]
  have same: "count_at ((c2_pcs s)(t := p)) (Collect sleeping2) = count_at (c2_pcs s) (Collect sleeping2)"
    "count_at ((c2_pcs s)(t := p)) (Collect untaken) = count_at (c2_pcs s) (Collect untaken)"
    using count_at_upd [OF t, of "c2_pcs s" p "Collect sleeping2"] count_at_upd [OF t, of "c2_pcs s" p "Collect untaken"] p
    by simp_all
  have mark: "(\<exists>u. is_mark (c2_pcs s u)) = is_mark (c2_pcs s t)"
    using sole_other [OF I(1) has] mark_has2 by metis
  show "waker_blocked hc \<in> {0, 2}" using I(4) hc by simp
  show "waiters2 hc = of_nat (count_at ((c2_pcs s)(t := p)) (Collect sleeping2))" using I(5) hc same by simp
  show "signals hc = (if waker_blocked hc = 2 \<or> is_mark p
       then of_nat (count_at ((c2_pcs s)(t := p)) (Collect untaken)) else 0)"
    using I(6) unfolding hc same(2) mark p(2) by simp
  show "answered (s\<lparr>c2 := hc, c2_c := c', c2_pcs := (c2_pcs s)(t := p), finished := finished s, found := found s\<rparr>) v u k"
    if "found s v u = Some k" for v u k
    using answered_keep [OF I(8) [OF that] hc(1) p(5,6)] .
qed (fact loc mutex)+

lemma c2_do_wait:
  "wait2_step m pc (c2 s, c2_c s) = (act, hc, c) \<Longrightarrow> c2_do m t (C2_wait pc) s =
     s\<lparr>c2 := hc, c2_c := released m act c, c2_pcs := (c2_pcs s)(t := back_to C2_wait act),
       finished := (finished s)(t := finished s t + of_bool (returns act)), found := found s\<rparr>"
  by simp

lemma c2_do_bcast:
  "bcast2_step pc (c2 s, c2_c s) = (act, hc, c) \<Longrightarrow> c2_do m t (C2_bcast pc) s =
     s\<lparr>c2 := hc, c2_c := released m act c, c2_pcs := (c2_pcs s)(t := back_to C2_bcast act),
       finished := finished s,
       found := (case pc of B2_mark hm \<Rightarrow> (found s)(t := snapshot s) | _ \<Rightarrow> found s)\<rparr>"
  by simp

lemma upd_Suc_0: "f(t := f t + of_bool False) = (f :: nat \<Rightarrow> nat)"
  by simp

lemma holder_counts:
  assumes inv: "c2_inv m s" and t: "t < MAX_VTHREADS" and has: "has2 (c2_pcs s t)"
    and no: "c2_pcs s t \<noteq> C2_wait W2_leave"
  shows "count_at (c2_pcs s) (Collect untaken) = count_at (c2_pcs s) (Collect sleeping2)"
    and "(\<exists>u. is_mark (c2_pcs s u)) = is_mark (c2_pcs s t)"
proof -
  note I = c2_invD [OF inv]
  have "c2_pcs s u \<noteq> C2_wait W2_leave" for u
    using sole_other [OF I(1) has, of u] no by (cases "u = t") auto
  then have *: "(c2_pcs s u \<in> Collect untaken) = (c2_pcs s u \<in> Collect sleeping2)" for u
    by (cases "c2_pcs s u" rule: untaken.cases) auto
  show "count_at (c2_pcs s) (Collect untaken) = count_at (c2_pcs s) (Collect sleeping2)"
    by (simp only: count_at_def *)
  show "(\<exists>u. is_mark (c2_pcs s u)) = is_mark (c2_pcs s t)"
    using sole_other [OF I(1) has] mark_has2 by metis
qed

lemma c2_wait_plain:
  assumes inv: "c2_inv m s" and t: "t < MAX_VTHREADS" and at: "c2_pcs s t = C2_wait pc"
    and pc: "pc \<in> {W2_mutex, W2_gate, W2_sleep, W2_test}"
  shows "c2_inv m (c2_do m t (C2_wait pc) s)"
proof -
  note I = c2_invD [OF inv]
  have has: "has2 (c2_pcs s t)" using at pc by auto
  have loc: "local2 m (c2 s) (C2_wait pc)" using I(7) [of t] at by simp
  have step: "c2_inv m (c2_do m t (C2_wait pc) s)"
    if st: "wait2_step m pc (c2 s, c2_c s) = (act, hc, c2_c s)" and ret: "\<not> returns act"
      and "if has2 (back_to C2_wait act) then released m act (c2_c s) = c2_c s else released m act (c2_c s) = 0"
      and "\<not> is_signal (back_to C2_wait act)" "\<not> is_mark (back_to C2_wait act)"
        "sleeping2 (back_to C2_wait act) = (pc \<in> {W2_sleep, W2_test})"
        "untaken (back_to C2_wait act) = (pc \<in> {W2_sleep, W2_test})" "\<not> awaits (back_to C2_wait act)"
        "inside_wait (back_to C2_wait act) = (pc \<in> {W2_sleep, W2_test})"
      and "waker_blocked hc = waker_blocked (c2 s)" "waiters2 hc = waiters2 (c2 s)" "signals hc = signals (c2 s)"
      and "local2 m hc (back_to C2_wait act)" "mutex2 (c2 s) = Some m \<Longrightarrow> mutex2 hc = Some m" for act hc
  proof -
    have upd: "(finished s)(t := finished s t + of_bool (returns act)) = finished s" using ret by simp
    show ?thesis unfolding c2_do_wait [OF st] upd
      by (rule c2_inv_plain [OF inv t has]) (use that pc at in \<open>auto simp: inside_wait.simps\<close>)
  qed
  consider "pc = W2_mutex" | "pc = W2_gate" "waker_blocked (c2 s) = 2" | "pc = W2_gate" "waker_blocked (c2 s) = 0"
    | "pc = W2_sleep" | "pc = W2_test" "sint (signals (c2 s)) \<le> 0" | "pc = W2_test" "0 < sint (signals (c2 s))"
    using pc I(4) by fastforce
  then show ?thesis
  proof cases
    case 1
    show ?thesis by (rule step [where act = "Go W2_gate" and hc = "(c2 s)\<lparr>mutex2 := Some m\<rparr>"])
      (use 1 in \<open>simp_all add: back_to_def inside_wait.simps\<close>)
  next
    case 2
    show ?thesis by (rule step [where act = "yield_mutex (Some m) W2_gate_lock" and hc = "c2 s"])
      (use 2 loc in \<open>simp_all add: back_to_def inside_wait.simps sync_defs\<close>)
  next
    case 3
    show ?thesis by (rule step [where act = "Go W2_count" and hc = "c2 s"])
      (use 3 loc in \<open>simp_all add: back_to_def inside_wait.simps\<close>)
  next
    case 4
    show ?thesis by (rule step [where act = "yield_mutex (Some m) W2_lock" and hc = "c2 s"])
      (use 4 loc in \<open>simp_all add: back_to_def inside_wait.simps sync_defs\<close>)
  next
    case 5
    show ?thesis by (rule step [where act = "Go W2_sleep" and hc = "c2 s"])
      (use 5 loc in \<open>simp_all add: back_to_def inside_wait.simps\<close>)
  next
    case 6
    have "waker_blocked (c2 s) = 2"
      using 6 I(6) holder_counts(2) [OF inv t has] at by (auto split: if_splits)
    with 6 loc show ?thesis by (intro step [where act = "Go W2_take" and hc = "c2 s"])
      (simp_all add: back_to_def inside_wait.simps)
  qed
qed

lemma c2_wait_lock:
  assumes inv: "c2_inv m s" and t: "t < MAX_VTHREADS" and at: "c2_pcs s t = C2_wait pc"
    and pc: "pc \<in> {W2_gate_lock, W2_lock}"
  shows "c2_inv m (c2_do m t (C2_wait pc) s)"
proof -
  let ?p = "C2_wait (if pc = W2_lock then W2_test else W2_gate)"
  have loc: "local2 m (c2 s) (c2_pcs s t)" using c2_invD(7) [OF inv] .
  have "c2_inv m (s\<lparr>c2_c := 1, c2_pcs := (c2_pcs s)(t := if c2_c s = 0 then ?p else c2_pcs s t)\<rparr>)"
    by (rule c2_inv_try [OF inv t]) (use at pc loc in auto)
  then show ?thesis using pc at
    by (cases "c2_c s = 0") (auto simp: relock_def sync_defs back_to_def)
qed

lemma c2_wait_count:
  assumes inv: "c2_inv m s" and t: "t < MAX_VTHREADS" and at: "c2_pcs s t = C2_wait W2_count"
  shows "c2_inv m (c2_do m t (C2_wait W2_count) s)"
proof -
  note I = c2_invD [OF inv]
  let ?hc = "(c2 s)\<lparr>waiters2 := waiters2 (c2 s) + 1\<rparr>"
  have has: "has2 (c2_pcs s t)" using at by simp
  have wb: "waker_blocked (c2 s) = 0" and mx: "mutex2 (c2 s) = Some m" using I(7) [of t] at by auto
  have sig: "signals (c2 s) = 0" using I(6) wb holder_counts(2) [OF inv t has] at by simp
  have n: "count_at ((c2_pcs s)(t := C2_wait W2_sleep)) (Collect sleeping2) = count_at (c2_pcs s) (Collect sleeping2) + 1"
    using count_at_upd [OF t, of "c2_pcs s" "C2_wait W2_sleep" "Collect sleeping2"] at by simp
  have st: "wait2_step m W2_count (c2 s, c2_c s) = (Go W2_sleep, ?hc, c2_c s)" by simp
  have act: "released m (Go W2_sleep) (c2_c s) = c2_c s" "back_to C2_wait (Go W2_sleep) = C2_wait W2_sleep"
    "(finished s)(t := finished s t + of_bool (returns (Go W2_sleep))) = finished s"
    by (simp_all add: back_to_def)
  show ?thesis unfolding c2_do_wait [OF st] act
  proof (rule c2_inv_holder [OF inv t has])
    show "waiters2 ?hc = of_nat (count_at ((c2_pcs s)(t := C2_wait W2_sleep)) (Collect sleeping2))"
      unfolding n using I(5) by simp
    show "answered (s\<lparr>c2 := ?hc, c2_c := c2_c s, c2_pcs := (c2_pcs s)(t := C2_wait W2_sleep),
        finished := finished s, found := found s\<rparr>) v u k" if "found s v u = Some k" for v u k
      using I(8) [OF that] wb by (simp add: answered_def)
  qed (simp_all add: wb sig mx)
qed

lemma c2_wait_take:
  assumes inv: "c2_inv m s" and t: "t < MAX_VTHREADS" and at: "c2_pcs s t = C2_wait W2_take"
  shows "c2_inv m (c2_do m t (C2_wait W2_take) s)"
proof -
  note I = c2_invD [OF inv]
  let ?hc = "(c2 s)\<lparr>signals := signals (c2 s) - 1\<rparr>"
  have has: "has2 (c2_pcs s t)" using at by simp
  have wb: "waker_blocked (c2 s) = 2" and mx: "mutex2 (c2 s) = Some m" using I(7) [of t] at by auto
  have n: "count_at ((c2_pcs s)(t := C2_wait W2_leave)) (Collect sleeping2) = count_at (c2_pcs s) (Collect sleeping2)"
    "count_at ((c2_pcs s)(t := C2_wait W2_leave)) (Collect untaken) + 1 = count_at (c2_pcs s) (Collect untaken)"
    using count_at_upd [OF t, of "c2_pcs s" "C2_wait W2_leave" "Collect sleeping2"]
      count_at_upd [OF t, of "c2_pcs s" "C2_wait W2_leave" "Collect untaken"] at by simp_all
  have sig: "signals (c2 s) = of_nat (count_at ((c2_pcs s)(t := C2_wait W2_leave)) (Collect untaken)) + 1"
    using I(6) wb n(2) by (simp flip: n(2))
  have st: "wait2_step m W2_take (c2 s, c2_c s) = (Go W2_leave, ?hc, c2_c s)" by simp
  have act: "released m (Go W2_leave) (c2_c s) = c2_c s" "back_to C2_wait (Go W2_leave) = C2_wait W2_leave"
    "(finished s)(t := finished s t + of_bool (returns (Go W2_leave))) = finished s"
    by (simp_all add: back_to_def)
  show ?thesis unfolding c2_do_wait [OF st] act
  proof (rule c2_inv_holder [OF inv t has])
    show "waiters2 ?hc = of_nat (count_at ((c2_pcs s)(t := C2_wait W2_leave)) (Collect sleeping2))"
      unfolding n using I(5) by simp
    show "answered (s\<lparr>c2 := ?hc, c2_c := c2_c s, c2_pcs := (c2_pcs s)(t := C2_wait W2_leave),
        finished := finished s, found := found s\<rparr>) v u k" if "found s v u = Some k" for v u k
      by (rule answered_keep [OF I(8) [OF that]]) (simp_all add: at inside_wait.simps)
  qed (simp_all add: wb sig mx)
qed

lemma c2_wait_leave:
  assumes inv: "c2_inv m s" and t: "t < MAX_VTHREADS" and at: "c2_pcs s t = C2_wait W2_leave"
  shows "c2_inv m (c2_do m t (C2_wait W2_leave) s)"
proof -
  note I = c2_invD [OF inv]
  let ?hc = "(c2 s)\<lparr>waiters2 := waiters2 (c2 s) - 1\<rparr>"
  have has: "has2 (c2_pcs s t)" using at by simp
  have wb: "waker_blocked (c2 s) = 2" and mx: "mutex2 (c2 s) = Some m" using I(7) [of t] at by auto
  have n: "count_at ((c2_pcs s)(t := C2_wait W2_clear)) (Collect sleeping2) + 1 = count_at (c2_pcs s) (Collect sleeping2)"
    "count_at ((c2_pcs s)(t := C2_wait W2_clear)) (Collect untaken) = count_at (c2_pcs s) (Collect untaken)"
    using count_at_upd [OF t, of "c2_pcs s" "C2_wait W2_clear" "Collect sleeping2"]
      count_at_upd [OF t, of "c2_pcs s" "C2_wait W2_clear" "Collect untaken"] at by simp_all
  have cnt: "waiters2 (c2 s) = of_nat (count_at ((c2_pcs s)(t := C2_wait W2_clear)) (Collect sleeping2)) + 1"
    using I(5) by (simp flip: n(1))
  have st: "wait2_step m W2_leave (c2 s, c2_c s) = (Go W2_clear, ?hc, c2_c s)" by simp
  have act: "released m (Go W2_clear) (c2_c s) = c2_c s" "back_to C2_wait (Go W2_clear) = C2_wait W2_clear"
    "(finished s)(t := finished s t + of_bool (returns (Go W2_clear))) = finished s"
    by (simp_all add: back_to_def)
  show ?thesis unfolding c2_do_wait [OF st] act
  proof (rule c2_inv_holder [OF inv t has])
    show "answered (s\<lparr>c2 := ?hc, c2_c := c2_c s, c2_pcs := (c2_pcs s)(t := C2_wait W2_clear),
        finished := finished s, found := found s\<rparr>) v u k" if "found s v u = Some k" for v u k
      by (rule answered_keep [OF I(8) [OF that]]) (simp_all add: at inside_wait.simps)
  qed (use I(6) in \<open>simp_all add: wb cnt mx n\<close>)
qed

lemma nobody_asleep:
  assumes "count_at pcs (Collect sleeping2) = 0" and "\<And>t. MAX_VTHREADS \<le> t \<Longrightarrow> pcs t = C2_out"
  shows "\<not> sleeping2 (pcs u)" and "count_at pcs (Collect untaken) = 0"
proof -
  show no: "\<not> sleeping2 (pcs u)" for u
    using count_at_0 [OF assms(1), of u] assms(2) [of u] by (cases "u < MAX_VTHREADS") auto
  have "pcs u \<notin> Collect untaken" for u
    using no [of u] by (cases "pcs u" rule: untaken.cases) auto
  then show "count_at pcs (Collect untaken) = 0" by (simp add: count_at_def)
qed

lemma c2_wait_clear:
  assumes inv: "c2_inv m s" and t: "t < MAX_VTHREADS" and at: "c2_pcs s t = C2_wait W2_clear"
  shows "c2_inv m (c2_do m t (C2_wait W2_clear) s)"
proof -
  note I = c2_invD [OF inv]
  let ?last = "waiters2 (c2 s) = 0"
  let ?hc = "if ?last then (c2 s)\<lparr>waker_blocked := 0\<rparr> else c2 s"
    and ?f = "(finished s)(t := finished s t + 1)"
  have has: "has2 (c2_pcs s t)" using at by simp
  have wb: "waker_blocked (c2 s) = 2" and mx: "mutex2 (c2 s) = Some m" using I(7) [of t] at by auto
  have n: "count_at ((c2_pcs s)(t := C2_hold)) (Collect sleeping2) = count_at (c2_pcs s) (Collect sleeping2)"
    "count_at ((c2_pcs s)(t := C2_hold)) (Collect untaken) = count_at (c2_pcs s) (Collect untaken)"
    using count_at_upd [OF t, of "c2_pcs s" C2_hold "Collect sleeping2"]
      count_at_upd [OF t, of "c2_pcs s" C2_hold "Collect untaken"] at by simp_all
  have empty: "count_at (c2_pcs s) (Collect sleeping2) = 0" if ?last
    using that I(5) count_at_inj [of "c2_pcs s" "Collect sleeping2" "c2_pcs s" "{}"] by (simp add: count_at_def)
  have sig: "signals (c2 s) = of_nat (count_at (c2_pcs s) (Collect untaken))" using I(6) wb by simp
  have st: "wait2_step m W2_clear (c2 s, c2_c s) = (Return 0, ?hc, c2_c s)" using wb by simp
  have act: "released m (Return 0 :: wait2_pc action) (c2_c s) = c2_c s" "back_to C2_wait (Return 0) = C2_hold"
    "(finished s)(t := finished s t + of_bool (returns (Return 0 :: wait2_pc action))) = ?f"
    by (simp_all add: back_to_def)
  have only: "c2_pcs s u \<noteq> C2_wait W2_clear" if "u \<noteq> t" for u
    using sole_other [OF I(1) has that] by auto
  show ?thesis unfolding c2_do_wait [OF st] act
  proof (rule c2_inv_holder [OF inv t has])
    show "answered (s\<lparr>c2 := ?hc, c2_c := c2_c s, c2_pcs := (c2_pcs s)(t := C2_hold),
        finished := ?f, found := found s\<rparr>) v u k" if "found s v u = Some k" for v u k
    proof (cases "u = t")
      case True
      then show ?thesis using I(8) [OF that] by (auto simp: answered_def)
    next
      case False
      have "\<not> sleeping2 (c2_pcs s u)" if ?last using nobody_asleep(1) [OF empty [OF that] I(2)] .
      then show ?thesis using I(8) [OF that] False only [OF False] at
        by (auto simp: answered_def split: if_splits)
    qed
    show "signals ?hc = (if waker_blocked ?hc = 2 \<or> is_mark C2_hold
       then of_nat (count_at ((c2_pcs s)(t := C2_hold)) (Collect untaken)) else 0)"
      using sig nobody_asleep(2) [OF empty I(2)] wb by (simp add: n)
  qed (use I(5) wb mx in \<open>simp_all add: n\<close>)
qed

lemma somebody_asleep:
  assumes inv: "c2_inv m s" and pos: "0 < sint (waiters2 (c2 s))"
  shows "mutex2 (c2 s) = Some m"
proof -
  have "0 < count_at (c2_pcs s) (Collect sleeping2)"
    using pos c2_invD(5) [OF inv] by (simp add: sint_count_at)
  then obtain u where "sleeping2 (c2_pcs s u)" by (auto simp: count_at_def card_gt_0_iff)
  then show ?thesis
    using c2_invD(7) [OF inv, of u] by (cases "c2_pcs s u" rule: sleeping2.cases) auto
qed

lemma c2_bcast_plain:
  assumes inv: "c2_inv m s" and t: "t < MAX_VTHREADS" and at: "c2_pcs s t = C2_bcast pc"
    and st: "bcast2_step pc (c2 s, c2_c s) = (act, c2 s, c2_c s)"
    and nomark: "\<not> is_mark (C2_bcast pc)" and has: "has2 (C2_bcast pc)"
    and lock: "if has2 (back_to C2_bcast act) then released m act (c2_c s) = c2_c s else released m act (c2_c s) = 0"
    and p: "\<not> is_signal (back_to C2_bcast act)" "\<not> is_mark (back_to C2_bcast act)"
      "\<not> sleeping2 (back_to C2_bcast act)" "\<not> untaken (back_to C2_bcast act)"
      "awaits (back_to C2_bcast act) = awaits (C2_bcast pc)" "\<not> inside_wait (back_to C2_bcast act)"
    and loc: "local2 m (c2 s) (back_to C2_bcast act)"
  shows "c2_inv m (c2_do m t (C2_bcast pc) s)"
proof -
  have fnd: "(case pc of B2_mark hm \<Rightarrow> (found s)(t := snapshot s) | _ \<Rightarrow> found s) = found s"
    using nomark by (cases pc) simp_all
  show ?thesis unfolding c2_do_bcast [OF st] fnd
    by (rule c2_inv_plain [OF inv t]) (use assms in \<open>simp_all add: inside_wait.simps\<close>)
qed

lemma c2_bcast_before:
  assumes inv: "c2_inv m s" and t: "t < MAX_VTHREADS" and at: "c2_pcs s t = C2_bcast pc"
    and pc: "pc = B2_mutex \<or> pc = B2_test hm \<or> pc = B2_sleep hm"
  shows "c2_inv m (c2_do m t (C2_bcast pc) s)"
proof -
  have loc: "local2 m (c2 s) (C2_bcast pc)" using c2_invD(7) [OF inv, of t] at by simp
  from pc consider "pc = B2_mutex" | "pc = B2_test hm" "0 < sint (waiters2 (c2 s))"
    | "pc = B2_test hm" "\<not> 0 < sint (waiters2 (c2 s))" | "pc = B2_sleep hm" by blast
  then show ?thesis
  proof cases
    case 1
    show ?thesis by (rule c2_bcast_plain [OF inv t at, where act = "Go (B2_test (mutex2 (c2 s)))"])
      (use 1 in \<open>simp_all add: back_to_def inside_wait.simps\<close>)
  next
    case 2
    show ?thesis by (rule c2_bcast_plain [OF inv t at, where act = "Go (B2_set hm)"])
      (use 2 loc somebody_asleep [OF inv] in \<open>simp_all add: back_to_def inside_wait.simps\<close>)
  next
    case 3
    show ?thesis by (rule c2_bcast_plain [OF inv t at, where act = "Return 0"])
      (use 3 in \<open>simp_all add: back_to_def inside_wait.simps\<close>)
  next
    case 4
    show ?thesis by (rule c2_bcast_plain [OF inv t at, where act = "yield_mutex hm (B2_lock hm)"])
      (use 4 loc in \<open>simp_all add: back_to_def inside_wait.simps sync_defs\<close>)
  qed
qed

lemma c2_bcast_lock:
  assumes inv: "c2_inv m s" and t: "t < MAX_VTHREADS" and at: "c2_pcs s t = C2_bcast (B2_lock hm)"
  shows "c2_inv m (c2_do m t (C2_bcast (B2_lock hm)) s)"
proof -
  have loc: "local2 m (c2 s) (c2_pcs s t)" using c2_invD(7) [OF inv] .
  have "c2_inv m (s\<lparr>c2_c := 1, c2_pcs := (c2_pcs s)(t := if c2_c s = 0 then C2_bcast (B2_check hm) else c2_pcs s t)\<rparr>)"
    by (rule c2_inv_try [OF inv t]) (use at loc in auto)
  then show ?thesis using at
    by (cases "c2_c s = 0") (auto simp: relock_def sync_defs back_to_def)
qed

lemma c2_bcast_set:
  assumes inv: "c2_inv m s" and t: "t < MAX_VTHREADS" and at: "c2_pcs s t = C2_bcast (B2_set hm)"
  shows "c2_inv m (c2_do m t (C2_bcast (B2_set hm)) s)"
proof -
  note I = c2_invD [OF inv]
  let ?hc = "(c2 s)\<lparr>signals := waiters2 (c2 s)\<rparr>" and ?p = "C2_bcast (B2_mark hm)"
  have has: "has2 (c2_pcs s t)" and hm: "hm = Some m" using at I(7) [of t] by simp_all
  have n: "count_at ((c2_pcs s)(t := ?p)) (Collect sleeping2) = count_at (c2_pcs s) (Collect sleeping2)"
    "count_at ((c2_pcs s)(t := ?p)) (Collect untaken) = count_at (c2_pcs s) (Collect untaken)"
    using count_at_upd [OF t, of "c2_pcs s" ?p "Collect sleeping2"]
      count_at_upd [OF t, of "c2_pcs s" ?p "Collect untaken"] at by simp_all
  have same: "count_at (c2_pcs s) (Collect untaken) = count_at (c2_pcs s) (Collect sleeping2)"
    using holder_counts(1) [OF inv t has] at by simp
  have st: "bcast2_step (B2_set hm) (c2 s, c2_c s) = (Go (B2_mark hm), ?hc, c2_c s)" by simp
  have act: "released m (Go (B2_mark hm)) (c2_c s) = c2_c s" "back_to C2_bcast (Go (B2_mark hm)) = ?p"
    by (simp_all add: back_to_def)
  show ?thesis unfolding c2_do_bcast [OF st] act bcast2_pc.case
  proof (rule c2_inv_holder [OF inv t has])
    show "answered (s\<lparr>c2 := ?hc, c2_c := c2_c s, c2_pcs := (c2_pcs s)(t := ?p),
        finished := finished s, found := found s\<rparr>) v u k" if "found s v u = Some k" for v u k
      by (rule answered_keep [OF I(8) [OF that]]) (simp_all add: at inside_wait.simps)
    show "local2 m ?hc ?p" using hm by simp
  qed (use I(4,5) in \<open>simp_all add: n same\<close>)
qed

lemma c2_bcast_mark:
  assumes inv: "c2_inv m s" and t: "t < MAX_VTHREADS" and at: "c2_pcs s t = C2_bcast (B2_mark hm)"
  shows "c2_inv m (c2_do m t (C2_bcast (B2_mark hm)) s)"
proof -
  note I = c2_invD [OF inv]
  let ?hc = "(c2 s)\<lparr>waker_blocked := 2\<rparr>" and ?p = "C2_bcast (B2_sleep hm)"
  have has: "has2 (c2_pcs s t)" and hm: "hm = Some m" using at I(7) [of t] by simp_all
  have n: "count_at ((c2_pcs s)(t := ?p)) (Collect sleeping2) = count_at (c2_pcs s) (Collect sleeping2)"
    "count_at ((c2_pcs s)(t := ?p)) (Collect untaken) = count_at (c2_pcs s) (Collect untaken)"
    using count_at_upd [OF t, of "c2_pcs s" ?p "Collect sleeping2"]
      count_at_upd [OF t, of "c2_pcs s" ?p "Collect untaken"] at by simp_all
  have "\<exists>u. is_mark (c2_pcs s u)" using at by (intro exI [of _ t]) simp
  then have sig: "signals (c2 s) = of_nat (count_at (c2_pcs s) (Collect untaken))" using I(6) by simp
  have st: "bcast2_step (B2_mark hm) (c2 s, c2_c s) = (Go (B2_sleep hm), ?hc, c2_c s)" by simp
  have act: "released m (Go (B2_sleep hm)) (c2_c s) = c2_c s" "back_to C2_bcast (Go (B2_sleep hm)) = ?p"
    by (simp_all add: back_to_def)
  show ?thesis unfolding c2_do_bcast [OF st] act bcast2_pc.case
  proof (rule c2_inv_holder [OF inv t has])
    show "answered (s\<lparr>c2 := ?hc, c2_c := c2_c s, c2_pcs := (c2_pcs s)(t := ?p),
        finished := finished s, found := (found s)(t := snapshot s)\<rparr>) v u k"
      if "((found s)(t := snapshot s)) v u = Some k" for v u k
    proof (cases "v = t")
      case True
      then show ?thesis using that at by (auto simp: answered_def snapshot_def split: if_splits)
    next
      case False
      then show ?thesis using I(8) [of v u k] that at by (auto simp: answered_def)
    qed
    show "local2 m ?hc ?p" using hm by simp
  qed (use I(5) sig in \<open>simp_all add: n\<close>)
qed

lemma c2_bcast_check:
  assumes inv: "c2_inv m s" and t: "t < MAX_VTHREADS" and at: "c2_pcs s t = C2_bcast (B2_check hm)"
  shows "c2_inv m (c2_do m t (C2_bcast (B2_check hm)) s)"
proof (cases "waker_blocked (c2 s) = 0")
  case False
  have loc: "local2 m (c2 s) (C2_bcast (B2_check hm))" using c2_invD(7) [OF inv, of t] at by simp
  show ?thesis by (rule c2_bcast_plain [OF inv t at, where act = "Go (B2_sleep hm)"])
    (use False loc in \<open>simp_all add: back_to_def inside_wait.simps\<close>)
next
  case True
  note I = c2_invD [OF inv]
  have has: "has2 (c2_pcs s t)" using at by simp
  have n: "count_at ((c2_pcs s)(t := C2_hold)) (Collect sleeping2) = count_at (c2_pcs s) (Collect sleeping2)"
    using count_at_upd [OF t, of "c2_pcs s" C2_hold "Collect sleeping2"] at by simp
  have sig: "signals (c2 s) = 0" using I(6) True holder_counts(2) [OF inv t has] at by simp
  have st: "bcast2_step (B2_check hm) (c2 s, c2_c s) = (Return 0, c2 s, c2_c s)" using True by simp
  have act: "released m (Return 0 :: bcast2_pc action) (c2_c s) = c2_c s" "back_to C2_bcast (Return 0) = C2_hold"
    by (simp_all add: back_to_def)
  show ?thesis unfolding c2_do_bcast [OF st] act bcast2_pc.case
  proof (rule c2_inv_holder [OF inv t has])
    show "answered (s\<lparr>c2 := c2 s, c2_c := c2_c s, c2_pcs := (c2_pcs s)(t := C2_hold),
        finished := finished s, found := found s\<rparr>) v u k" if "found s v u = Some k" for v u k
      using I(8) [OF that] True by (simp add: answered_def)
  qed (use I(5) in \<open>simp_all add: True sig n\<close>)
qed

text \<open>The steps around the operations, and all steps but signals.\<close>

lemma c2_inv_user:
  assumes inv: "c2_inv m s" and at: "c2_pcs s t = C2_hold" and t: "t < MAX_VTHREADS"
    and p: "p = C2_out \<and> c' = 0 \<or> p \<in> {C2_wait W2_mutex, C2_bcast B2_mutex} \<and> c' = c2_c s"
    and g: "\<And>v u k. g v u = Some k \<Longrightarrow> found s v u = Some k"
  shows "c2_inv m (s\<lparr>c2 := c2 s, c2_c := c', c2_pcs := (c2_pcs s)(t := p), finished := finished s, found := g\<rparr>)"
proof -
  note I = c2_invD [OF inv]
  have has: "has2 (c2_pcs s t)" using at by simp
  have n: "count_at ((c2_pcs s)(t := p)) (Collect sleeping2) = count_at (c2_pcs s) (Collect sleeping2)"
    "count_at ((c2_pcs s)(t := p)) (Collect untaken) = count_at (c2_pcs s) (Collect untaken)"
    using count_at_upd [OF t, of "c2_pcs s" p "Collect sleeping2"]
      count_at_upd [OF t, of "c2_pcs s" p "Collect untaken"] at p by auto
  have sig: "signals (c2 s) = (if waker_blocked (c2 s) = 2 then of_nat (count_at (c2_pcs s) (Collect untaken)) else 0)"
    using I(6) holder_counts(2) [OF inv t has] at by simp
  show ?thesis
  proof (rule c2_inv_holder [OF inv t has])
    show "answered (s\<lparr>c2 := c2 s, c2_c := c', c2_pcs := (c2_pcs s)(t := p), finished := finished s, found := g\<rparr>) v u k"
      if "g v u = Some k" for v u k
      by (rule answered_keep [OF I(8) [OF g [OF that]]]) (use p at in \<open>auto simp: inside_wait.simps\<close>)
    show "signals (c2 s) = (if waker_blocked (c2 s) = 2 \<or> is_mark p
       then of_nat (count_at ((c2_pcs s)(t := p)) (Collect untaken)) else 0)"
      using sig p by (auto simp: n)
  qed (use I(4,5) p in \<open>auto simp: n\<close>)
qed

fun no_signal :: "c2_label \<Rightarrow> bool" where
  "no_signal (C2Signal t) = False" | "no_signal _ = True"

lemma c2_run_inv:
  assumes inv: "c2_inv m s"
  shows "c2_inv m (c2_do m t (c2_pcs s t) s)"
proof (cases "t < MAX_VTHREADS")
  case False
  then show ?thesis using c2_invD(2) [OF inv, of t] inv by simp
next
  case t: True
  show ?thesis
  proof (cases "c2_pcs s t")
    case C2_lock
    have "c2_inv m (s\<lparr>c2_c := 1, c2_pcs := (c2_pcs s)(t := if c2_c s = 0 then C2_hold else c2_pcs s t)\<rparr>)"
      by (rule c2_inv_try [OF inv t]) (simp_all add: C2_lock)
    then show ?thesis using C2_lock
      by (cases "c2_c s = 0") (simp_all add: pthread_mutex_lock_step_def sync_defs)
  next
    case (C2_wait pc)
    then show ?thesis
      using c2_wait_plain [OF inv t] c2_wait_lock [OF inv t] c2_wait_count [OF inv t] c2_wait_take [OF inv t]
        c2_wait_leave [OF inv t] c2_wait_clear [OF inv t]
      by (cases pc) (simp_all del: c2_do.simps)
  next
    case (C2_signal pc)
    then show ?thesis using c2_invD(3) [OF inv, of t] by simp
  next
    case (C2_bcast pc)
    then show ?thesis
      using c2_bcast_before [OF inv t] c2_bcast_lock [OF inv t] c2_bcast_set [OF inv t] c2_bcast_mark [OF inv t]
        c2_bcast_check [OF inv t]
      by (cases pc) (simp_all del: c2_do.simps)
  qed (use inv in simp_all)
qed

lemma c2_step_inv:
  assumes inv: "c2_inv m s" and l: "no_signal l"
  shows "c2_inv m (c2_step m l s)"
proof -
  note I = c2_invD [OF inv]
  have lt: "t < MAX_VTHREADS" if "c2_pcs s t = C2_hold" for t
    using I(2) [of t] that by (cases "t < MAX_VTHREADS") auto
  show ?thesis
  proof (cases l)
    case (C2Lock t)
    show ?thesis
    proof (cases "c2_pcs s t = C2_out \<and> t < MAX_VTHREADS")
      case True
      have "count_at ((c2_pcs s)(t := C2_lock)) (Collect sleeping2) = count_at (c2_pcs s) (Collect sleeping2)"
        "count_at ((c2_pcs s)(t := C2_lock)) (Collect untaken) = count_at (c2_pcs s) (Collect untaken)"
        using count_at_upd [of t "c2_pcs s" C2_lock "Collect sleeping2"]
          count_at_upd [of t "c2_pcs s" C2_lock "Collect untaken"] True by simp_all
      moreover have "(\<exists>u. is_mark (((c2_pcs s)(t := C2_lock)) u)) = (\<exists>u. is_mark (c2_pcs s u))"
        using True by (metis fun_upd_apply is_mark.simps(2,3))
      moreover have "sole has2 ((c2_pcs s)(t := C2_lock)) (c2_c s)"
        using sole_keep [OF I(1), of C2_lock t] True by simp
      moreover have "answered (c2_goto t C2_lock s) v u k" if "found s v u = Some k" for v u k
        using I(8) [OF that] True by (auto simp: answered_def)
      ultimately have "c2_inv m (c2_goto t C2_lock s)"
        using True I(2-7) by (intro c2_invI) simp_all
      then show ?thesis using True C2Lock by simp
    qed (use C2Lock inv in auto)
  next
    case (C2Unlock t)
    then show ?thesis
      using inv c2_inv_user [OF inv _ lt, of t C2_out 0 "found s"]
      by (simp add: pthread_mutex_unlock_def sync_defs)
  next
    case (C2Wait t)
    then show ?thesis using inv c2_inv_user [OF inv _ lt, of t "C2_wait W2_mutex" "c2_c s" "found s"] by simp
  next
    case (C2Bcast t)
    have "found s v u = Some k" if "((found s)(t := (\<lambda>_. None))) v u = Some k" for v u k
      using that by (simp split: if_splits)
    then have "c2_pcs s t = C2_hold \<Longrightarrow> c2_inv m (s\<lparr>c2 := c2 s, c2_c := c2_c s,
        c2_pcs := (c2_pcs s)(t := C2_bcast B2_mutex), finished := finished s, found := (found s)(t := (\<lambda>_. None))\<rparr>)"
      by (intro c2_inv_user [OF inv _ lt]) simp_all
    then show ?thesis using inv C2Bcast by simp
  next
    case (C2Run t)
    then show ?thesis using c2_run_inv [OF inv] by simp
  qed (use l in simp)
qed

lemma c2_start_inv: "c2_inv m c2_start"
  by (rule c2_invI) (simp_all add: c2_start_def sole_def count_at_def)

section \<open>A broadcast reaches everybody it found\<close>


definition answered_run :: "c2_label list" where
  "answered_run =
     [C2Lock 1, C2Run 1, C2Wait 1] @ replicate 4 (C2Run 1) @
     [C2Lock 2, C2Run 2, C2Bcast 2] @ replicate 5 (C2Run 2) @
     replicate 5 (C2Run 1) @ [C2Unlock 1] @ replicate 2 (C2Run 2)"


end
