(* ===== verification/JoinSpec.thy ===== *)
theory JoinSpec
  imports VThread
begin

text \<open>
  Joining a thread: one joiner, virtual or kernel, and the end of the thread it joins (by
  \<open>pthread_exit\<close> or by returning from its start routine, then \<open>wake_up_joined\<close> in its worker),
  in every interleaving of their steps.
\<close>

section \<open>The joiner and its target\<close>

text \<open>
  \<open>me\<close> is the joiner's virtual thread (\<^const>\<open>None\<close> for a kernel thread), \<open>tg\<close> the thread it joins,
  \<open>rv\<close> the cell for the result.  After the joiner has yielded the join mutex its worker releases
  it (\<open>jpend\<close>); it runs on when it has been put into the run queue (\<open>jwoken\<close>).  \<open>tresult\<close> is the
  result of the target.  In \<open>wake_up_joined\<close> a taken mutex makes the worker jump out of its own
  stack, which is \<open>T_fault\<close>.
\<close>

datatype target_at = T_run | T_exit exit_pc | T_wake wake_pc | T_done | T_fault

record join_sys =
  js :: vstore
  jpc :: "join_pc option"
  jret :: bool
  jpend :: bool
  jwoken :: nat
  tpc :: target_at
  tresult :: c_size

definition apply_status :: "effect list \<Rightarrow> vstore \<Rightarrow> vstore" where
  "apply_status es st = fold (\<lambda>e st. case e of
     Set_status v r \<Rightarrow> upd_vth v (cur_status_update (\<lambda>_. r)) st
   | Set_runnable v b \<Rightarrow> upd_vth v (runnable_update (\<lambda>_. b)) st
   | Enqueue v \<Rightarrow> st) es st"

datatype join_label = JCall | JRun | JRelease | TExit c_size | TReturn c_size | TRun

definition joiner_run :: "nat option \<Rightarrow> nat \<Rightarrow> nat option \<Rightarrow> join_pc \<Rightarrow> join_sys \<Rightarrow> join_sys" where
  "joiner_run me tg rv pc s = (case join_step me tg rv pc (js s) of (act, st, es) \<Rightarrow>
     s\<lparr>js := apply_status es st, jpc := continue_at act, jret := returns act, jpend := (pc = J_yield),
       jwoken := jwoken s - of_bool (pc = J_woken)\<rparr>)"

fun target_run :: "nat option \<Rightarrow> nat \<Rightarrow> target_at \<Rightarrow> join_sys \<Rightarrow> join_sys" where
  "target_run me tg (T_exit pc) s = (case pthread_exit_step tg (tresult s) pc (js s) of (act, st) \<Rightarrow>
     s\<lparr>js := st, tpc := (case act of
         Yield STATUS_FINISHED _ \<Rightarrow> T_wake WU_delete
       | Yield _ p \<Rightarrow> T_exit p | Go p \<Rightarrow> T_exit p | Return _ \<Rightarrow> T_done)\<rparr>)"
| "target_run me tg (T_wake pc) s = (case wake_up_joined_step tg pc (js s) of (act, st, es) \<Rightarrow>
     s\<lparr>js := apply_status es st,
       jwoken := jwoken s + (case me of None \<Rightarrow> 0 | Some j \<Rightarrow> count_list es (Enqueue j)),
       tpc := (case act of Go p \<Rightarrow> T_wake p | Yield _ _ \<Rightarrow> T_fault | Return _ \<Rightarrow> T_done)\<rparr>)"
| "target_run me tg _ s = s"

fun join_sys_step :: "nat option \<Rightarrow> nat \<Rightarrow> nat option \<Rightarrow> join_label \<Rightarrow> join_sys \<Rightarrow> join_sys" where
  "join_sys_step me tg rv JCall s = (if jpc s = None \<and> \<not> jret s then s\<lparr>jpc := Some J_lock\<rparr> else s)"
| "join_sys_step me tg rv JRun s = (case jpc s of None \<Rightarrow> s | Some pc \<Rightarrow>
     if pc = J_woken \<and> (jpend s \<or> jwoken s = 0) then s else joiner_run me tg rv pc s)"
| "join_sys_step me tg rv JRelease s = (if jpend s
     then s\<lparr>js := upd_vth tg (\<lambda>v. v\<lparr>join_mutex := sync_lock_release (join_mutex v)\<rparr>) (js s), jpend := False\<rparr>
     else s)"
| "join_sys_step me tg rv (TExit x) s =
     (if tpc s = T_run then s\<lparr>tpc := T_exit X_lock, tresult := x\<rparr> else s)"
| "join_sys_step me tg rv (TReturn x) s = (if tpc s = T_run
     then s\<lparr>js := manage_return tg x (js s), tpc := T_exit X_finish, tresult := x\<rparr> else s)"
| "join_sys_step me tg rv TRun s = target_run me tg (tpc s) s"

text \<open>The target as \<open>init\<close> made it, with a free join mutex, and nobody joining yet.\<close>

definition join_start :: "nat \<Rightarrow> nat \<Rightarrow> c_size \<Rightarrow> vstore \<Rightarrow> join_sys" where
  "join_start tg fresh th st =
     \<lparr>js = upd_vth tg (\<lambda>v. v\<lparr>join_mutex := 0\<rparr>) (init_slot tg fresh th 0 0 st), jpc = None, jret = False, jpend = False,
      jwoken = 0, tpc = T_run, tresult = 0\<rparr>"

section \<open>The invariant\<close>

fun joiner_has :: "join_pc option \<Rightarrow> bool" where
  "joiner_has None = False"
| "joiner_has (Some pc) = (pc \<notin> {J_lock, J_woken, JK_sem})"

fun target_has :: "target_at \<Rightarrow> bool" where
  "target_has (T_exit pc) = (pc \<in> {X_store, X_unlock})"
| "target_has (T_wake WU_retval) = True" | "target_has (T_wake WU_status) = True"
| "target_has (T_wake WU_take) = True" | "target_has (T_wake (WU_unlock h n)) = True"
| "target_has _ = False"

fun stored :: "target_at \<Rightarrow> bool" where
  "stored T_run = False" | "stored (T_exit pc) = (pc \<notin> {X_lock, X_store})" | "stored _ = True"

text \<open>Past copying the result, past setting the status, past taking the list of waiters.\<close>

fun paid :: "target_at \<Rightarrow> bool" where
  "paid (T_wake pc) = (pc \<notin> {WU_delete, WU_lock, WU_retval})" | "paid T_done = True" | "paid _ = False"

fun ended :: "target_at \<Rightarrow> bool" where
  "ended (T_wake pc) = (pc \<notin> {WU_delete, WU_lock, WU_retval, WU_status})" | "ended T_done = True"
| "ended _ = False"

fun took :: "target_at \<Rightarrow> bool" where
  "took (T_wake pc) = (pc \<notin> {WU_delete, WU_lock, WU_retval, WU_status, WU_take})" | "took T_done = True"
| "took _ = False"

text \<open>Waiters the target has taken and not woken yet, and the shape of its locals.\<close>

fun owed :: "target_at \<Rightarrow> c_uint" where
  "owed (T_wake (WU_unlock h n)) = n" | "owed (T_wake (WU_dequeue h n)) = n"
| "owed (T_wake (WU_suspend u h n)) = n" | "owed (T_wake (WU_enqueue u h n)) = n"
| "owed (T_wake (WU_post n)) = n" | "owed _ = 0"

fun locals_ok :: "nat option \<Rightarrow> target_at \<Rightarrow> bool" where
  "locals_ok me (T_wake (WU_unlock h n)) = (h = (if n = 0 then None else me))"
| "locals_ok me (T_wake (WU_dequeue h n)) = (h = (if n = 0 then None else me))"
| "locals_ok me (T_wake (WU_suspend u h n)) = (me = Some u \<and> h = None \<and> n = 1)"
| "locals_ok me (T_wake (WU_enqueue u h n)) = (me = Some u \<and> h = None \<and> n = 1)"
| "locals_ok me (T_wake (WU_post n)) = (n \<noteq> 0 \<longrightarrow> me = None)"
| "locals_ok me (T_exit X_dead) = False"
| "locals_ok me _ = True"

fun registered :: "join_pc option \<Rightarrow> bool" where
  "registered None = False"
| "registered (Some pc) = (pc \<in> {J_block, J_enqueue, J_yield, J_woken, JK_unlock, JK_sem})"

fun listed :: "join_pc option \<Rightarrow> bool" where
  "listed None = False" | "listed (Some pc) = (pc \<in> {J_yield, J_woken})"

fun parked :: "join_pc option \<Rightarrow> bool" where
  "parked None = False" | "parked (Some pc) = (pc \<in> {J_woken, JK_sem})"

fun unset :: "join_pc option \<Rightarrow> bool" where
  "unset None = True" | "unset (Some pc) = (pc \<in> {J_lock, J_retval})"

fun kind_ok :: "nat option \<Rightarrow> join_pc option \<Rightarrow> bool" where
  "kind_ok me None = True"
| "kind_ok None (Some pc) = (pc \<notin> {J_block, J_enqueue, J_yield, J_woken})"
| "kind_ok (Some j) (Some pc) = (pc \<notin> {JK_unlock, JK_sem})"

definition cell_ok :: "nat option \<Rightarrow> join_sys \<Rightarrow> bool" where
  "cell_ok rv s \<longleftrightarrow> (case rv of None \<Rightarrow> True | Some a \<Rightarrow> cells (js s) a = tresult s)"

text \<open>The mutex, the status and the result; who waits and who is owed a wake-up; the joiner's cell.\<close>

definition join_lock_inv :: "nat \<Rightarrow> join_sys \<Rightarrow> bool" where
  "join_lock_inv tg s \<longleftrightarrow>
     join_mutex (vths (js s) tg) = of_bool (joiner_has (jpc s) \<or> jpend s \<or> target_has (tpc s)) \<and>
     \<not> ((joiner_has (jpc s) \<or> jpend s) \<and> target_has (tpc s)) \<and>
     (jpend s \<longrightarrow> jpc s = Some J_woken) \<and>
     (cur_status (vths (js s) tg) = STATUS_FINISHED \<longleftrightarrow> ended (tpc s)) \<and>
     (stored (tpc s) \<longrightarrow> routine_ret (vths (js s) tg) = tresult s)"

definition join_wait_inv :: "nat option \<Rightarrow> nat \<Rightarrow> join_sys \<Rightarrow> bool" where
  "join_wait_inv me tg s \<longleftrightarrow> kind_ok me (jpc s) \<and> locals_ok me (tpc s) \<and>
     join_waiters_num (vths (js s) tg) = of_bool (registered (jpc s) \<and> \<not> took (tpc s)) \<and>
     join_wait_queue (vths (js s) tg) = (if listed (jpc s) \<and> \<not> took (tpc s) then me else None) \<and>
     (\<forall>j. me = Some j \<longrightarrow> listed (jpc s) \<longrightarrow> thisnode_next (vths (js s) j) = None) \<and>
     (registered (jpc s) \<and> ended (tpc s) \<longrightarrow> parked (jpc s) \<and> \<not> jpend s) \<and>
     (jpc s = Some J_count \<longrightarrow> \<not> ended (tpc s))"

definition join_wake_inv :: "nat option \<Rightarrow> nat \<Rightarrow> join_sys \<Rightarrow> bool" where
  "join_wake_inv me tg s \<longleftrightarrow> (case me of
      None \<Rightarrow> jwoken s = 0 \<and> (if registered (jpc s) \<and> took (tpc s)
        then owed (tpc s) = 1 \<and> join_sem (vths (js s) tg) = 0 \<or> owed (tpc s) = 0 \<and> join_sem (vths (js s) tg) = 1
        else owed (tpc s) = 0 \<and> join_sem (vths (js s) tg) = 0)
    | Some j \<Rightarrow> join_sem (vths (js s) tg) = 0 \<and> (if registered (jpc s) \<and> took (tpc s)
        then owed (tpc s) = 1 \<and> jwoken s = 0 \<or> owed (tpc s) = 0 \<and> jwoken s = 1
        else owed (tpc s) = 0 \<and> jwoken s = 0))"

definition join_cell_inv :: "nat \<Rightarrow> nat option \<Rightarrow> join_sys \<Rightarrow> bool" where
  "join_cell_inv tg rv s \<longleftrightarrow>
     retval (vths (js s) tg) = (if unset (jpc s) \<and> \<not> jret s then None else rv) \<and>
     (registered (jpc s) \<and> paid (tpc s) \<longrightarrow> cell_ok rv s) \<and>
     (jpc s = Some J_unlock \<longrightarrow> ended (tpc s) \<and> cell_ok rv s) \<and>
     (jpc s = Some J_copy \<longrightarrow> ended (tpc s)) \<and>
     (jret s \<longrightarrow> jpc s = None \<and> ended (tpc s) \<and> cell_ok rv s)"

definition join_inv :: "nat option \<Rightarrow> nat \<Rightarrow> nat option \<Rightarrow> join_sys \<Rightarrow> bool" where
  "join_inv me tg rv s \<longleftrightarrow>
     join_lock_inv tg s \<and> join_wait_inv me tg s \<and> join_wake_inv me tg s \<and> join_cell_inv tg rv s"

lemma join_invI:
  "join_lock_inv tg s \<Longrightarrow> join_wait_inv me tg s \<Longrightarrow> join_wake_inv me tg s \<Longrightarrow> join_cell_inv tg rv s \<Longrightarrow>
     join_inv me tg rv s"
  by (simp add: join_inv_def)

lemma join_invD:
  assumes "join_inv me tg rv s"
  shows "join_lock_inv tg s" and "join_wait_inv me tg s" and "join_wake_inv me tg s" and "join_cell_inv tg rv s"
  using assms by (simp_all add: join_inv_def)

lemmas join_inv_defs = join_lock_inv_def join_wait_inv_def join_wake_inv_def join_cell_inv_def

lemma join_start_inv: "join_inv me tg rv (join_start tg fresh th st)"
  by (cases me) (simp_all add: join_inv_def join_inv_defs join_start_def init_slot_def init_def)

lemma cell_ok_cong:
  "cells (js s') = cells (js s) \<Longrightarrow> tresult s' = tresult s \<Longrightarrow> cell_ok rv s' = cell_ok rv s"
  by (simp add: cell_ok_def split: option.split)

lemma JCall_inv:
  assumes inv: "join_inv me tg rv s"
  shows "join_inv me tg rv (join_sys_step me tg rv JCall s)"
proof (cases "jpc s = None \<and> \<not> jret s")
  case True
  note I = join_invD [OF inv]
  have "join_lock_inv tg (s\<lparr>jpc := Some J_lock\<rparr>)" using I(1) True by (simp add: join_lock_inv_def)
  moreover have "join_wait_inv me tg (s\<lparr>jpc := Some J_lock\<rparr>)"
    using I(2) True by (cases me) (simp_all add: join_wait_inv_def)
  moreover have "join_wake_inv me tg (s\<lparr>jpc := Some J_lock\<rparr>)"
    using I(3) True by (cases me) (simp_all add: join_wake_inv_def)
  moreover have "join_cell_inv tg rv (s\<lparr>jpc := Some J_lock\<rparr>)"
    using I(4) True by (simp add: join_cell_inv_def)
  ultimately show ?thesis using True by (simp add: join_invI)
qed (use inv in auto)

lemma JRelease_inv:
  assumes inv: "join_inv me tg rv s" and me: "me \<noteq> Some tg"
  shows "join_inv me tg rv (join_sys_step me tg rv JRelease s)"
proof (cases "jpend s")
  case True
  note I = join_invD [OF inv]
  let ?s = "s\<lparr>js := upd_vth tg (\<lambda>v. v\<lparr>join_mutex := sync_lock_release (join_mutex v)\<rparr>) (js s), jpend := False\<rparr>"
  have pc: "jpc s = Some J_woken" using I(1) True by (simp add: join_lock_inv_def)
  have cell: "cell_ok rv ?s = cell_ok rv s" by (rule cell_ok_cong) simp_all
  have "join_lock_inv tg ?s" using I(1) True pc by (simp add: join_lock_inv_def sync_defs)
  moreover have "join_wait_inv me tg ?s" using I(2) True pc me by (cases me) (simp_all add: join_wait_inv_def)
  moreover have "join_wake_inv me tg ?s" using I(3) True pc by (cases me) (auto simp: join_wake_inv_def)
  moreover have "join_cell_inv tg rv ?s" using I(4) True pc by (simp add: join_cell_inv_def cell)
  ultimately show ?thesis using True by (simp add: join_invI)
qed (use inv in simp)

lemma TExit_inv:
  assumes inv: "join_inv me tg rv s"
  shows "join_inv me tg rv (join_sys_step me tg rv (TExit x) s)"
proof (cases "tpc s = T_run")
  case True
  note I = join_invD [OF inv]
  let ?s = "s\<lparr>tpc := T_exit X_lock, tresult := x\<rparr>"
  have "join_lock_inv tg ?s" using I(1) True by (simp add: join_lock_inv_def)
  moreover have "join_wait_inv me tg ?s" using I(2) True by (cases me) (simp_all add: join_wait_inv_def)
  moreover have "join_wake_inv me tg ?s" using I(3) True by (cases me) (simp_all add: join_wake_inv_def)
  moreover have "join_cell_inv tg rv ?s" using I(4) True by (simp add: join_cell_inv_def)
  ultimately show ?thesis using True by (simp add: join_invI)
qed (use inv in simp)

lemma TReturn_inv:
  assumes inv: "join_inv me tg rv s" and me: "me \<noteq> Some tg"
  shows "join_inv me tg rv (join_sys_step me tg rv (TReturn x) s)"
proof (cases "tpc s = T_run")
  case True
  note I = join_invD [OF inv]
  let ?s = "s\<lparr>js := manage_return tg x (js s), tpc := T_exit X_finish, tresult := x\<rparr>"
  have "join_lock_inv tg ?s" using I(1) True by (simp add: join_lock_inv_def manage_return_def)
  moreover have "join_wait_inv me tg ?s"
    using I(2) True me by (cases me) (simp_all add: join_wait_inv_def manage_return_def)
  moreover have "join_wake_inv me tg ?s"
    using I(3) True by (cases me) (simp_all add: join_wake_inv_def manage_return_def)
  moreover have "join_cell_inv tg rv ?s" using I(4) True by (simp add: join_cell_inv_def manage_return_def)
  ultimately show ?thesis using True by (simp add: join_invI)
qed (use inv in simp)

text \<open>The steps of the joiner.\<close>

lemma took_ended: "took p \<longrightarrow> ended p" and ended_paid: "ended p \<longrightarrow> paid p"
  and paid_stored: "paid p \<longrightarrow> stored p"
  by (cases p rule: ended.cases; auto)+

lemma paid_ended: "paid p \<Longrightarrow> \<not> target_has p \<Longrightarrow> ended p"
  by (cases p rule: target_has.cases) auto

lemma joiner_lock_inv:
  assumes lock: "join_lock_inv tg s" and wait: "join_wait_inv me tg s" and at: "jpc s = Some pc"
    and me: "me \<noteq> Some tg" and resume: "pc = J_woken \<Longrightarrow> \<not> jpend s"
  shows "join_lock_inv tg (joiner_run me tg rv pc s)"
  using assms
  by (cases pc; cases me)
    (simp_all add: join_lock_inv_def join_wait_inv_def joiner_run_def apply_status_def sync_defs store_cell_def
      node_enqueue_def next_of_def set_next_def Let_def split: if_splits option.splits)

lemma joiner_wait_inv:
  assumes lock: "join_lock_inv tg s" and wait: "join_wait_inv me tg s" and wake: "join_wake_inv me tg s"
    and at: "jpc s = Some pc"
    and me: "me \<noteq> Some tg" and resume: "pc = J_woken \<Longrightarrow> \<not> jpend s \<and> 0 < jwoken s"
  shows "join_wait_inv me tg (joiner_run me tg rv pc s)"
proof (cases me)
  case None
  with assms took_ended [of "tpc s"] show ?thesis
    by (cases pc)
      (simp_all add: join_lock_inv_def join_wait_inv_def join_wake_inv_def joiner_run_def apply_status_def sync_defs
        store_cell_def Let_def split: if_splits option.splits)
next
  case (Some j)
  with assms took_ended [of "tpc s"] show ?thesis
    by (cases pc)
      (simp_all add: join_lock_inv_def join_wait_inv_def join_wake_inv_def joiner_run_def apply_status_def sync_defs
        store_cell_def node_enqueue_def next_of_def set_next_def Let_def split: if_splits option.splits)
qed

lemma joiner_wake_inv:
  assumes wait: "join_wait_inv me tg s" and wake: "join_wake_inv me tg s"
    and at: "jpc s = Some pc"
    and me: "me \<noteq> Some tg" and resume: "pc = J_woken \<Longrightarrow> \<not> jpend s \<and> 0 < jwoken s"
  shows "join_wake_inv me tg (joiner_run me tg rv pc s)"
proof (cases me)
  case None
  with assms took_ended [of "tpc s"] show ?thesis
    by (cases pc)
      (simp_all add: join_wait_inv_def join_wake_inv_def joiner_run_def apply_status_def sync_defs
        store_cell_def Let_def split: if_splits option.splits, auto)
next
  case (Some j)
  with assms took_ended [of "tpc s"] show ?thesis
    by (cases pc)
      (simp_all add: join_wait_inv_def join_wake_inv_def joiner_run_def apply_status_def sync_defs
        store_cell_def node_enqueue_def next_of_def set_next_def Let_def split: if_splits option.splits)
qed

lemma joiner_cell_inv:
  assumes lock: "join_lock_inv tg s" and wait: "join_wait_inv me tg s" and wake: "join_wake_inv me tg s"
    and cell: "join_cell_inv tg rv s" and at: "jpc s = Some pc"
    and me: "me \<noteq> Some tg" and resume: "pc = J_woken \<Longrightarrow> \<not> jpend s \<and> 0 < jwoken s"
  shows "join_cell_inv tg rv (joiner_run me tg rv pc s)"
proof -
  have same: "cells (js (joiner_run me tg rv pc s)) = cells (js s)" if "pc \<noteq> J_copy"
    using that by (cases pc; cases me) (simp_all add: joiner_run_def apply_status_def sync_defs node_enqueue_def set_next_def Let_def)
  have res: "tresult (joiner_run me tg rv pc s) = tresult s"
    by (simp add: joiner_run_def split_beta)
  have keep: "cell_ok rv (joiner_run me tg rv pc s) = cell_ok rv s" if "pc \<noteq> J_copy"
    by (rule cell_ok_cong [OF same [OF that] res])
  have copy: "cell_ok rv (joiner_run me tg rv J_copy s)" if "pc = J_copy"
    using lock cell at that ended_paid [of "tpc s"] paid_stored [of "tpc s"]
    by (cases rv) (auto simp: cell_ok_def joiner_run_def apply_status_def store_cell_def join_lock_inv_def join_cell_inv_def)
  let ?s = "joiner_run me tg rv pc s"
  have tpc: "tpc ?s = tpc s" by (simp add: joiner_run_def split_beta)
  have reg: "registered (jpc ?s) \<Longrightarrow> registered (jpc s) \<or> pc = J_count"
    using at by (cases pc; cases me) (simp_all add: joiner_run_def sync_defs Let_def split_beta split: if_splits)
  have unlock: "jpc ?s = Some J_unlock \<Longrightarrow> pc = J_copy"
    using at by (cases pc; cases me) (simp_all add: joiner_run_def sync_defs Let_def split_beta split: if_splits)
  have cpy: "jpc ?s = Some J_copy \<Longrightarrow> cur_status (vths (js s) tg) = STATUS_FINISHED"
    using at by (cases pc; cases me) (simp_all add: joiner_run_def sync_defs Let_def split_beta split: if_splits)
  have ret: "jret ?s \<Longrightarrow> jpc ?s = None \<and> (pc = J_unlock \<or> pc = J_woken \<or> pc = JK_sem \<and> join_sem (vths (js s) tg) = 1)"
    using at by (cases pc; cases me) (simp_all add: joiner_run_def sync_defs Let_def split_beta split: if_splits)
  have kind: "kind_ok me (jpc s)" using wait by (simp add: join_wait_inv_def)
  have fresh: "\<not> jret s" using cell at by (auto simp: join_cell_inv_def)
  have woken: "took (tpc s)" if "pc = J_woken \<or> pc = JK_sem \<and> join_sem (vths (js s) tg) = 1"
    using that wait wake at resume by (cases me) (auto simp: join_wait_inv_def join_wake_inv_def split: if_splits)
  have c1: "retval (vths (js ?s) tg) = (if unset (jpc ?s) \<and> \<not> jret ?s then None else rv)"
    using cell at me fresh kind
    by (cases pc; cases me)
      (simp_all add: join_cell_inv_def joiner_run_def apply_status_def sync_defs node_enqueue_def set_next_def
        next_of_def store_cell_def Let_def split: option.splits)
  have c2: "cell_ok rv ?s" if "registered (jpc ?s)" "paid (tpc s)"
  proof (cases "pc = J_count")
    case True
    then have "\<not> ended (tpc s)" "\<not> target_has (tpc s)" using wait lock at by (auto simp: join_wait_inv_def join_lock_inv_def)
    then show ?thesis using paid_ended that(2) by blast
  next
    case False
    then have r: "registered (jpc s)" using reg that(1) by blast
    then have "pc \<noteq> J_copy" using at by auto
    from keep [OF this] show ?thesis using r that(2) cell by (simp add: join_cell_inv_def)
  qed
  have c3: "ended (tpc s) \<and> cell_ok rv ?s" if "jpc ?s = Some J_unlock"
  proof -
    have "pc = J_copy" using unlock that .
    then show ?thesis using copy cell at by (simp add: join_cell_inv_def)
  qed
  have c4: "ended (tpc s)" if "jpc ?s = Some J_copy"
    using cpy [OF that] lock by (simp add: join_lock_inv_def)
  have c5: "jpc ?s = None \<and> ended (tpc s) \<and> cell_ok rv ?s" if r: "jret ?s"
  proof (cases "pc = J_unlock")
    case True
    then have "pc \<noteq> J_copy" by simp
    from keep [OF this] True show ?thesis using ret [OF r] cell at by (simp add: join_cell_inv_def)
  next
    case False
    then have w: "pc = J_woken \<or> pc = JK_sem \<and> join_sem (vths (js s) tg) = 1" using ret [OF r] by blast
    then have "pc \<noteq> J_copy" "registered (jpc s)" using at by auto
    with keep cell woken [OF w] took_ended ended_paid ret [OF r] show ?thesis
      by (auto simp: join_cell_inv_def)
  qed
  show ?thesis unfolding join_cell_inv_def tpc using c1 c2 c3 c4 c5 by blast
qed

lemma JRun_inv:
  assumes inv: "join_inv me tg rv s" and me: "me \<noteq> Some tg"
  shows "join_inv me tg rv (join_sys_step me tg rv JRun s)"
proof (cases "jpc s")
  case (Some pc)
  show ?thesis
  proof (cases "pc = J_woken \<and> (jpend s \<or> jwoken s = 0)")
    case False
    then have resume: "pc = J_woken \<Longrightarrow> \<not> jpend s \<and> 0 < jwoken s" by simp
    then have pend: "pc = J_woken \<Longrightarrow> \<not> jpend s" by simp
    note I = join_invD [OF inv]
    have "join_inv me tg rv (joiner_run me tg rv pc s)"
      using joiner_lock_inv [OF I(1,2) Some me pend] joiner_wait_inv [OF I(1-3) Some me resume]
        joiner_wake_inv [OF I(2,3) Some me resume] joiner_cell_inv [OF I Some me resume]
      by (simp add: join_invI)
    then show ?thesis using Some False by auto
  qed (use inv Some in simp)
qed (use inv in simp)

text \<open>The steps of the target.\<close>

lemma exit_inv:
  assumes inv: "join_inv me tg rv s" and at: "tpc s = T_exit pc" and me: "me \<noteq> Some tg"
  shows "join_inv me tg rv (target_run me tg (T_exit pc) s)"
proof -
  note I = join_invD [OF inv]
  let ?s = "target_run me tg (T_exit pc) s"
  have dead: "pc \<noteq> X_dead" using I(2) at by (auto simp: join_wait_inv_def)
  have "join_lock_inv tg ?s"
    using I(1) at dead by (cases pc) (auto simp: join_lock_inv_def sync_defs split: if_splits)
  moreover have "join_wait_inv me tg ?s"
    using I(2) at dead me
    by (cases pc; cases me) (auto simp: join_wait_inv_def sync_defs split: if_splits)
  moreover have "join_wake_inv me tg ?s"
    using I(3) at dead by (cases pc; cases me) (auto simp: join_wake_inv_def sync_defs split: if_splits)
  moreover have "join_cell_inv tg rv ?s"
    using I(4) at dead by (cases pc) (auto simp: join_cell_inv_def sync_defs split: if_splits)
  ultimately show ?thesis by (rule join_invI)
qed

lemma joiner_points:
  "registered p \<longrightarrow> \<not> joiner_has p \<longrightarrow> parked p" "listed p \<longrightarrow> registered p" "parked p \<longrightarrow> registered p"
  "parked p \<longrightarrow> kind_ok (Some j) p \<longrightarrow> listed p" "kind_ok None p \<longrightarrow> \<not> listed p"
  by (cases p; auto)+

lemma wake_lock_inv:
  assumes lock: "join_lock_inv tg s" and wait: "join_wait_inv me tg s" and at: "tpc s = T_wake pc"
    and me: "me \<noteq> Some tg"
  shows "join_lock_inv tg (target_run me tg (T_wake pc) s)"
  using assms
  by (cases pc)
    (auto simp: join_lock_inv_def join_wait_inv_def apply_status_def sync_defs store_cell_def
      node_dequeue_def next_of_def set_next_def Let_def split: if_splits option.splits)

lemma wake_wait_inv:
  assumes lock: "join_lock_inv tg s" and wait: "join_wait_inv me tg s" and wake: "join_wake_inv me tg s"
    and at: "tpc s = T_wake pc" and me: "me \<noteq> Some tg"
  shows "join_wait_inv me tg (target_run me tg (T_wake pc) s)"
proof (cases "jpc s")
  case None
  with assms show ?thesis
    by (cases pc; cases me)
      (auto simp: join_lock_inv_def join_wait_inv_def join_wake_inv_def apply_status_def sync_defs store_cell_def
        node_dequeue_def next_of_def set_next_def Let_def split: if_splits option.splits)
next
  case (Some p)
  with assms show ?thesis
    by (cases p; cases me; simp add: join_wait_inv_def; cases pc)
      (auto simp: join_lock_inv_def join_wait_inv_def join_wake_inv_def apply_status_def sync_defs store_cell_def
        node_dequeue_def next_of_def set_next_def Let_def split: if_splits option.splits)
qed

lemma wake_wake_inv:
  assumes lock: "join_lock_inv tg s" and wait: "join_wait_inv me tg s" and wake: "join_wake_inv me tg s"
    and at: "tpc s = T_wake pc" and me: "me \<noteq> Some tg"
  shows "join_wake_inv me tg (target_run me tg (T_wake pc) s)"
proof (cases "jpc s")
  case None
  with assms show ?thesis
    by (cases pc; cases me)
      (auto simp: join_lock_inv_def join_wait_inv_def join_wake_inv_def apply_status_def sync_defs store_cell_def
        node_dequeue_def next_of_def set_next_def Let_def split: if_splits option.splits)
next
  case (Some p)
  with assms show ?thesis
    by (cases p; cases me; simp add: join_wait_inv_def; cases pc)
      (auto simp: join_lock_inv_def join_wait_inv_def join_wake_inv_def apply_status_def sync_defs store_cell_def
        node_dequeue_def next_of_def set_next_def Let_def split: if_splits option.splits)
qed

lemma target_points:
  assumes "tpc s = T_wake pc"
  shows "jpc (target_run me tg (T_wake pc) s) = jpc s" and "jret (target_run me tg (T_wake pc) s) = jret s"
    and "tresult (target_run me tg (T_wake pc) s) = tresult s"
    and "retval (vths (js (target_run me tg (T_wake pc) s)) tg) = retval (vths (js s) tg)"
    and "pc \<noteq> WU_retval \<Longrightarrow> cells (js (target_run me tg (T_wake pc) s)) = cells (js s)"
  by (cases pc;
      simp add: apply_status_def sync_defs store_cell_def node_dequeue_def set_next_def next_of_def Let_def split_beta
        split: option.splits)+

lemma wake_cell_inv:
  assumes lock: "join_lock_inv tg s" and cell: "join_cell_inv tg rv s" and at: "tpc s = T_wake pc"
  shows "join_cell_inv tg rv (target_run me tg (T_wake pc) s)"
proof -
  let ?s = "target_run me tg (T_wake pc) s"
  note pts = target_points [OF at, of me tg]
  show ?thesis
  proof (cases "pc = WU_retval")
    case True
    have unset: "registered p \<Longrightarrow> \<not> unset p" for p by (cases p) auto
    have "jret s = False" "jpc s \<noteq> Some J_unlock" "jpc s \<noteq> Some J_copy"
      using cell at True by (auto simp: join_cell_inv_def)
    moreover have "cell_ok rv ?s" if "registered (jpc s)"
      using lock cell at True unset [OF that] pts
      by (auto simp: cell_ok_def join_lock_inv_def join_cell_inv_def store_cell_def apply_status_def split: option.splits)
    ultimately show ?thesis using cell at True pts by (auto simp: join_cell_inv_def)
  next
    case False
    have ok: "cell_ok rv ?s = cell_ok rv s" by (rule cell_ok_cong [OF pts(5) [OF False] pts(3)])
    have mono: "paid (tpc ?s) \<Longrightarrow> paid (tpc s)" "ended (tpc s) \<Longrightarrow> ended (tpc ?s)"
      using at False
      by (cases pc; simp add: sync_defs node_dequeue_def Let_def split_beta split: if_splits option.splits)+
    show ?thesis using cell mono unfolding join_cell_inv_def ok pts by blast
  qed
qed

lemma TRun_inv:
  assumes inv: "join_inv me tg rv s" and me: "me \<noteq> Some tg"
  shows "join_inv me tg rv (join_sys_step me tg rv TRun s)"
proof (cases "tpc s")
  case (T_exit pc)
  then show ?thesis using exit_inv [OF inv _ me, of pc] by (simp del: target_run.simps)
next
  case (T_wake pc)
  note I = join_invD [OF inv]
  have "join_inv me tg rv (target_run me tg (T_wake pc) s)"
    using wake_lock_inv [OF I(1,2) T_wake me] wake_wait_inv [OF I(1-3) T_wake me]
      wake_wake_inv [OF I(1-3) T_wake me] wake_cell_inv [OF I(1,4) T_wake, of me]
    by (rule join_invI)
  then show ?thesis using T_wake by (simp del: target_run.simps)
qed (use inv in simp_all)

lemma join_step_inv:
  "join_inv me tg rv s \<Longrightarrow> me \<noteq> Some tg \<Longrightarrow> join_inv me tg rv (join_sys_step me tg rv l s)"
  using JCall_inv [of me tg rv s] JRun_inv [of me tg rv s] JRelease_inv [of me tg rv s] TExit_inv [of me tg rv s]
    TReturn_inv [of me tg rv s] TRun_inv [of me tg rv s]
  by (cases l; blast)

lemma join_reachable_inv:
  assumes "me \<noteq> Some tg"
  shows "join_inv me tg rv (run (join_sys_step me tg rv) ls (join_start tg fresh th st))"
  by (rule run_invariant [where I = "join_inv me tg rv", OF join_step_inv [OF _ assms] join_start_inv])

section \<open>Properties\<close>


text \<open>Thread 1 joins thread 2 before it ends with the result 7; cell 5 takes the result.\<close>

definition example_join :: "join_label list" where
  "example_join = JCall # replicate 7 JRun @ JRelease # TExit 7 # replicate 4 TRun @ replicate 9 TRun @ [JRun]"


end
