(* ===== verification/Spec2Isabelle.thy ===== *)
theory Spec2Isabelle
  imports HSpin HFutex VNode ConcSet FContext HMutex HSem HRWLock HBarrier HCond VThread Sched SchedPlace SchedRaces
    Runtime RWQueueSpec LightSema BlockingQueue CQFreeList SpscQueue LFBarrier BlkMutex CQDequeue
    HCoroutine Pwarpper HCondSpec HCondPoll JoinSpec
begin

text \<open>
  A verification development of HThread, a library that runs pthreads as virtual threads on a
  few kernel threads (\<open>src/src\<close>, \<open>src/inc\<close>, \<open>src/asm\<close>).

  \<^bold>\<open>The program.\<close>  \<open>pthread_create\<close> takes a slot for a virtual thread, makes a context for it and
  puts it into the run queue.  Workers, one kernel thread per processor the process may use,
  take threads from the run queue, jump into their contexts and look at what they yield:
  finished, suspended, blocked, failed to lock, or the address of a mutex to release.  Mutexes,
  semaphores, barriers, condition variables, read-write locks and joins are built on yields,
  atomic instructions and queues of waiting threads.  The run queue is the blocking lock-free
  queue of \<open>inc/blockingconcurrentqueue.h\<close> over the one of \<open>inc/concurrentqueue.h\<close>.

  \<^bold>\<open>Conventions.\<close>  An operation that runs concurrently with others is a step function: one step is
  one access to shared memory, one system call or one call of a component whose own theory
  proves it.  A machine (\<open>..._event_step\<close>) maps a label, which names the thread that moves and
  what the environment chose, and a state to the next state; \<^const>\<open>run\<close> executes a list of
  labels, so a theorem about all label lists is one about all interleavings, under sequential
  consistency.  Failed assertions and accesses through null pointers are values.  Counters the
  code wraps are words of their width; where a count is an \<^typ>\<open>int\<close> or a \<^typ>\<open>nat\<close>, it counts
  threads or objects in memory.  Fields that only record history are said to be so where they
  are declared.  Code outside the repository (\<open>boost::lockfree::queue\<close>, the kernel, \<open>malloc\<close>,
  the functions a program passes in) is an argument of the definitions; what is assumed of it
  is a named hypothesis.

  \<^bold>\<open>Theories.\<close>
  \<^item> \<open>HPrelude\<close>: C types, the GCC atomic builtins, runs and their invariant rules, words, lists.
  \<^item> \<open>HSpin\<close> (\<open>hspin_lock\<close>, \<open>hspin_trylock\<close>, \<open>hspin_unlock\<close> of \<open>inc/htypes.hpp\<close>, instruction by
    instruction): mutual exclusion, the lock is taken within a bounded number of instructions.
    Its locale \<open>test_and_set_lock\<close> is interpreted on the spin lock and on the mutex.
  \<^item> \<open>HFutex\<close> (\<open>hthread_bin_sema_t\<close>; \<open>h_add_and_fetch\<close>, \<open>hsem_wait\<close>, \<open>hsem_post\<close> of
    \<open>inc/hutil.h\<close>): tokens are conserved, no wake-up of the binary semaphore is lost, one of
    \<open>hsem_wait\<close> can be.
  \<^item> \<open>VNode\<close> (\<open>typed_node\<close>): concurrent \<open>safe_enqueue\<close> builds a well-formed list; \<open>safe_dequeue\<close>
    has the ABA problem.
  \<^item> \<open>ConcSet\<close> (\<open>inc/concurrent_set.hpp\<close>): the hash table is a set.
  \<^item> \<open>FContext\<close> (\<open>asm/*.S\<close>): the two assembly routines on a machine of registers and stack cells,
    jumping away and back restores a context.  \<open>HCoroutine\<close> (\<open>inc/hcoroutine.h\<close>, \<open>inc/hcontext.h\<close>
    and the resume and yield of \<open>vthread\<close>): coroutines on those routines, where a new one starts
    and what survives a switch between worker and virtual thread.
  \<^item> \<open>Pwarpper\<close> (\<open>src/pwarpper.cpp\<close>): the table of the C library's own functions; the dynamic
    linker is an argument.
  \<^item> \<open>VTypes\<close>: the yield values and the steps of pthread operations.
  \<^item> \<open>HMutex\<close>, \<open>HSem\<close>, \<open>HBarrier\<close>, \<open>HCond\<close> (\<open>inc/strategy.h\<close>), \<open>HRWLock\<close> (\<open>src/hthread.cpp\<close>):
    exclusion of the locks, units of the semaphore, rendezvous and absence of deadlock of the
    barrier.  \<open>LFBarrier\<close> and \<open>BlkMutex\<close> are the variants of barrier and mutex that other build
    options select (\<open>LOCKFREE_BARRIER\<close>, no \<open>SPIN_LOCK_STYLE\<close>): the first is a rendezvous too, the
    second excludes but loses wake-ups.  \<open>HCondSpec\<close> composes the condition variable with waiters,
    signallers and broadcasters: no waiter is lost.  \<open>HCondPoll\<close> is the variant of
    \<open>LOCKFREE_COND\<close>, version 2, with each thread on one worker at a time: a broadcast is answered,
    a signal can be stolen.  \<open>BoostQueue\<close> states what the library relies on of the Boost queue, and the
    back-off of \<open>inc/hlockfreequeue.hpp\<close>.
  \<^item> \<open>VThread\<close> (\<open>inc/vthread.hpp\<close>, the signal handler of \<open>src/mgr_thread.cpp\<close>): \<open>init\<close>, \<open>join\<close>,
    \<open>wake_up_joined\<close>, yields, thread-specific data.  \<open>JoinSpec\<close>: a join delivers the result of the
    thread it waited for.
  \<^item> \<open>Sched\<close> (\<open>worker_routine\<close>, \<open>add_vthread\<close>, \<open>pthread_create\<close>, \<open>pthread_exit\<close> and all blocking
    operations composed): the machine of workers, virtual threads and kernel threads.  The run
    queue is a bag from which any element may come, which is what \<open>BlockingQueue\<close> proves of the
    real one.  \<open>SchedPlace\<close> shows that a virtual thread is in one place at a time and never on
    two workers in programs without condition variables and joins among virtual threads;
    \<open>SchedRaces\<close> evaluates the runs in which those two break it.
  \<^item> \<open>Runtime\<close> (\<open>inc/tthreads.hpp\<close>, \<open>src/tthreads.cpp\<close>, \<open>src/hinit.cpp\<close>): the share of the
    processors and the count of active kernel threads.
  \<^item> \<open>CQueue\<close>, \<open>CQIndex\<close>, \<open>CQPool\<close>, \<open>CQProducer\<close>, \<open>CQSpec\<close>, \<open>CQHash\<close>, \<open>CQThreads\<close>
    (\<open>inc/concurrentqueue.h\<close> with implicit producers): index ring, block pool, producers, the
    list of producers, the hash tables from threads to producers, and the refinement of one
    first-in first-out list per thread.  \<open>CQFreeList\<close> is the free list under concurrency and
    \<open>CQDequeue\<close> one producer with concurrent consumers, one memory access per step: no node and
    no element is handed out twice, none is lost.
  \<^item> \<open>LightSema\<close> and \<open>BlockingQueue\<close> (\<open>inc/blockingconcurrentqueue.h\<close>): the semaphore, and the
    blocking queue over any inner queue with the laws of the locale \<open>bag_queue\<close>, interpreted on
    \<open>CQThreads\<close>: every element is delivered once, no wake-up is lost.
  \<^item> \<open>PowTwo\<close>, \<open>RWQueue\<close>, \<open>RWQueueSpec\<close> (\<open>inc/readerwriterqueue.h\<close>): the ring of blocks refines a
    list.  \<open>SpscQueue\<close> (its blocking form and \<open>spsc_sema\<close> of \<open>inc/atomicops.h\<close>): order,
    assertions and progress over any queue with the laws of the locale \<open>fifo_queue\<close>.

  \<^bold>\<open>Bounds and fuel.\<close>  Virtual threads are numbered below \<open>MAX_VTHREADS\<close> as in the code.  Fewer
  than \<open>2 ^ 31\<close> threads use a semaphore or a free list (Linux allows \<open>2 ^ 22\<close>); a run of \<open>CQDequeue\<close>
  has at most \<open>2 ^ 63\<close> steps, so that a stalled consumer's counters are not overtaken; thread
  identifiers are addresses below \<open>2 ^ 47\<close>; an enqueue is promised to succeed while a producer
  has fewer than \<open>2 ^ 63 - 32\<close> elements.
  Loops inside one atomic operation are recursive functions with a termination proof or run
  over the number of blocks, slots or producers there are; probing of a hash table and the size
  loop of the reader-writer queue are proved to end.  Loops that wait for others are steps of
  a machine and need no bound.

  \<^bold>\<open>Not modelled.\<close>  Weak memory orders: the atomics of \<open>inc/concurrentqueue.h\<close> with relaxed order
  are sequentially consistent here.  Operations of \<open>ConcurrentQueue\<close> run one after the other
  except in \<open>CQFreeList\<close> and \<open>CQDequeue\<close>, and \<open>BlockingQueue\<close> takes them as whole steps; the growth
  of a block index and of the hash tables is not modelled under concurrency.  The \<open>LOCKFREE_COND\<close>
  condition variable, which is not built and which \<open>worker_routine\<close> would run twice.  Explicit
  producers, tokens, bulk operations, moving and destruction of the vendored queues, which the
  library does not use.  \<open>inc/hcoroutine.h\<close> and \<open>inc/hcontext.h\<close> are type plumbing around the
  assembly routines; \<open>pwarpper\<close> looks up the C library's functions; \<open>hdebug\<close>, \<open>common\<close> and
  \<open>hglobal\<close> are logging and declarations; \<open>clean_shm.cpp\<close> is one system call.
\<close>

end
